(* ===== verification/Prelude.thy ===== *)
theory Prelude
  imports Complex_Main "HOL-Library.Word" "HOL-Library.AList" "HOL-Library.Multiset"
begin

unbundle bit_operations_syntax

section \<open>Shared types, hint collections and generic lemmas\<close>

text \<open>
  What every component of the development uses: bytes and byte strings, the outcome of
  a call that may throw, the hint collections the component proofs pass to the
  simplifier, and generic facts about lists, big-endian splitting and insertion-ordered
  maps. Nothing in this theory models a line of the repository.
\<close>

named_theorems writer_contract "what a write operation does to the bytes written so far"
named_theorems sorted_hints "sortedness and ordering facts about queues of chunks"
named_theorems js_simps "small evaluation facts about JavaScript values"

type_synonym byte = "8 word"

type_synonym bytes = "byte list"

text \<open>The element a \<open>Uint8Array\<close> stores for a number: reduction modulo 256.\<close>

definition byte_of :: "nat \<Rightarrow> byte" where
  "byte_of n = word_of_nat n"

lemma unat_byte_of: "unat (byte_of n) = n mod 256"
  by (simp add: byte_of_def unsigned_of_nat take_bit_eq_mod)

lemma unat_byte_of_small [simp]: "n < 256 \<Longrightarrow> unat (byte_of n) = n"
  by (simp add: unat_byte_of)

lemma byte_of_int: "0 \<le> v \<Longrightarrow> word_of_int v = byte_of (nat v)"
  by (simp add: byte_of_def)

subsection \<open>Overwriting a stretch of a buffer\<close>

text \<open>
  \<open>splice_at p bs buf\<close> writes \<open>bs\<close> over the elements of \<open>buf\<close> that start at index
  \<open>p\<close>, as \<open>TypedArray.prototype.set(bs, p)\<close> and the setters of \<open>DataView\<close> do when
  the stretch lies inside the array. The writer only calls it with room for all of
  \<open>bs\<close>; on other arguments the library throws, and the lemma on the length needs that
  room as a premise.
\<close>

definition splice_at :: "nat \<Rightarrow> 'a list \<Rightarrow> 'a list \<Rightarrow> 'a list" where
  "splice_at p bs buf = take p buf @ bs @ drop (p + length bs) buf"

lemma length_splice_at [simp]:
  "p + length bs \<le> length buf \<Longrightarrow> length (splice_at p bs buf) = length buf"
  by (simp add: splice_at_def)

lemma take_splice_at [simp]:
  "p + length bs \<le> length buf \<Longrightarrow>
   take (p + length bs) (splice_at p bs buf) = take p buf @ bs"
  by (simp add: splice_at_def)

lemma take_splice_before [simp]:
  "q \<le> p \<Longrightarrow> p \<le> length buf \<Longrightarrow> take q (splice_at p bs buf) = take q buf"
  by (simp add: splice_at_def min_def)

lemma drop_splice_at:
  "p + length bs \<le> length buf \<Longrightarrow>
   drop (p + length bs + k) (splice_at p bs buf) = drop (p + length bs + k) buf"
  by (simp add: splice_at_def min_def add.commute)

lemma splice_at_append:
  assumes "p + length as \<le> length buf"
  shows "splice_at (p + length as) bs (splice_at p as buf) = splice_at p (as @ bs) buf"
  unfolding splice_at_def [of "p + length as"]
  using assms drop_splice_at [OF assms, of "length bs"] by (simp add: splice_at_def add.assoc)

lemma splice_at_Nil [simp]: "splice_at p [] buf = buf"
  by (simp add: splice_at_def)

subsection \<open>Big-endian and little-endian byte strings\<close>

text \<open>\<open>be_bytes n v\<close>: the \<open>n\<close> low bytes of \<open>v\<close>, most significant first.\<close>

fun be_bytes :: "nat \<Rightarrow> int \<Rightarrow> bytes" where
  "be_bytes 0 v = []"
| "be_bytes (Suc n) v = be_bytes n (v div 256) @ [word_of_int v]"

definition le_bytes :: "nat \<Rightarrow> int \<Rightarrow> bytes" where
  "le_bytes n v = rev (be_bytes n v)"

definition be_val :: "bytes \<Rightarrow> nat" where
  "be_val bs = foldl (\<lambda>a b. a * 256 + unat b) 0 bs"

lemma length_be_bytes [simp]: "length (be_bytes n v) = n"
  by (induction n arbitrary: v) auto

lemma length_le_bytes [simp]: "length (le_bytes n v) = n"
  by (simp add: le_bytes_def)

lemma be_val_Nil [simp]: "be_val [] = 0"
  by (simp add: be_val_def)

lemma be_val_snoc [simp]: "be_val (bs @ [b]) = be_val bs * 256 + unat b"
  by (simp add: be_val_def)

lemma unat_byte_of_int: "int (unat (word_of_int v :: byte)) = v mod 256"
  by (simp add: uint_word_of_int)

lemma be_val_be_bytes: "int (be_val (be_bytes n v)) = v mod 256 ^ n"
proof (induction n arbitrary: v)
  case 0
  then show ?case by simp
next
  case (Suc n)
  have "int (be_val (be_bytes (Suc n) v)) = (v div 256) mod 256 ^ n * 256 + v mod 256"
    using Suc.IH [of "v div 256"] unat_byte_of_int [of v] by simp
  also have "\<dots> = v mod (256 * 256 ^ n)"
    by (simp add: mod_mult2_eq' zmod_zmult2_eq)
  finally show ?case by simp
qed

lemma be_val_be_bytes_nat: "m < 256 ^ n \<Longrightarrow> be_val (be_bytes n (int m)) = m"
  using be_val_be_bytes [of n "int m"]
  by (metis mod_less nat_int of_nat_mod of_nat_numeral of_nat_power)

lemma be_bytes_append:
  "be_bytes (n + k) v = be_bytes n (v div 256 ^ k) @ be_bytes k v"
proof (induction k arbitrary: v)
  case 0
  then show ?case by simp
next
  case (Suc k)
  show ?case
    using Suc.IH [of "v div 256"] by (simp add: zdiv_zmult2_eq)
qed

lemma be_bytes_mod: "be_bytes n (v mod 256 ^ n) = be_bytes n v"
proof (induction n arbitrary: v)
  case 0
  then show ?case by simp
next
  case (Suc n)
  have d: "(v mod 256 ^ Suc n) div 256 = (v div 256) mod 256 ^ n"
    by (simp add: zmod_zmult2_eq)
  have w: "(word_of_int (v mod 256 ^ Suc n) :: byte) = word_of_int v"
    by (simp add: word_of_int_eq_iff take_bit_eq_mod mod_mod_cancel)
  show ?case using Suc.IH [of "v div 256"] d w by simp
qed

end
