(* ===== verification/Js_Number.thy ===== *)
theory Js_Number
  imports Prelude "HOL-Library.Log_Nat"
begin

section \<open>JavaScript numbers: IEEE 754 values and their bit patterns\<close>

text \<open>
  A Number of the source is an IEEE 754 double. The development keeps two readings of
  it: a finite number as the rational it denotes, where the code does arithmetic on it
  (timestamps), and its 64-bit pattern, where the code only stores it or writes it out
  (\<open>DataView.setFloat64\<close>). This theory holds the conversion between the two, for any
  binary interchange format with \<open>w\<close> exponent bits and \<open>t\<close> stored significand bits
  (\<open>w = 11, t = 52\<close> for a double, \<open>w = 8, t = 23\<close> for \<open>setFloat32\<close>), the rounding of an
  exact result to the nearest double (ties to even), and the integer conversions
  \<open>ToInt32\<close> of the bitwise operators. The lemmas show that rounding is monotone, keeps
  every integer up to \<open>2^53\<close>, and that encoding such a number and reading the bits
  back gives it again.
\<close>

subsection \<open>Base-2 exponent and rounding to an integer\<close>

definition flog2 :: "rat \<Rightarrow> int" where
  "flog2 x = (if 1 \<le> x then bitlen \<lfloor>x\<rfloor> - 1 else - bitlen (\<lceil>1 / x\<rceil> - 1))"

text \<open>Round to the nearest integer, ties to the even one.\<close>

definition round_even :: "rat \<Rightarrow> int" where
  "round_even x =
     (let f = \<lfloor>x\<rfloor>; d = x - of_int f
      in if d < 1 / 2 then f
         else if 1 / 2 < d then f + 1
         else if even f then f else f + 1)"

lemma powi2_pos [simp]: "0 < (2 :: rat) powi e"
  by (simp add: power_int_def)

lemma powi2_mono: "a \<le> b \<Longrightarrow> (2 :: rat) powi a \<le> 2 powi b"
  by (simp add: power_int_increasing)

lemma powi2_le_iff: "(2 :: rat) powi a \<le> 2 powi b \<longleftrightarrow> a \<le> b"
  by (meson powi2_mono power_int_strict_increasing linorder_not_less one_less_numeral_iff
      semiring_norm(76))

lemma powi2_add: "(2 :: rat) powi (a + b) = 2 powi a * 2 powi b"
  by (simp add: power_int_add)

lemma powi2_nat: "(2 :: rat) powi int n = 2 ^ n"
  by simp

lemma flog2_bounds:
  assumes "0 < x"
  shows "2 powi flog2 x \<le> x" and "x < 2 powi (flog2 x + 1)"
proof -
  have *: "2 powi flog2 x \<le> x \<and> x < 2 powi (flog2 x + 1)"
  proof (cases "1 \<le> x")
    case True
    define z where "z = \<lfloor>x\<rfloor>"
    have z: "0 < z" using True by (simp add: z_def)
    have l: "0 < bitlen z" using z bitlen_nonneg [of z] bitlen_eq_zero_iff [of z] by linarith
    have e: "flog2 x = int (nat (bitlen z - 1))" "flog2 x + 1 = int (nat (bitlen z))"
      using True l by (simp_all add: flog2_def z_def)
    have b: "2 ^ nat (bitlen z - 1) \<le> z" "z + 1 \<le> 2 ^ nat (bitlen z)"
      using bitlen_bounds [OF z] by auto
    have "(2 :: rat) ^ nat (bitlen z - 1) = of_int (2 ^ nat (bitlen z - 1))" by simp
    also have "\<dots> \<le> of_int z" using b(1) by (simp only: of_int_le_iff)
    also have "\<dots> \<le> x" by (simp add: z_def)
    finally have lo: "2 powi flog2 x \<le> x" by (simp only: e(1) powi2_nat)
    have "x < of_int (z + 1)" unfolding z_def by linarith
    also have "\<dots> \<le> (of_int (2 ^ nat (bitlen z)) :: rat)" using b(2) by (simp only: of_int_le_iff)
    finally have "x < 2 powi (flog2 x + 1)" by (simp only: e(2) powi2_nat) simp
    with lo show ?thesis by simp
  next
    case False
    define z where "z = \<lceil>1 / x\<rceil> - 1"
    have "1 < 1 / x" using False assms by simp
    then have z: "0 < z" by (simp add: z_def)
    have l: "0 < bitlen z" using z bitlen_nonneg [of z] bitlen_eq_zero_iff [of z] by linarith
    have b: "2 ^ nat (bitlen z - 1) \<le> z" "z + 1 \<le> 2 ^ nat (bitlen z)"
      using bitlen_bounds [OF z] by auto
    have up: "1 / x \<le> 2 ^ nat (bitlen z)"
    proof -
      have "1 / x \<le> of_int (z + 1)" by (simp add: z_def)
      also have "\<dots> \<le> (of_int (2 ^ nat (bitlen z)) :: rat)" using b(2) by (simp only: of_int_le_iff)
      finally show ?thesis by simp
    qed
    have dn: "2 ^ nat (bitlen z - 1) < 1 / x"
    proof -
      have "(2 :: rat) ^ nat (bitlen z - 1) = of_int (2 ^ nat (bitlen z - 1))" by simp
      also have "\<dots> \<le> of_int z" using b(1) by (simp only: of_int_le_iff)
      also have "\<dots> < 1 / x" unfolding z_def by linarith
      finally show ?thesis .
    qed
    have e: "flog2 x = - int (nat (bitlen z))" "flog2 x + 1 = - int (nat (bitlen z - 1))"
      using False l by (simp_all add: flog2_def z_def)
    have "(2 :: rat) powi flog2 x = 1 / 2 ^ nat (bitlen z)"
      by (simp only: e(1) power_int_minus_divide powi2_nat)
    moreover have "(2 :: rat) powi (flog2 x + 1) = 1 / 2 ^ nat (bitlen z - 1)"
      by (simp only: e(2) power_int_minus_divide powi2_nat)
    moreover have "1 / 2 ^ nat (bitlen z) \<le> x" and "x < 1 / 2 ^ nat (bitlen z - 1)"
      using up dn assms
      by (simp_all add: pos_divide_le_eq pos_less_divide_eq pos_le_divide_eq mult.commute)
    ultimately show ?thesis by simp
  qed
  show "2 powi flog2 x \<le> x" and "x < 2 powi (flog2 x + 1)" using * by auto
qed

lemma flog2_unique:
  assumes "2 powi e \<le> x" and "x < 2 powi (e + 1)"
  shows "flog2 x = e"
proof -
  have x: "0 < x" using assms(1) powi2_pos [of e] by linarith
  have "2 powi e < (2 :: rat) powi (flog2 x + 1)"
    using assms(1) flog2_bounds(2) [OF x] by linarith
  then have "e \<le> flog2 x" using powi2_le_iff [of "flog2 x + 1" e] by linarith
  moreover have "2 powi flog2 x < (2 :: rat) powi (e + 1)"
    using assms(2) flog2_bounds(1) [OF x] by linarith
  then have "flog2 x \<le> e" using powi2_le_iff [of "e + 1" "flog2 x"] by linarith
  ultimately show ?thesis by simp
qed

lemma flog2_mono:
  assumes "0 < x" and "x \<le> y"
  shows "flog2 x \<le> flog2 y"
proof -
  have "2 powi flog2 x < (2 :: rat) powi (flog2 y + 1)"
    using flog2_bounds(1) [of x] flog2_bounds(2) [of y] assms by linarith
  then show ?thesis using powi2_le_iff [of "flog2 y + 1" "flog2 x"] by linarith
qed

lemma round_even_int [simp]: "round_even (of_int n) = n"
  by (simp add: round_even_def)

lemma round_even_0 [simp]: "round_even 0 = 0"
  using round_even_int [of 0] by simp

lemma round_even_nat [simp]: "round_even (of_nat n) = int n"
  using round_even_int [of "int n"] by simp

lemma round_even_bounds: "\<lfloor>x\<rfloor> \<le> round_even x" "round_even x \<le> \<lfloor>x\<rfloor> + 1"
  by (auto simp: round_even_def Let_def)

lemma round_even_mono: "x \<le> y \<Longrightarrow> round_even x \<le> round_even y"
proof (cases "\<lfloor>x\<rfloor> = \<lfloor>y\<rfloor>")
  case True
  moreover assume "x \<le> y"
  ultimately show ?thesis by (auto simp: round_even_def Let_def)
next
  case False
  assume "x \<le> y"
  then have "\<lfloor>x\<rfloor> + 1 \<le> \<lfloor>y\<rfloor>" using False floor_mono [of x y] by linarith
  then show ?thesis using round_even_bounds [of x] round_even_bounds [of y] by linarith
qed

lemma round_even_le_int: "x \<le> of_int n \<Longrightarrow> round_even x \<le> n"
  using round_even_mono [of x "of_int n"] by simp

lemma round_even_ge_int: "of_int n \<le> x \<Longrightarrow> n \<le> round_even x"
  using round_even_mono [of "of_int n" x] by simp

subsection \<open>Encoding a magnitude\<close>

text \<open>
  \<open>quantum w t\<close> is the exponent of the smallest positive value; \<open>binade w t x\<close> counts
  the binades between that of the subnormal numbers and that of \<open>x\<close>. The magnitude bits
  of \<open>x\<close> are then \<open>binade * 2 ^ t\<close> plus the rounded significand, whose leading bit, or
  the carry of its rounding, steps into the exponent field; anything past the largest
  finite number is the pattern of infinity.
\<close>

definition quantum :: "nat \<Rightarrow> nat \<Rightarrow> int" where
  "quantum w t = 2 - 2 ^ (w - 1) - int t"

definition binade :: "nat \<Rightarrow> nat \<Rightarrow> rat \<Rightarrow> nat" where
  "binade w t x = (if x = 0 then 0 else nat (flog2 x - int t - quantum w t))"

definition ieee_sig :: "nat \<Rightarrow> nat \<Rightarrow> rat \<Rightarrow> nat" where
  "ieee_sig w t x = nat (round_even (x / 2 powi (quantum w t + int (binade w t x))))"

definition ieee_mag :: "nat \<Rightarrow> nat \<Rightarrow> rat \<Rightarrow> nat" where
  "ieee_mag w t x = min ((2 ^ w - 1) * 2 ^ t) (binade w t x * 2 ^ t + ieee_sig w t x)"

definition ieee_val :: "nat \<Rightarrow> nat \<Rightarrow> nat \<Rightarrow> rat" where
  "ieee_val w t n =
     (let e = n div 2 ^ t; f = n mod 2 ^ t
      in if e = 0 then of_nat f * 2 powi quantum w t
         else of_nat (2 ^ t + f) * 2 powi (quantum w t + int e - 1))"

lemma binade_mono: "0 \<le> x \<Longrightarrow> x \<le> y \<Longrightarrow> binade w t x \<le> binade w t y"
  using flog2_mono [of x y] by (auto simp: binade_def)

lemma sig_le:
  assumes "0 \<le> x"
  shows "ieee_sig w t x \<le> 2 ^ (t + 1)"
proof (cases "x = 0")
  case True
  then show ?thesis using round_even_int [of 0] by (simp add: ieee_sig_def)
next
  case False
  then have x: "0 < x" using assms by simp
  let ?k = "binade w t x" and ?q = "quantum w t"
  have "flog2 x + 1 \<le> (?q + int ?k) + int (t + 1)" using False by (simp add: binade_def)
  then have "2 powi (flog2 x + 1) \<le> (2 :: rat) powi ((?q + int ?k) + int (t + 1))"
    by (simp only: powi2_le_iff)
  then have "x \<le> 2 powi (?q + int ?k) * 2 ^ (t + 1)"
    using flog2_bounds(2) [OF x] by (simp only: powi2_add powi2_nat)
  then have "x / 2 powi (?q + int ?k) \<le> of_int (2 ^ (t + 1))"
    by (simp add: pos_divide_le_eq mult.commute)
  then have "round_even (x / 2 powi (?q + int ?k)) \<le> 2 ^ (t + 1)" by (rule round_even_le_int)
  then show ?thesis unfolding ieee_sig_def by (simp add: nat_le_iff)
qed

lemma sig_ge:
  assumes "0 \<le> x" and "0 < binade w t x"
  shows "2 ^ t \<le> ieee_sig w t x"
proof -
  let ?k = "binade w t x" and ?q = "quantum w t"
  have x: "0 < x" and k: "?q + int ?k + int t = flog2 x"
    using assms by (auto simp: binade_def split: if_splits)
  have "2 powi (?q + int ?k) * 2 ^ t \<le> x"
    using flog2_bounds(1) [OF x] by (simp only: k [symmetric] powi2_add powi2_nat)
  then have "of_int (2 ^ t) \<le> x / 2 powi (?q + int ?k)"
    by (simp add: pos_le_divide_eq mult.commute)
  then have "2 ^ t \<le> round_even (x / 2 powi (?q + int ?k))" by (rule round_even_ge_int)
  then show ?thesis unfolding ieee_sig_def by (simp add: le_nat_iff)
qed

lemma mag_mono:
  assumes "0 \<le> x" and "x \<le> y"
  shows "ieee_mag w t x \<le> ieee_mag w t y"
proof -
  let ?k = "binade w t"
  have k: "?k x \<le> ?k y" using assms by (rule binade_mono)
  have "?k x * 2 ^ t + ieee_sig w t x \<le> ?k y * 2 ^ t + ieee_sig w t y"
  proof (cases "?k x = ?k y")
    case True
    have "x / 2 powi (quantum w t + int (?k y)) \<le> y / 2 powi (quantum w t + int (?k y))"
      using assms(2) by (simp add: divide_right_mono)
    then show ?thesis using True
      by (simp add: ieee_sig_def round_even_mono nat_mono)
  next
    case False
    then have lt: "?k x + 1 \<le> ?k y" using k by simp
    have "?k x * 2 ^ t + ieee_sig w t x \<le> (?k x + 1) * 2 ^ t + 2 ^ t"
      using sig_le [OF assms(1), of w t] by simp
    also have "\<dots> \<le> ?k y * 2 ^ t + 2 ^ t" using mult_le_mono1 [OF lt, of "2 ^ t"] by linarith
    also have "\<dots> \<le> ?k y * 2 ^ t + ieee_sig w t y"
      using sig_ge [of y w t] assms lt by simp
    finally show ?thesis .
  qed
  then show ?thesis unfolding ieee_mag_def by (rule min.mono [OF order_refl])
qed

lemma val_step: "ieee_val w t n \<le> ieee_val w t (Suc n)"
proof (cases "Suc (n mod 2 ^ t) < 2 ^ t")
  case True
  then have "Suc n div 2 ^ t = n div 2 ^ t" "Suc n mod 2 ^ t = Suc (n mod 2 ^ t)"
    by (auto simp: div_Suc mod_Suc)
  then show ?thesis by (simp add: ieee_val_def Let_def mult_right_mono)
next
  case False
  have "n mod 2 ^ t < 2 ^ t" by simp
  with False have e: "Suc (n mod 2 ^ t) = 2 ^ t" by linarith
  then have s: "Suc n div 2 ^ t = Suc (n div 2 ^ t)" "Suc n mod 2 ^ t = 0"
    by (simp_all add: div_Suc mod_Suc)
  have f: "(of_nat (n mod 2 ^ t) :: rat) \<le> 2 ^ t"
    using e by (metis of_nat_le_iff of_nat_numeral of_nat_power le_SucI order_refl Suc_leD)
  show ?thesis
  proof (cases "n div 2 ^ t = 0")
    case True
    then show ?thesis using s f by (simp add: ieee_val_def Let_def mult_right_mono)
  next
    case False
    then obtain d where d: "n div 2 ^ t = Suc d" by (cases "n div 2 ^ t") auto
    have p: "(2 :: rat) powi (quantum w t + int d + 1) = 2 powi (quantum w t + int d) * 2"
      by (simp only: powi2_add [of "quantum w t + int d" 1]) simp
    have "(2 ^ t + of_nat (n mod 2 ^ t)) * 2 powi (quantum w t + int d)
        \<le> (2 ^ t + 2 ^ t) * (2 :: rat) powi (quantum w t + int d)"
      using f by (intro mult_right_mono add_left_mono) (auto intro: less_imp_le)
    then show ?thesis using s d p
      by (simp add: ieee_val_def Let_def algebra_simps)
  qed
qed

lemma val_mono: "m \<le> n \<Longrightarrow> ieee_val w t m \<le> ieee_val w t n"
  by (rule lift_Suc_mono_le [of "ieee_val w t"]) (rule val_step)

lemma val_nonneg: "0 \<le> ieee_val w t n"
  by (auto simp: ieee_val_def Let_def intro!: mult_nonneg_nonneg less_imp_le)

lemma div_rem_unique: "f < b \<Longrightarrow> (a * b + f) div b = a \<and> (a * b + f) mod b = f" for a b f :: nat
  by simp

lemma val_mag_exact:
  assumes x: "0 \<le> x" and m: "x / 2 powi (quantum w t + int (binade w t x)) = of_nat m"
    and fin: "binade w t x * 2 ^ t + m \<le> (2 ^ w - 1) * 2 ^ t"
  shows "ieee_val w t (ieee_mag w t x) = x"
proof -
  let ?k = "binade w t x" and ?q = "quantum w t"
  have sig: "ieee_sig w t x = m" by (simp add: ieee_sig_def m)
  have mag: "ieee_mag w t x = ?k * 2 ^ t + m" using fin by (simp add: ieee_mag_def sig)
  have x': "x = of_nat m * 2 powi (?q + int ?k)" using m by (simp add: field_simps)
  have le: "m \<le> 2 * 2 ^ t" using sig_le [OF x, of w t] sig by simp
  have two: "(2 :: rat) powi (?q + int ?k + 1) = 2 powi (?q + int ?k) * 2"
    by (simp only: powi2_add [of "?q + int ?k" 1]) simp
  consider "m < 2 ^ t" | "2 ^ t \<le> m" "m < 2 * 2 ^ t" | "m = 2 * 2 ^ t" using le by linarith
  then show ?thesis
  proof cases
    case 1
    then have "?k = 0" using sig_ge [OF x, of w t] sig by (cases ?k) auto
    then have "ieee_mag w t x = m" by (simp add: mag)
    moreover have "ieee_val w t m = of_nat m * 2 powi ?q" using 1 by (simp add: ieee_val_def)
    ultimately show ?thesis using x' \<open>?k = 0\<close> by simp
  next
    case 2
    then obtain f where f: "m = 2 ^ t + f" "f < 2 ^ t"
      by (metis add_less_cancel_left le_iff_add mult_2)
    then have "ieee_mag w t x = (?k + 1) * 2 ^ t + f" by (simp add: mag)
    then have "ieee_mag w t x div 2 ^ t = ?k + 1" "ieee_mag w t x mod 2 ^ t = f"
      using div_rem_unique [OF f(2), of "?k + 1"] by (simp_all only:)
    then show ?thesis using x' f(1) by (simp add: ieee_val_def Let_def)
  next
    case 3
    then have "ieee_mag w t x = (?k + 2) * 2 ^ t" by (simp add: mag)
    then have "ieee_mag w t x div 2 ^ t = ?k + 2" "ieee_mag w t x mod 2 ^ t = 0" by simp_all
    then show ?thesis using x' 3 two
      by (simp add: ieee_val_def Let_def algebra_simps)
  qed
qed

subsection \<open>Doubles\<close>

type_synonym f64 = "64 word"

type_synonym f32 = "32 word"

definition f64_of_rat :: "rat \<Rightarrow> f64" where
  "f64_of_rat x = word_of_nat (ieee_mag 11 52 \<bar>x\<bar> + (if x < 0 then 2 ^ 63 else 0))"

text \<open>The rational a pattern denotes; \<open>None\<close> for the infinities and the NaNs.\<close>

definition f64_val :: "f64 \<Rightarrow> rat option" where
  "f64_val b =
     (let m = unat b mod 2 ^ 63
      in if m < 2047 * 2 ^ 52
         then Some ((if 2 ^ 63 \<le> unat b then - 1 else 1) * ieee_val 11 52 m) else None)"

text \<open>The double nearest to an exact result, as a rational.\<close>

definition f64_round :: "rat \<Rightarrow> rat" where
  "f64_round x = (if x < 0 then - ieee_val 11 52 (ieee_mag 11 52 (- x))
                  else ieee_val 11 52 (ieee_mag 11 52 x))"

text \<open>
  \<open>setFloat32\<close> rounds its argument to a 32-bit value; an infinity keeps its sign and a
  NaN becomes the quiet NaN.
\<close>

definition f32_of_f64 :: "f64 \<Rightarrow> f32" where
  "f32_of_f64 b =
     (let m = unat b mod 2 ^ 63; s = (if 2 ^ 63 \<le> unat b then 2 ^ 31 else 0)
      in if m < 2047 * 2 ^ 52 then word_of_nat (ieee_mag 8 23 (ieee_val 11 52 m) + s)
         else if m = 2047 * 2 ^ 52 then word_of_nat (255 * 2 ^ 23 + s)
         else word_of_nat (255 * 2 ^ 23 + 2 ^ 22))"

lemma f64_round_mono: "x \<le> y \<Longrightarrow> f64_round x \<le> f64_round y"
proof -
  assume le: "x \<le> y"
  have n: "0 \<le> ieee_val 11 52 k" for k by (rule val_nonneg)
  consider "0 \<le> x" | "x < 0" "0 \<le> y" | "y < 0" by linarith
  then show ?thesis
  proof cases
    case 1
    then show ?thesis using le by (simp add: f64_round_def val_mono mag_mono)
  next
    case 2
    then show ?thesis using n [of "ieee_mag 11 52 (- x)"] n [of "ieee_mag 11 52 y"]
      by (simp add: f64_round_def)
  next
    case 3
    then show ?thesis using le by (simp add: f64_round_def val_mono mag_mono)
  qed
qed

lemma f64_val_of_rat:
  assumes "ieee_mag 11 52 \<bar>x\<bar> < 2047 * 2 ^ 52"
  shows "f64_val (f64_of_rat x) = Some (f64_round x)"
proof -
  define m where "m = ieee_mag 11 52 \<bar>x\<bar>"
  have m: "m < 2047 * 2 ^ 52" using assms by (simp add: m_def)
  have w: "unat (word_of_nat k :: f64) = k" if "k < 2 ^ 64" for k
    using that by (simp add: unat_of_nat take_bit_nat_eq_self)
  have u: "unat (f64_of_rat x) = m + (if x < 0 then 2 ^ 63 else 0)"
    unfolding f64_of_rat_def m_def [symmetric] using m by (intro w) auto
  show ?thesis
  proof (cases "x < 0")
    case True
    then show ?thesis using m by (simp add: f64_val_def u f64_round_def Let_def m_def)
  next
    case False
    then show ?thesis using m by (simp add: f64_val_def u f64_round_def Let_def m_def)
  qed
qed

text \<open>Every integer below \<open>2 ^ 53\<close> is its own double.\<close>

lemma nat_mag_exact:
  assumes "n < 2 ^ 53"
  shows "ieee_val 11 52 (ieee_mag 11 52 (of_nat n)) = of_nat n"
    and "ieee_mag 11 52 (of_nat n) < 2047 * 2 ^ 52"
proof -
  let ?x = "of_nat n :: rat"
  have *: "ieee_val 11 52 (ieee_mag 11 52 ?x) = ?x \<and> ieee_mag 11 52 ?x < 2047 * 2 ^ 52"
  proof (cases "n = 0")
    case True
    then show ?thesis by (simp add: ieee_mag_def ieee_sig_def binade_def ieee_val_def)
  next
    case False
    then have x: "1 \<le> ?x" by simp
    define e where "e = flog2 ?x"
    have b: "2 powi e \<le> ?x" "?x < 2 powi (e + 1)"
      using flog2_bounds [of ?x] False by (simp_all add: e_def)
    have "(2 :: rat) powi 0 < 2 powi (e + 1)" using b(2) x by simp
    then have e0: "0 \<le> e" using powi2_le_iff [of "e + 1" 0] by linarith
    have "?x < 2 ^ 53" using assms by (metis of_nat_less_iff of_nat_numeral of_nat_power)
    then have "(2 :: rat) powi e < 2 powi 53" using b(1) by simp
    then have e1: "e \<le> 52" using powi2_le_iff [of 53 e] by linarith
    have q: "quantum 11 52 = - 1074" by (simp add: quantum_def)
    have k: "int (binade 11 52 ?x) = e + 1022"
      using False e0 by (simp add: binade_def q e_def)
    have d: "?x / 2 powi (quantum 11 52 + int (binade 11 52 ?x)) = of_nat (n * 2 ^ nat (52 - e))"
    proof -
      have "quantum 11 52 + int (binade 11 52 ?x) = - int (nat (52 - e))" using e1 by (simp add: q k)
      then show ?thesis by (simp only: power_int_minus_divide powi2_nat) simp
    qed
    have s: "ieee_sig 11 52 ?x = n * 2 ^ nat (52 - e)" by (simp add: ieee_sig_def d del: of_nat_mult)
    have "binade 11 52 ?x \<le> 1074" using k e1 by simp
    then have f: "binade 11 52 ?x * 2 ^ 52 + n * 2 ^ nat (52 - e) < 2047 * 2 ^ 52"
      using sig_le [of ?x 11 52] s by simp
    show ?thesis
      using val_mag_exact [OF _ d] f s by (simp add: ieee_mag_def)
  qed
  show "ieee_val 11 52 (ieee_mag 11 52 ?x) = ?x" and "ieee_mag 11 52 ?x < 2047 * 2 ^ 52"
    using * by auto
qed

lemma f64_round_int [js_simps]: "\<bar>i\<bar> < 2 ^ 53 \<Longrightarrow> f64_round (of_int i) = of_int i"
proof -
  assume a: "\<bar>i\<bar> < 2 ^ 53"
  have p: "f64_round (of_nat n) = of_nat n" if "n < 2 ^ 53" for n
    using nat_mag_exact(1) [OF that] by (simp add: f64_round_def)
  show ?thesis
  proof (cases "0 \<le> i")
    case True
    then show ?thesis using p [of "nat i"] a by simp
  next
    case False
    then have "nat (- i) < 2 ^ 53" using a by simp
    then show ?thesis using nat_mag_exact(1) [of "nat (- i)"] False by (simp add: f64_round_def)
  qed
qed

lemma f64_round_0 [simp]: "f64_round 0 = 0"
  using f64_round_int [of 0] by simp

lemma f64_round_nonneg: "0 \<le> x \<Longrightarrow> 0 \<le> f64_round x"
  using f64_round_mono [of 0 x] by simp

text \<open>The bits of an integer below \<open>2 ^ 53\<close> read back as that integer.\<close>

lemma f64_val_nat: "n < 2 ^ 53 \<Longrightarrow> f64_val (f64_of_rat (of_nat n)) = Some (of_nat n)"
  using f64_val_of_rat [of "of_nat n"] nat_mag_exact [of n] f64_round_int [of "int n"] by simp

subsection \<open>ToInt32 and the operators on it\<close>

definition js_trunc :: "rat \<Rightarrow> int" where
  "js_trunc x = (if 0 \<le> x then \<lfloor>x\<rfloor> else \<lceil>x\<rceil>)"

definition to_int32 :: "rat \<Rightarrow> 32 word" where
  "to_int32 x = word_of_int (js_trunc x)"

lemma js_trunc_int [simp]: "js_trunc (of_int i) = i"
  by (simp add: js_trunc_def)

lemma js_trunc_nat [simp]: "js_trunc (of_nat n) = int n"
  using js_trunc_int [of "int n"] by simp

text \<open>\<open>(v >> k) & 0xff\<close> for a Number \<open>v\<close>, as the byte it yields.\<close>

definition shr_byte :: "nat \<Rightarrow> rat \<Rightarrow> byte" where
  "shr_byte k v = ucast (signed_drop_bit k (to_int32 v) AND 255)"

lemma shr_byte_eq:
  assumes "k \<le> 24"
  shows "shr_byte k v = word_of_int (js_trunc v div 2 ^ k)"
proof (rule bit_word_eqI)
  fix n assume n: "n < LENGTH(8)"
  have m: "(255 :: 32 word) = mask 8" by (simp add: mask_eq_exp_minus_1)
  have "bit (shr_byte k v) n = bit (to_int32 v) (n + k)"
    using n assms by (auto simp: shr_byte_def m bit_simps add.commute)
  also have "\<dots> = bit (js_trunc v) (n + k)" using n assms by (simp add: to_int32_def bit_word_of_int_iff)
  also have "\<dots> = bit (drop_bit k (js_trunc v)) n" by (simp add: bit_drop_bit_eq add.commute)
  also have "\<dots> = bit (word_of_int (js_trunc v div 2 ^ k) :: byte) n"
    using n by (simp add: bit_word_of_int_iff drop_bit_eq_div)
  finally show "bit (shr_byte k v) n = bit (word_of_int (js_trunc v div 2 ^ k) :: byte) n" .
qed

end
