(* ===== verification/Event_Bus.thy ===== *)
theory Event_Bus
  imports Prelude
begin

section \<open>Logger and EventBus\<close>

text \<open>
  The static class \<open>Logger\<close> and the class \<open>EventBus\<close> of
  \<open>plugin/webtransport/web/flv-muxer.iife.js\<close>. The bus keeps a \<open>Map\<close> from event names to
  arrays of handlers. \<open>emit\<close> runs \<open>forEach\<close> over the array it found, and a handler may
  change that very array while it is being walked, so the arrays live in a store
  (\<open>arrays\<close>, indexed by reference) and the map holds references. Handlers are values of a
  parameter type \<open>'h\<close> that a \<open>call\<close> function interprets; the closure \<open>once\<close> makes is a
  value of its own, with the identity by which \<open>off\<close> finds it.
\<close>

subsection \<open>Logger\<close>

type_synonym log_level = string

record 'm logger =
  logLevel :: log_level
  printed :: "(log_level \<times> 'm) list"

fun indexOf :: "'a \<Rightarrow> 'a list \<Rightarrow> int" where
  "indexOf x [] = - 1"
| "indexOf x (y # ys) = (if x = y then 0 else if indexOf x ys = - 1 then - 1 else indexOf x ys + 1)"

definition new_logger :: "'m logger" where
  "new_logger = \<lparr>logLevel = ''debug'', printed = []\<rparr>"

definition setLogLevel :: "log_level \<Rightarrow> 'm logger \<Rightarrow> 'm logger" where
  "setLogLevel level l = l\<lparr>logLevel := level\<rparr>"

definition canLog :: "log_level \<Rightarrow> 'm logger \<Rightarrow> bool" where
  "canLog level l =
     (let levels = [''debug'', ''info'', ''warn'', ''error'']
      in indexOf level levels \<ge> indexOf (logLevel l) levels)"

definition printMessage :: "log_level \<Rightarrow> 'm \<Rightarrow> 'm logger \<Rightarrow> 'm logger" where
  "printMessage level message l = l\<lparr>printed := printed l @ [(level, message)]\<rparr>"

definition log_debug :: "'m \<Rightarrow> 'm logger \<Rightarrow> 'm logger" where
  "log_debug message l = (if canLog ''debug'' l then printMessage ''debug'' message l else l)"

definition log_info :: "'m \<Rightarrow> 'm logger \<Rightarrow> 'm logger" where
  "log_info message l = (if canLog ''info'' l then printMessage ''info'' message l else l)"

definition log_warn :: "'m \<Rightarrow> 'm logger \<Rightarrow> 'm logger" where
  "log_warn message l = (if canLog ''warn'' l then printMessage ''warn'' message l else l)"

definition log_error :: "'m \<Rightarrow> 'm logger \<Rightarrow> 'm logger" where
  "log_error message l = (if canLog ''error'' l then printMessage ''error'' message l else l)"

subsection \<open>The bus\<close>

datatype ('e, 'h) handler =
    Plain 'h
  | OnceHandler nat 'e 'h \<comment> \<open>closure identity, captured event name and handler\<close>

record ('e, 'h) bus =
  events :: "('e \<times> nat) list"
  arrays :: "nat \<Rightarrow> ('e, 'h) handler list"
  nextRef :: nat

definition new_EventBus :: "('e, 'h) bus" where
  "new_EventBus = \<lparr>events = [], arrays = (\<lambda>_. []), nextRef = 0\<rparr>"

definition bus_on :: "'e \<Rightarrow> ('e, 'h) handler \<Rightarrow> ('e, 'h) bus \<Rightarrow> ('e, 'h) bus" where
  "bus_on eventName h b =
     (let b = (if map_of (events b) eventName = None
               then b\<lparr>events := AList.update eventName (nextRef b) (events b),
                      arrays := (arrays b)(nextRef b := []), nextRef := Suc (nextRef b)\<rparr>
               else b)
      in case map_of (events b) eventName of
           None \<Rightarrow> b
         | Some r \<Rightarrow> b\<lparr>arrays := (arrays b)(r := arrays b r @ [h])\<rparr>)"

definition bus_off :: "'e \<Rightarrow> ('e, 'h) handler \<Rightarrow> ('e, 'h) bus \<Rightarrow> ('e, 'h) bus" where
  "bus_off eventName h b =
     (case map_of (events b) eventName of
        None \<Rightarrow> b
      | Some r \<Rightarrow>
          let handlers = remove1 h (arrays b r);
              b = b\<lparr>arrays := (arrays b)(r := handlers)\<rparr>
          in if handlers = [] then b\<lparr>events := AList.delete eventName (events b)\<rparr> else b)"

definition bus_once :: "'e \<Rightarrow> 'h \<Rightarrow> ('e, 'h) bus \<Rightarrow> ('e, 'h) bus" where
  "bus_once eventName h b =
     bus_on eventName (OnceHandler (nextRef b) eventName h) (b\<lparr>nextRef := Suc (nextRef b)\<rparr>)"

definition bus_clear :: "('e, 'h) bus \<Rightarrow> ('e, 'h) bus" where
  "bus_clear b = b\<lparr>events := []\<rparr>"

subsection \<open>emit\<close>

text \<open>
  The surroundings of the bus in a larger state: how to reach the bus, how to run a
  handler (its new state, and the exception if it threw), and what \<open>Logger.error\<close> does
  with a caught exception.
\<close>

record ('w, 'e, 'h, 'a, 'x) bus_env =
  getBus :: "'w \<Rightarrow> ('e, 'h) bus"
  updBus :: "(('e, 'h) bus \<Rightarrow> ('e, 'h) bus) \<Rightarrow> 'w \<Rightarrow> 'w"
  call :: "'h \<Rightarrow> 'a \<Rightarrow> 'w \<Rightarrow> 'w \<times> 'x option"
  logError :: "'e \<Rightarrow> 'x \<Rightarrow> 'w \<Rightarrow> 'w"

definition invoke ::
  "('w, 'e, 'h, 'a, 'x) bus_env \<Rightarrow> ('e, 'h) handler \<Rightarrow> 'a \<Rightarrow> 'w \<Rightarrow> 'w \<times> 'x option"
where
  "invoke env hr a w =
     (case hr of
        Plain h \<Rightarrow> call env h a w
      | OnceHandler i e h \<Rightarrow>
          (case call env h a w of
             (w, Some x) \<Rightarrow> (w, Some x)
           | (w, None) \<Rightarrow> (updBus env (bus_off e (OnceHandler i e h)) w, None)))"

text \<open>The body of the \<open>forEach\<close> callback: one handler under \<open>try\<close> and \<open>catch\<close>.\<close>

definition call_guarded ::
  "('w, 'e, 'h, 'a, 'x) bus_env \<Rightarrow> 'e \<Rightarrow> 'a \<Rightarrow> ('e, 'h) handler \<Rightarrow> 'w \<Rightarrow> 'w"
where
  "call_guarded env e a hr w =
     (case invoke env hr a w of (w, None) \<Rightarrow> w | (w, Some x) \<Rightarrow> logError env e x w)"

text \<open>
  \<open>forEach\<close> visits the indices below the length the array had at the start, and reads
  each element when it gets there; an index that has fallen off the end is not visited.
\<close>

fun forEach_from ::
  "('w, 'e, 'h, 'a, 'x) bus_env \<Rightarrow> 'e \<Rightarrow> nat \<Rightarrow> nat \<Rightarrow> nat \<Rightarrow> 'a \<Rightarrow> 'w \<Rightarrow> 'w"
where
  "forEach_from env e r k 0 a w = w"
| "forEach_from env e r k (Suc n) a w =
     (let handlers = arrays (getBus env w) r;
          w = (if k < length handlers then call_guarded env e a (handlers ! k) w else w)
      in forEach_from env e r (Suc k) n a w)"

definition bus_emit :: "('w, 'e, 'h, 'a, 'x) bus_env \<Rightarrow> 'e \<Rightarrow> 'a \<Rightarrow> 'w \<Rightarrow> 'w" where
  "bus_emit env eventName a w =
     (case map_of (events (getBus env w)) eventName of
        None \<Rightarrow> w
      | Some r \<Rightarrow> forEach_from env eventName r 0 (length (arrays (getBus env w) r)) a w)"

subsection \<open>Abstraction: the handlers of an event\<close>

definition handlers_of :: "('e, 'h) bus \<Rightarrow> 'e \<Rightarrow> ('e, 'h) handler list" where
  "handlers_of b e = (case map_of (events b) e of None \<Rightarrow> [] | Some r \<Rightarrow> arrays b r)"

text \<open>
  The invariant: references are allocated below \<open>nextRef\<close>, no two events share an array,
  event names are distinct, and an event that is present has at least one handler.
\<close>

definition bus_ok :: "('e, 'h) bus \<Rightarrow> bool" where
  "bus_ok b \<longleftrightarrow>
     distinct (map fst (events b)) \<and> distinct (map snd (events b)) \<and>
     (\<forall>(e, r) \<in> set (events b). r < nextRef b \<and> arrays b r \<noteq> [])"

lemma bus_ok_new [simp]: "bus_ok new_EventBus"
  by (simp add: bus_ok_def new_EventBus_def)

lemma handlers_of_new [simp]: "handlers_of new_EventBus e = []"
  by (simp add: handlers_of_def new_EventBus_def)

lemma map_of_Some_unique:
  "distinct (map snd xs) \<Longrightarrow> map_of xs e = Some r \<Longrightarrow> map_of xs e' = Some r \<Longrightarrow> e = e'"
  by (metis distinct_map inj_on_def map_of_SomeD prod.inject snd_conv)

lemma update_fresh: "map_of xs e = None \<Longrightarrow> AList.update e r xs = xs @ [(e, r)]"
  by (induction xs) (auto split: if_splits)

lemma handlers_of_on:
  assumes "bus_ok b"
  shows "handlers_of (bus_on e h b) e' = (if e' = e then handlers_of b e @ [h] else handlers_of b e')"
proof (cases "map_of (events b) e")
  case None
  have "r \<noteq> nextRef b" if "map_of (events b) e' = Some r" for r
    using assms map_of_SomeD [OF that] by (auto simp: bus_ok_def)
  then show ?thesis
    using None by (auto simp: handlers_of_def bus_on_def Let_def update_fresh map_add_def
        split: option.split)
next
  case (Some r)
  have "r' \<noteq> r" if "map_of (events b) e' = Some r'" "e' \<noteq> e" for r'
    using assms Some that map_of_Some_unique [of "events b" e r e'] by (auto simp: bus_ok_def)
  then show ?thesis
    using Some by (auto simp: handlers_of_def bus_on_def Let_def split: option.split)
qed

lemma bus_on_fresh:
  "map_of (events b) e = None \<Longrightarrow>
   bus_on e h b = b\<lparr>events := events b @ [(e, nextRef b)],
     arrays := (arrays b)(nextRef b := [h]), nextRef := Suc (nextRef b)\<rparr>"
  by (simp add: bus_on_def Let_def update_fresh map_add_def)

lemma bus_ok_on:
  assumes "bus_ok b"
  shows "bus_ok (bus_on e h b)"
proof (cases "map_of (events b) e")
  case None
  have e: "e \<notin> fst ` set (events b)" using None by (simp add: map_of_eq_None_iff)
  have r: "r < nextRef b" if "(e', r) \<in> set (events b)" for e' r
    using assms that by (auto simp: bus_ok_def)
  have "nextRef b \<notin> snd ` set (events b)" using r by fastforce
  moreover have "\<forall>(e', r) \<in> set (events b). r < Suc (nextRef b) \<and> r \<noteq> nextRef b \<and> arrays b r \<noteq> []"
    using assms r by (fastforce simp: bus_ok_def)
  ultimately show ?thesis
    using assms e by (auto simp: bus_ok_def bus_on_fresh [OF None])
next
  case (Some r)
  then show ?thesis using assms by (auto simp: bus_ok_def bus_on_def Let_def)
qed

lemma handlers_of_off:
  assumes "bus_ok b"
  shows "handlers_of (bus_off e h b) e'
    = (if e' = e then remove1 h (handlers_of b e) else handlers_of b e')"
proof (cases "map_of (events b) e")
  case None
  then show ?thesis by (simp add: handlers_of_def bus_off_def)
next
  case (Some r)
  have "r' \<noteq> r" if "map_of (events b) e' = Some r'" "e' \<noteq> e" for r'
    using assms Some that map_of_Some_unique [of "events b" e r e'] by (auto simp: bus_ok_def)
  then show ?thesis
    using Some by (auto simp: handlers_of_def bus_off_def Let_def delete_conv split: option.split)
qed

lemma bus_ok_off:
  assumes "bus_ok b"
  shows "bus_ok (bus_off e h b)"
proof (cases "map_of (events b) e")
  case None
  then show ?thesis using assms by (simp add: bus_off_def)
next
  case (Some r)
  have o: "r' \<noteq> r" if "(e', r') \<in> set (events b)" "e' \<noteq> e" for e' r'
    using assms Some that map_of_Some_unique [of "events b" e r e']
    by (auto simp: bus_ok_def map_of_is_SomeI)
  show ?thesis
  proof (cases "remove1 h (arrays b r) = []")
    case True
    have sub: "AList.delete e (events b) = filter (\<lambda>p. e \<noteq> fst p) (events b)"
      by (simp add: AList.delete_eq case_prod_beta')
    have "distinct (map fst (AList.delete e (events b)))"
      "distinct (map snd (AList.delete e (events b)))"
      using assms by (auto simp: bus_ok_def sub distinct_map_filter)
    then show ?thesis
      using True Some assms o by (auto simp: bus_ok_def bus_off_def Let_def sub split_beta)
  next
    case False
    then show ?thesis using Some assms by (auto simp: bus_ok_def bus_off_def Let_def)
  qed
qed

lemma bus_ok_bump: "bus_ok b \<Longrightarrow> bus_ok (b\<lparr>nextRef := Suc (nextRef b)\<rparr>)"
  by (fastforce simp: bus_ok_def)

lemma handlers_of_bump [simp]: "handlers_of (b\<lparr>nextRef := n\<rparr>) = handlers_of b"
  by (rule ext) (simp add: handlers_of_def split: option.split)

lemma bus_ok_clear: "bus_ok (bus_clear b)"
  by (simp add: bus_ok_def bus_clear_def)

lemma handlers_of_clear [simp]: "handlers_of (bus_clear b) e = []"
  by (simp add: handlers_of_def bus_clear_def)

lemma bus_ok_once: "bus_ok b \<Longrightarrow> bus_ok (bus_once e h b)"
  by (simp add: bus_once_def bus_ok_on bus_ok_bump)

lemma handlers_of_once:
  "bus_ok b \<Longrightarrow> handlers_of (bus_once e h b) e'
    = (if e' = e then handlers_of b e @ [OnceHandler (nextRef b) e h] else handlers_of b e')"
  by (simp add: bus_once_def handlers_of_on bus_ok_bump)

subsection \<open>The contract of a subscription table\<close>

text \<open>
  What a component that subscribes and unsubscribes relies on: the handlers of an event
  after each call, as a list in registration order.
\<close>

locale subscription_table =
  fixes sub :: "'e \<Rightarrow> 'h \<Rightarrow> 's \<Rightarrow> 's"
    and unsub :: "'e \<Rightarrow> 'h \<Rightarrow> 's \<Rightarrow> 's"
    and subscribers :: "'s \<Rightarrow> 'e \<Rightarrow> 'h list"
    and valid :: "'s \<Rightarrow> bool"
  assumes valid_sub: "valid s \<Longrightarrow> valid (sub e h s)"
    and valid_unsub: "valid s \<Longrightarrow> valid (unsub e h s)"
    and sub_spec: "valid s \<Longrightarrow>
      subscribers (sub e h s) e' = (if e' = e then subscribers s e @ [h] else subscribers s e')"
    and unsub_spec: "valid s \<Longrightarrow>
      subscribers (unsub e h s) e' = (if e' = e then remove1 h (subscribers s e) else subscribers s e')"
begin

lemma unsub_sub:
  "valid s \<Longrightarrow> h \<notin> set (subscribers s e) \<Longrightarrow>
   subscribers (unsub e h (sub e h s)) e' = subscribers s e'"
  by (simp add: unsub_spec sub_spec valid_sub remove1_append)

lemma sub_twice:
  "valid s \<Longrightarrow> subscribers (sub e h (sub e h s)) e = subscribers s e @ [h, h]"
  by (simp add: sub_spec valid_sub)

lemma fold_sub:
  "valid s \<Longrightarrow> valid (fold (sub e) hs s) \<and> subscribers (fold (sub e) hs s) e = subscribers s e @ hs"
  by (induction hs arbitrary: s) (auto simp: sub_spec valid_sub)

end

interpretation bus_table: subscription_table bus_on bus_off handlers_of bus_ok
  by unfold_locales (simp_all add: bus_ok_on bus_ok_off handlers_of_on handlers_of_off)

subsection \<open>What emit does\<close>

lemma forEach_from_add:
  "forEach_from env e r k (m + n) a w = forEach_from env e r (k + m) n a (forEach_from env e r k m a w)"
  by (induction m arbitrary: k w) (simp_all add: Let_def)

text \<open>A handler that leaves the bus as it is, whatever else it does.\<close>

definition quiet :: "('w, 'e, 'h, 'a, 'x) bus_env \<Rightarrow> 'e \<Rightarrow> 'a \<Rightarrow> ('e, 'h) handler \<Rightarrow> bool" where
  "quiet env e a hr \<longleftrightarrow> (\<forall>w. getBus env (call_guarded env e a hr w) = getBus env w)"

lemma fold_quiet_bus:
  "\<forall>h \<in> set hs. quiet env e a h \<Longrightarrow> getBus env (fold (call_guarded env e a) hs w) = getBus env w"
  by (induction hs arbitrary: w) (auto simp: quiet_def)

lemma forEach_quiet:
  assumes "\<forall>h \<in> set hs. quiet env e a h" "arrays (getBus env w) r = pre @ hs @ post"
  shows "forEach_from env e r (length pre) (length hs) a w = fold (call_guarded env e a) hs w"
  using assms
proof (induction hs arbitrary: pre w)
  case Nil
  then show ?case by simp
next
  case (Cons h hs)
  let ?w = "call_guarded env e a h w"
  have "arrays (getBus env ?w) r = (pre @ [h]) @ hs @ post"
    using Cons.prems by (simp add: quiet_def)
  from Cons.IH [OF _ this] Cons.prems show ?case
    by (simp add: Let_def)
qed

lemma emit_quiet:
  assumes "\<forall>h \<in> set (handlers_of (getBus env w) e). quiet env e a h"
  shows "bus_emit env e a w = fold (call_guarded env e a) (handlers_of (getBus env w) e) w"
  using assms forEach_quiet [of "handlers_of (getBus env w) e" env e a w _ "[]" "[]"]
  by (auto simp: bus_emit_def handlers_of_def split: option.split)

lemma emit_once_middle:
  assumes ok: "bus_ok (getBus env w)"
    and upd: "\<And>f w. getBus env (updBus env f w) = f (getBus env w)"
    and hs: "handlers_of (getBus env w) e = xs @ OnceHandler i e f # g # ys"
    and fresh: "OnceHandler i e f \<notin> set xs"
    and quiet: "\<forall>h \<in> set (xs @ ys). quiet env e a h"
    and f: "\<And>w. snd (call env f a w) = None" "\<And>w. getBus env (fst (call env f a w)) = getBus env w"
  shows "bus_emit env e a w = fold (call_guarded env e a) ys
    (updBus env (bus_off e (OnceHandler i e f)) (fst (call env f a (fold (call_guarded env e a) xs w))))"
proof -
  let ?o = "OnceHandler i e f" and ?G = "call_guarded env e a"
  obtain r where r: "map_of (events (getBus env w)) e = Some r"
    and arr: "arrays (getBus env w) r = xs @ ?o # g # ys"
    using hs by (cases "map_of (events (getBus env w)) e") (simp_all add: handlers_of_def)
  define w1 where "w1 = fold ?G xs w"
  define w2 where "w2 = updBus env (bus_off e ?o) (fst (call env f a w1))"
  have b1: "getBus env w1 = getBus env w"
    unfolding w1_def by (rule fold_quiet_bus) (use quiet in simp)
  have s1: "forEach_from env e r 0 (length xs) a w = w1"
    using forEach_quiet [of xs env e a w r "[]" "?o # g # ys"] quiet arr by (simp add: w1_def)
  have g2: "?G ?o w1 = w2"
    using f(1) [of w1] by (auto simp: call_guarded_def invoke_def w2_def split: prod.split)
  have s2: "forEach_from env e r (length xs) 1 a w1 = w2"
    using arr b1 g2 by (simp add: Let_def)
  have "getBus env w2 = bus_off e ?o (getBus env w)"
    by (simp add: w2_def upd f(2) b1)
  then have a2: "arrays (getBus env w2) r = (xs @ [g]) @ ys @ []"
    using r arr fresh by (simp add: bus_off_def Let_def remove1_append)
  have s3: "forEach_from env e r (length (xs @ [g])) (length ys) a w2 = fold ?G ys w2"
    by (rule forEach_quiet [OF _ a2]) (use quiet in simp)
  have "getBus env (fold ?G ys w2) = getBus env w2"
    by (rule fold_quiet_bus) (use quiet in simp)
  then have s4: "forEach_from env e r (length (xs @ [g]) + length ys) 1 a (fold ?G ys w2) = fold ?G ys w2"
    using a2 by (simp add: Let_def)
  have "bus_emit env e a w
      = forEach_from env e r 0 (length xs + (1 + (length ys + 1))) a w"
    using r arr by (simp add: bus_emit_def)
  also have "\<dots> = fold ?G ys w2"
    by (simp only: forEach_from_add add_0 s1 s2) (use s3 s4 in simp)
  finally show ?thesis by (simp add: w1_def w2_def)
qed

subsection \<open>Properties\<close>

text \<open>
  What each operation of the bus does to the handlers of every event, and that it keeps
  the representation well formed: \<open>on\<close> appends, \<open>off\<close> removes the first occurrence
  of exactly that handler, \<open>once\<close> appends a closure with an identity of its own,
  \<open>clear\<close> forgets everything; in each case the other events keep their handlers although
  the arrays are shared mutable objects, and no event is left with an empty array.
\<close>

theorem bus_operations_spec:
  assumes "bus_ok b"
  shows "bus_ok (bus_on e h b) \<and> bus_ok (bus_off e h b) \<and> bus_ok (bus_once e k b) \<and>
    bus_ok (bus_clear b) \<and>
    handlers_of (bus_on e h b) = (handlers_of b)(e := handlers_of b e @ [h]) \<and>
    handlers_of (bus_off e h b) = (handlers_of b)(e := remove1 h (handlers_of b e)) \<and>
    handlers_of (bus_once e k b)
      = (handlers_of b)(e := handlers_of b e @ [OnceHandler (nextRef b) e k]) \<and>
    handlers_of (bus_clear b) = (\<lambda>_. [])"
  using assms by (simp add: fun_eq_iff bus_ok_on bus_ok_off bus_ok_once bus_ok_clear handlers_of_on
      handlers_of_off handlers_of_once)

theorem bus_operations_spec_witness:
  "handlers_of (bus_off ''b'' (Plain (2 :: nat)) (bus_on ''b'' (Plain 2) (bus_on ''a'' (Plain 1)
     new_EventBus))) ''b'' = []"
  using bus_operations_spec [of "bus_on ''b'' (Plain (2 :: nat)) (bus_on ''a'' (Plain 1) new_EventBus)"
      "''b''" "Plain 2" 0]
  by (simp add: bus_ok_on handlers_of_on)

text \<open>
  \<open>emit\<close> calls every handler of the event, in the order of registration, each with the
  emitted arguments, and a handler that throws does not keep the later ones from running: its
  exception is handed to \<open>Logger.error\<close> and the next handler runs in the resulting
  state. This holds for handlers that do not change the bus themselves (the next property
  shows what happens otherwise).
\<close>

theorem emit_runs_all_handlers:
  assumes "\<forall>h \<in> set (handlers_of (getBus env w) e). quiet env e a h"
  shows "bus_emit env e a w =
    fold (\<lambda>h w. case invoke env h a w of (w', None) \<Rightarrow> w' | (w', Some x) \<Rightarrow> logError env e x w')
      (handlers_of (getBus env w) e) w"
  using emit_quiet [OF assms] by (simp add: call_guarded_def [abs_def])

definition demo_env :: "((string, nat) bus \<times> nat list, string, nat, nat, nat) bus_env" where
  "demo_env = \<lparr>getBus = fst, updBus = (\<lambda>f (b, l). (f b, l)),
     call = (\<lambda>h a (b, l). if h = 0 then ((b, l), Some 404) else ((b, l @ [h * a]), None)),
     logError = (\<lambda>e x (b, l). (b, l @ [x]))\<rparr>"

lemma demo_quiet: "quiet demo_env e a (Plain h)"
  by (simp add: quiet_def call_guarded_def invoke_def demo_env_def split: prod.split)

theorem emit_runs_all_handlers_witness:
  "snd (bus_emit demo_env ''x'' 10
     (fold (bus_on ''x'') [Plain 1, Plain 0, Plain 2] new_EventBus, [])) = [10, 404, 20]"
proof -
  let ?w = "(fold (bus_on ''x'') [Plain 1, Plain 0, Plain 2] new_EventBus, [])"
  have h: "handlers_of (getBus demo_env ?w) ''x'' = [Plain 1, Plain 0, Plain 2]"
    using bus_table.fold_sub [OF bus_ok_new, of "''x''" "[Plain 1, Plain 0, Plain (2 :: nat)]"]
    by (simp add: demo_env_def)
  show ?thesis
    using emit_runs_all_handlers [of demo_env ?w "''x''" 10] unfolding h
    by (simp add: demo_quiet) (simp add: demo_env_def invoke_def)
qed

text \<open>
  A handler registered with \<open>once\<close> makes \<open>emit\<close> skip the handler registered right
  after it: the closure removes itself from the array \<open>forEach\<close> is walking, the next
  handler moves into its place, and the walk goes on one index further. Everything before it
  and everything after the skipped handler does run.
\<close>

theorem once_skips_next_handler:
  assumes "bus_ok (getBus env w)"
    and "\<And>f w. getBus env (updBus env f w) = f (getBus env w)"
    and "handlers_of (getBus env w) e = xs @ OnceHandler i e f # skipped # ys"
    and "OnceHandler i e f \<notin> set xs"
    and "\<forall>h \<in> set (xs @ ys). quiet env e a h"
    and "\<And>w. snd (call env f a w) = None" "\<And>w. getBus env (fst (call env f a w)) = getBus env w"
  shows "bus_emit env e a w = fold (call_guarded env e a) ys
    (updBus env (bus_off e (OnceHandler i e f)) (fst (call env f a (fold (call_guarded env e a) xs w))))"
  by (rule emit_once_middle [OF assms])

definition once_env :: "((string, nat) bus \<times> nat list, string, nat, nat, nat) bus_env" where
  "once_env = demo_env\<lparr>call := (\<lambda>h a (b, l). ((b, l @ [h * a]), None))\<rparr>"

theorem once_skips_next_handler_witness:
  "snd (bus_emit once_env ''x'' 10
     (fold (bus_on ''x'') [Plain 1, OnceHandler 0 ''x'' 2, Plain 3, Plain 4] new_EventBus, []))
   = [10, 20, 40]"
proof -
  let ?hs = "[Plain 1, OnceHandler 0 ''x'' 2, Plain 3, Plain (4 :: nat)]"
  let ?w = "(fold (bus_on ''x'') ?hs new_EventBus, [])"
  have b: "bus_ok (getBus once_env ?w)"
    and h: "handlers_of (getBus once_env ?w) ''x'' = [Plain 1] @ OnceHandler 0 ''x'' 2 # Plain 3 # [Plain 4]"
    using bus_table.fold_sub [OF bus_ok_new, of "''x''" ?hs] by (simp_all add: once_env_def demo_env_def)
  have q: "quiet once_env ''x'' 10 (Plain h)" for h
    by (simp add: quiet_def call_guarded_def invoke_def once_env_def demo_env_def split: prod.split)
  show ?thesis
    by (subst once_skips_next_handler [OF b _ h])
      (simp_all add: q, simp_all add: once_env_def demo_env_def call_guarded_def invoke_def split_beta)
qed

end
