(* ===== verification/Encoder_Track.thy ===== *)
theory Encoder_Track
  imports Js_Number Event_Bus
begin

section \<open>TrackState and the encoder tracks\<close>

text \<open>
  The classes \<open>TrackState\<close>, \<open>BaseEncoderTrack\<close>, \<open>VideoEncoderTrack\<close> and
  \<open>AudioEncoderTrack\<close> of \<open>plugin/webtransport/web/flv-muxer.iife.js\<close>. A track wraps one
  WebCodecs encoder, queues encoded chunks and stamps them relative to the offset that all
  tracks share. The encoder is the browser's: what it is asked to do is recorded as a list of
  calls, what it answers (a refused call, an encoded chunk with its metadata, a copy that
  throws) is an argument of the operation that receives it. JavaScript numbers are exact
  rationals with the IEEE rounding of \<open>Js_Number\<close> where the code computes with fractions;
  counters stay below \<open>2 ^ 53\<close>.
\<close>

subsection \<open>Data\<close>

datatype chunk_type = AAC_SE | AVC_SE | AAC_RAW | AVC_NALU

record chunk =
  chunkType :: chunk_type
  chunkData :: bytes
  timestamp :: rat
  isKey :: bool

datatype track_kind = AudioTrack | VideoTrack

datatype recording_state = Inactive | Recording | Paused

type_synonym js_error = string

type_synonym frame = nat

datatype 'cfg encoder_call =
    Configure 'cfg
  | EncodeAudio frame
  | EncodeVideo frame bool \<comment> \<open>with the option \<open>keyFrame\<close>\<close>
  | FlushEncoder
  | CloseEncoder

record track_state =
  offsetTimestamp :: rat

record 'cfg track =
  kind :: track_kind
  config :: 'cfg
  queue :: "chunk list"
  encoder :: "'cfg encoder_call list option"
  lastTimestamp :: rat
  decoderConfig :: "bytes option"
  frameCount :: nat
  keyframeInterval :: "rat option"

text \<open>
  What the encoder's \<open>output\<close> callback receives: the chunk's timestamp in microseconds, its
  type and the bytes \<open>copyTo\<close> delivers (or that it throws).
\<close>

record encoded_chunk =
  ecTimestamp :: rat
  ecKey :: bool
  ecCopy :: "js_error + bytes"

definition new_TrackState :: track_state where
  "new_TrackState = \<lparr>offsetTimestamp = 0\<rparr>"

subsection \<open>Construction\<close>

definition initEncoder :: "('cfg \<Rightarrow> js_error option) \<Rightarrow> 'cfg \<Rightarrow> 'cfg track \<Rightarrow> js_error + 'cfg track" where
  "initEncoder configure cfg t =
     (case configure cfg of
        Some e \<Rightarrow> Inl e
      | None \<Rightarrow> Inr (t\<lparr>encoder := Some [Configure cfg]\<rparr>))"

definition new_BaseEncoderTrack ::
  "track_kind \<Rightarrow> ('cfg \<Rightarrow> js_error option) \<Rightarrow> 'cfg \<Rightarrow> js_error + 'cfg track"
where
  "new_BaseEncoderTrack k configure cfg =
     initEncoder configure cfg
       \<lparr>kind = k, config = cfg, queue = [], encoder = None, lastTimestamp = 0,
        decoderConfig = None, frameCount = 0, keyframeInterval = Some 90\<rparr>"

definition new_AudioEncoderTrack :: "('cfg \<Rightarrow> js_error option) \<Rightarrow> 'cfg \<Rightarrow> js_error + 'cfg track" where
  "new_AudioEncoderTrack configure cfg = new_BaseEncoderTrack AudioTrack configure cfg"

text \<open>The constructor overwrites the default 90 with its argument, \<open>undefined\<close> included.\<close>

definition new_VideoEncoderTrack ::
  "('cfg \<Rightarrow> js_error option) \<Rightarrow> 'cfg \<Rightarrow> rat option \<Rightarrow> js_error + 'cfg track"
where
  "new_VideoEncoderTrack configure cfg interval =
     map_sum id (\<lambda>t. t\<lparr>keyframeInterval := interval\<rparr>) (new_BaseEncoderTrack VideoTrack configure cfg)"

subsection \<open>The queue\<close>

definition enqueue :: "chunk \<Rightarrow> 'cfg track \<Rightarrow> 'cfg track" where
  "enqueue c t = t\<lparr>queue := queue t @ [c]\<rparr>"

definition dequeue :: "'cfg track \<Rightarrow> chunk option \<times> 'cfg track" where
  "dequeue t = (case queue t of [] \<Rightarrow> (None, t) | c # cs \<Rightarrow> (Some c, t\<lparr>queue := cs\<rparr>))"

definition peek :: "'cfg track \<Rightarrow> chunk option" where
  "peek t = (case queue t of [] \<Rightarrow> None | c # cs \<Rightarrow> Some c)"

definition isEmpty :: "'cfg track \<Rightarrow> bool" where
  "isEmpty t \<longleftrightarrow> length (queue t) = 0"

definition track_length :: "'cfg track \<Rightarrow> nat" where
  "track_length t = length (queue t)"

subsection \<open>Life cycle of the encoder\<close>

definition close_track :: "recording_state \<Rightarrow> 'cfg track \<Rightarrow> js_error + 'cfg track" where
  "close_track state t =
     (if state \<noteq> Recording then Inl ''Cannot stop track as it is not currently recording.''
      else case encoder t of
             None \<Rightarrow> Inl ''Encoder is not initialized.''
           | Some calls \<Rightarrow> Inr (t\<lparr>encoder := Some (calls @ [CloseEncoder])\<rparr>))"

definition flush_track :: "'cfg track \<Rightarrow> js_error + 'cfg track" where
  "flush_track t =
     (case encoder t of
        None \<Rightarrow> Inl ''Encoder is not initialized.''
      | Some calls \<Rightarrow> Inr (t\<lparr>encoder := Some (calls @ [FlushEncoder])\<rparr>))"

text \<open>\<open>reset\<close> of the base class, and the override of the video track.\<close>

definition base_reset :: "'cfg track \<Rightarrow> track_state \<Rightarrow> 'cfg track \<times> track_state" where
  "base_reset t s =
     (t\<lparr>decoderConfig := None\<rparr>,
      if offsetTimestamp s \<noteq> 0 then s\<lparr>offsetTimestamp := 0\<rparr> else s)"

definition reset_track :: "'cfg track \<Rightarrow> track_state \<Rightarrow> 'cfg track \<times> track_state" where
  "reset_track t s =
     (case kind t of
        AudioTrack \<Rightarrow> base_reset t s
      | VideoTrack \<Rightarrow> (let (t, s) = base_reset t s in (t\<lparr>frameCount := 0\<rparr>, s)))"

text \<open>The remainder \<open>%\<close> of two numbers; None is NaN.\<close>

definition js_rem :: "rat \<Rightarrow> rat \<Rightarrow> rat option" where
  "js_rem x y = (if y = 0 then None else Some (x - y * of_int (js_trunc (x / y))))"

definition wants_key_frame :: "'cfg track \<Rightarrow> bool" where
  "wants_key_frame t \<longleftrightarrow>
     (case keyframeInterval t of
        None \<Rightarrow> False
      | Some n \<Rightarrow> js_rem (of_nat (frameCount t)) n = Some 0)"

text \<open>
  \<open>addTrackChunk\<close> of the two classes. \<open>refused\<close> is the exception of \<open>encoder.encode\<close>,
  if it throws. The result is the track, the frames that were closed and the exception that
  leaves the method.
\<close>

definition video_addTrackChunk ::
  "recording_state \<Rightarrow> js_error option \<Rightarrow> frame \<Rightarrow> 'cfg track \<Rightarrow> 'cfg track \<times> frame list \<times> js_error option"
where
  "video_addTrackChunk state refused frame t =
     (if state \<noteq> Recording then (t, [frame], None)
      else case encoder t of
             None \<Rightarrow> (t, [], Some ''Encoder is not initialized.'')
           | Some calls \<Rightarrow>
               (case refused of
                  Some e \<Rightarrow> (t, [], Some e)
                | None \<Rightarrow>
                    (t\<lparr>encoder := Some (calls @ [EncodeVideo frame (wants_key_frame t)]),
                       frameCount := frameCount t + 1\<rparr>, [frame], None)))"

definition audio_addTrackChunk ::
  "recording_state \<Rightarrow> js_error option \<Rightarrow> frame \<Rightarrow> 'cfg track \<Rightarrow> 'cfg track \<times> frame list \<times> js_error option"
where
  "audio_addTrackChunk state refused frame t =
     (if state \<noteq> Recording then (t, [frame], None)
      else case encoder t of
             None \<Rightarrow> (t, [], Some ''Encoder is not initialized.'')
           | Some calls \<Rightarrow>
               (case refused of
                  Some e \<Rightarrow> (t, [], Some e)
                | None \<Rightarrow> (t\<lparr>encoder := Some (calls @ [EncodeAudio frame])\<rparr>, [frame], None)))"

subsection \<open>Time stamps and the output callback\<close>

definition calculateTimestamp :: "rat \<Rightarrow> track_state \<Rightarrow> rat \<times> track_state" where
  "calculateTimestamp ts s =
     (let s = (if offsetTimestamp s = 0 then s\<lparr>offsetTimestamp := ts\<rparr> else s)
      in (max 0 (f64_round (f64_round (ts - offsetTimestamp s) / 1000)), s))"

text \<open>
  The surroundings of a track \<open>this\<close> in a larger state: the track object, the shared
  \<open>TrackState\<close>, \<open>eventBus.emit("TRACK_CHUNK", _)\<close> and \<open>Logger.error\<close>.
\<close>

record ('w, 'cfg) track_env =
  getTrack :: "'w \<Rightarrow> 'cfg track"
  updTrack :: "('cfg track \<Rightarrow> 'cfg track) \<Rightarrow> 'w \<Rightarrow> 'w"
  getTrackState :: "'w \<Rightarrow> track_state"
  updTrackState :: "(track_state \<Rightarrow> track_state) \<Rightarrow> 'w \<Rightarrow> 'w"
  emitTrackChunk :: "chunk \<Rightarrow> 'w \<Rightarrow> 'w"
  trackLogError :: "js_error \<Rightarrow> 'w \<Rightarrow> 'w"

definition se_chunk :: "track_kind \<Rightarrow> bytes \<Rightarrow> chunk" where
  "se_chunk k description =
     (case k of
        AudioTrack \<Rightarrow> \<lparr>chunkType = AAC_SE, chunkData = description, timestamp = 0, isKey = True\<rparr>
      | VideoTrack \<Rightarrow> \<lparr>chunkType = AVC_SE, chunkData = description, timestamp = 0, isKey = True\<rparr>)"

definition set_decoderConfig :: "('w, 'cfg) track_env \<Rightarrow> bytes \<Rightarrow> 'w \<Rightarrow> 'w" where
  "set_decoderConfig env description w =
     (if decoderConfig (getTrack env w) \<noteq> None then w
      else let w = updTrack env (\<lambda>t. t\<lparr>decoderConfig := Some description\<rparr>) w
           in emitTrackChunk env (se_chunk (kind (getTrack env w)) description) w)"

definition media_type :: "track_kind \<Rightarrow> chunk_type" where
  "media_type k = (case k of AudioTrack \<Rightarrow> AAC_RAW | VideoTrack \<Rightarrow> AVC_NALU)"

definition handleOutput ::
  "('w, 'cfg) track_env \<Rightarrow> encoded_chunk \<Rightarrow> bytes option \<Rightarrow> 'w \<Rightarrow> 'w"
where
  "handleOutput env ec description w =
     (let w = (case description of None \<Rightarrow> w | Some d \<Rightarrow> set_decoderConfig env d w)
      in case ecCopy ec of
           Inl e \<Rightarrow> trackLogError env e w
         | Inr data \<Rightarrow>
             (let (ts, s) = calculateTimestamp (ecTimestamp ec) (getTrackState env w);
                  w = updTrackState env (\<lambda>_. s) w;
                  w = emitTrackChunk env
                        \<lparr>chunkType = media_type (kind (getTrack env w)), chunkData = data,
                         timestamp = ts, isKey = ecKey ec\<rparr> w
              in updTrack env (\<lambda>t. t\<lparr>lastTimestamp := ts\<rparr>) w))"

subsection \<open>The contract of a first-in-first-out queue\<close>

text \<open>
  What the interleaving relies on: the queue as a list. The lemma on draining is about any
  loop that publishes from the front while a test holds.
\<close>

locale fifo =
  fixes push :: "'c \<Rightarrow> 'q \<Rightarrow> 'q"
    and pop :: "'q \<Rightarrow> 'c option \<times> 'q"
    and front :: "'q \<Rightarrow> 'c option"
    and is_empty :: "'q \<Rightarrow> bool"
    and items :: "'q \<Rightarrow> 'c list"
  assumes items_push: "items (push c q) = items q @ [c]"
    and items_pop: "items (snd (pop q)) = tl (items q)"
    and pop_front: "fst (pop q) = front q"
    and front_items: "front q = (case items q of [] \<Rightarrow> None | c # cs \<Rightarrow> Some c)"
    and empty_items: "is_empty q \<longleftrightarrow> items q = []"
begin

lemma pop_push: "is_empty q \<Longrightarrow> fst (pop (push c q)) = Some c \<and> is_empty (snd (pop (push c q)))"
  by (simp add: items_push items_pop pop_front front_items empty_items)

lemma items_fold_push: "items (fold push cs q) = items q @ cs"
  by (induction cs arbitrary: q) (simp_all add: items_push)

lemma pop_cases:
  obtains "is_empty q" "items q = []"
  | c where "\<not> is_empty q" "fst (pop q) = Some c" "front q = Some c" "items q = c # items (snd (pop q))"
  using items_pop [of q] by (cases "items q") (auto simp: pop_front front_items empty_items)

lemma drain_spec:
  assumes d: "\<And>q. d q = (if \<not> is_empty q \<and> P (the (front q))
      then (let (q'', cs) = d (snd (pop q)) in (q'', the (fst (pop q)) # cs)) else (q, []))"
  shows "snd (d q) = takeWhile P (items q) \<and> items (fst (d q)) = dropWhile P (items q)"
proof (induction "length (items q)" arbitrary: q)
  case 0
  then show ?case by (subst (1 2) d) (simp add: empty_items)
next
  case (Suc n)
  show ?case
  proof (cases rule: pop_cases [of q])
    case 1
    then show ?thesis using Suc.hyps by simp
  next
    case (2 c)
    then have "n = length (items (snd (pop q)))" using Suc.hyps(2) by simp
    then show ?thesis
      using 2 Suc.hyps(1) by (subst (1 2) d) (simp add: split_beta)
  qed
qed

end

interpretation chunk_queue: fifo enqueue dequeue peek isEmpty queue
  by unfold_locales
    (auto simp: enqueue_def dequeue_def peek_def isEmpty_def split: list.splits)

lemma dequeue_fields [simp]:
  "kind (snd (dequeue t)) = kind t" "lastTimestamp (snd (dequeue t)) = lastTimestamp t"
  "decoderConfig (snd (dequeue t)) = decoderConfig t" "encoder (snd (dequeue t)) = encoder t"
  by (simp_all add: dequeue_def split: list.split)

lemma enqueue_fields [simp]:
  "kind (enqueue c t) = kind t" "lastTimestamp (enqueue c t) = lastTimestamp t"
  "decoderConfig (enqueue c t) = decoderConfig t" "encoder (enqueue c t) = encoder t"
  by (simp_all add: enqueue_def)

subsection \<open>The contract between a track and its surroundings\<close>

text \<open>
  The callback only emits media chunks, and configuration chunks stamped 0. Whatever the
  single steps of the surroundings keep, the output callback keeps; and the
  callback in one surrounding refines the callback in another when each single step does.
\<close>

definition stamped :: "chunk \<Rightarrow> bool" where
  "stamped c \<longleftrightarrow> chunkType c \<in> {AAC_RAW, AVC_NALU} \<or> timestamp c = 0"

lemma handleOutput_keeps:
  assumes "\<And>f w. Q w \<Longrightarrow> (\<And>t. queue (f t) = queue t) \<Longrightarrow> Q (updTrack env f w)"
    and "\<And>f w. Q w \<Longrightarrow> Q (updTrackState env f w)"
    and "\<And>c w. Q w \<Longrightarrow> stamped c \<Longrightarrow> Q (emitTrackChunk env c w)" "\<And>e w. Q w \<Longrightarrow> Q (trackLogError env e w)"
    and "Q w"
  shows "Q (handleOutput env ec desc w)"
proof -
  have "stamped (se_chunk k d)" for k d by (simp add: stamped_def se_chunk_def split: track_kind.split)
  moreover have "stamped c" if "chunkType c = media_type k" for c k
    using that by (simp add: stamped_def media_type_def split: track_kind.splits)
  ultimately show ?thesis
    using assms by (simp add: handleOutput_def set_decoderConfig_def Let_def split_beta
        split: option.split sum.split)
qed

text \<open>
  The callback looks at the kind and the configuration of its track and sets the configuration and the
  last time stamp. Surroundings related by \<open>R\<close> in these stay related by it.
\<close>

locale track_simulation =
  fixes conc :: "('w, 'cfg) track_env" and spec :: "('v, 'cfg) track_env"
    and R :: "'w \<Rightarrow> 'v \<Rightarrow> bool"
  assumes kind_sim: "R w v \<Longrightarrow> kind (getTrack spec v) = kind (getTrack conc w)"
    and config_sim: "R w v \<Longrightarrow> decoderConfig (getTrack spec v) = decoderConfig (getTrack conc w)"
    and state_sim: "R w v \<Longrightarrow> getTrackState spec v = getTrackState conc w"
    and set_config_sim: "R w v \<Longrightarrow> R (updTrack conc (\<lambda>t. t\<lparr>decoderConfig := d\<rparr>) w) (updTrack spec (\<lambda>t. t\<lparr>decoderConfig := d\<rparr>) v)"
    and set_time_sim: "R w v \<Longrightarrow> R (updTrack conc (\<lambda>t. t\<lparr>lastTimestamp := ts\<rparr>) w) (updTrack spec (\<lambda>t. t\<lparr>lastTimestamp := ts\<rparr>) v)"
    and set_state_sim: "R w v \<Longrightarrow> R (updTrackState conc g w) (updTrackState spec g v)"
    and emit_sim: "R w v \<Longrightarrow> R (emitTrackChunk conc c w) (emitTrackChunk spec c v)"
    and log_sim: "R w v \<Longrightarrow> R (trackLogError conc e w) (trackLogError spec e v)"
begin

lemma set_decoderConfig_sim: "R w v \<Longrightarrow> R (set_decoderConfig conc d w) (set_decoderConfig spec d v)"
  by (simp add: set_decoderConfig_def Let_def config_sim kind_sim [OF set_config_sim] emit_sim set_config_sim)

lemma handleOutput_sim:
  assumes "R w v"
  shows "R (handleOutput conc ec desc w) (handleOutput spec ec desc v)"
proof -
  define w1 v1 where "w1 = (case desc of None \<Rightarrow> w | Some d \<Rightarrow> set_decoderConfig conc d w)"
    and "v1 = (case desc of None \<Rightarrow> v | Some d \<Rightarrow> set_decoderConfig spec d v)"
  have r1: "R w1 v1" using assms set_decoderConfig_sim by (simp add: w1_def v1_def split: option.split)
  define ts ss where "ts = fst (calculateTimestamp (ecTimestamp ec) (getTrackState conc w1))"
    and "ss = snd (calculateTimestamp (ecTimestamp ec) (getTrackState conc w1))"
  have "R (updTrackState conc (\<lambda>_. ss) w1) (updTrackState spec (\<lambda>_. ss) v1)" by (rule set_state_sim [OF r1])
  then show ?thesis
    using r1 by (auto simp: handleOutput_def Let_def split_beta state_sim kind_sim log_sim
        simp flip: w1_def v1_def ts_def ss_def intro!: set_time_sim emit_sim split: sum.split)
qed

end

locale track_refinement =
  fixes conc :: "('w, 'cfg) track_env" and spec :: "('v, 'cfg) track_env"
    and abs :: "'w \<Rightarrow> 'v" and ok :: "'w \<Rightarrow> bool"
  assumes track_abs: "ok w \<Longrightarrow> getTrack spec (abs w) = getTrack conc w"
    and state_abs: "ok w \<Longrightarrow> getTrackState spec (abs w) = getTrackState conc w"
    and updTrack_abs: "ok w \<Longrightarrow> abs (updTrack conc f w) = updTrack spec f (abs w) \<and> ok (updTrack conc f w)"
    and updState_abs: "ok w \<Longrightarrow>
      abs (updTrackState conc g w) = updTrackState spec g (abs w) \<and> ok (updTrackState conc g w)"
    and emit_abs: "ok w \<Longrightarrow>
      abs (emitTrackChunk conc c w) = emitTrackChunk spec c (abs w) \<and> ok (emitTrackChunk conc c w)"
    and log_abs: "ok w \<Longrightarrow> abs (trackLogError conc e w) = trackLogError spec e (abs w) \<and> ok (trackLogError conc e w)"

text \<open>An abstraction function is a relation of this kind.\<close>

sublocale track_refinement \<subseteq> sim: track_simulation conc spec "\<lambda>w v. ok w \<and> v = abs w"
  by unfold_locales (simp_all add: track_abs state_abs updTrack_abs updState_abs emit_abs log_abs)

context track_refinement
begin

lemma handleOutput_abs:
  assumes "ok w"
  shows "abs (handleOutput conc ec desc w) = handleOutput spec ec desc (abs w) \<and> ok (handleOutput conc ec desc w)"
  using sim.handleOutput_sim [of w "abs w"] assms by simp

end

subsection \<open>Relative time stamps\<close>

definition rel_time :: "rat \<Rightarrow> rat \<Rightarrow> rat" where
  "rel_time offset ts = max 0 (f64_round (f64_round (ts - offset) / 1000))"

lemma rel_time_nonneg [simp, intro]: "0 \<le> rel_time o' ts"
  by (simp add: rel_time_def)

lemma rel_time_mono: "ts \<le> ts' \<Longrightarrow> rel_time off ts \<le> rel_time off ts'"
  unfolding rel_time_def
  by (intro max.mono order_refl f64_round_mono divide_right_mono diff_right_mono) simp_all

lemma rel_time_self [simp]: "rel_time ts ts = 0"
  by (simp add: rel_time_def)

lemma calculateTimestamp_eq:
  "calculateTimestamp ts s =
     (let off = (if offsetTimestamp s = 0 then ts else offsetTimestamp s)
      in (rel_time off ts, s\<lparr>offsetTimestamp := off\<rparr>))"
  by (simp add: calculateTimestamp_def rel_time_def Let_def)

primrec stamps :: "rat list \<Rightarrow> track_state \<Rightarrow> rat list \<times> track_state" where
  "stamps [] s = ([], s)"
| "stamps (t # ts) s =
     (let (x, s) = calculateTimestamp t s; (xs, s) = stamps ts s in (x # xs, s))"

lemma set_offset_0: "offsetTimestamp s = 0 \<Longrightarrow> s\<lparr>offsetTimestamp := 0\<rparr> = s"
  by simp

lemma stamps_fixed: "offsetTimestamp s \<noteq> 0 \<Longrightarrow> stamps ts s = (map (rel_time (offsetTimestamp s)) ts, s)"
  by (induction ts) (simp_all add: calculateTimestamp_eq Let_def)

lemma stamps_zero:
  "offsetTimestamp s = 0 \<Longrightarrow> d \<noteq> 0 \<Longrightarrow>
   fst (stamps (replicate n 0 @ d # ts) s) = replicate n 0 @ map (rel_time d) (d # ts)"
proof (induction n)
  case 0
  then show ?case by (simp add: calculateTimestamp_eq Let_def stamps_fixed)
next
  case (Suc n)
  show ?case using Suc by (simp add: set_offset_0 calculateTimestamp_eq Let_def split_beta)
qed

lemma length_stamps [simp]: "length (fst (stamps ts s)) = length ts"
  by (induction ts arbitrary: s) (simp_all add: Let_def split_beta)

lemma stamps_mono:
  "i < j \<Longrightarrow> j < length ts \<Longrightarrow> ts ! i \<le> ts ! j \<Longrightarrow> fst (stamps ts s) ! i \<le> fst (stamps ts s) ! j"
proof (cases "offsetTimestamp s = 0")
  case False
  assume "i < j" "j < length ts" "ts ! i \<le> ts ! j"
  then show ?thesis by (simp add: stamps_fixed [OF False] rel_time_mono)
next
  case True
  assume a: "i < j" "j < length ts" "ts ! i \<le> ts ! j"
  show ?thesis
  proof (cases "\<exists>d \<in> set ts. d \<noteq> 0")
    case False
    then have "ts = replicate (length ts) 0" by (simp add: replicate_length_same)
    moreover have "fst (stamps (replicate n 0) s) = replicate n 0" for n
    proof (induction n)
      case (Suc n)
      show ?case using Suc True by (simp add: set_offset_0 calculateTimestamp_eq Let_def split_beta)
    qed simp
    ultimately have "fst (stamps ts s) = replicate (length ts) 0" by metis
    then show ?thesis using a by simp
  next
    case ex: True
    define n where "n = length (takeWhile (\<lambda>x. x = 0) ts)"
    have z: "takeWhile (\<lambda>x. x = 0) ts = replicate n 0"
      unfolding n_def by (rule replicate_length_same [symmetric]) (auto dest: set_takeWhileD)
    obtain d ds where d: "dropWhile (\<lambda>x. x = 0) ts = d # ds" "d \<noteq> 0"
      using ex by (metis (mono_tags, lifting) dropWhile_eq_Nil_conv hd_dropWhile list.exhaust list.sel(1))
    have ts: "ts = replicate n 0 @ d # ds"
      using takeWhile_dropWhile_id [of "\<lambda>x. x = 0" ts] z d by simp
    have "fst (stamps ts s) = replicate n 0 @ map (rel_time d) (d # ds)"
      unfolding ts by (rule stamps_zero [OF True d(2)])
    then show ?thesis
      using a ts by (auto simp: nth_append nth_Cons' rel_time_mono split: if_splits)
  qed
qed

subsection \<open>Properties\<close>

text \<open>
  Relative time stamps are never negative and keep the order of the encoder's time stamps:
  whatever sequence of chunks of both tracks passes through \<open>calculateTimestamp\<close>, a chunk
  that comes later with a time stamp no smaller gets a relative time no smaller, rounding
  included and although the shared offset is fixed only on the way.
\<close>

theorem relative_time_keeps_order:
  "(\<forall>x \<in> set (fst (stamps ts s)). 0 \<le> x) \<and>
   (\<forall>i j. i < j \<and> j < length ts \<and> ts ! i \<le> ts ! j \<longrightarrow> fst (stamps ts s) ! i \<le> fst (stamps ts s) ! j)"
proof -
  have "\<forall>x \<in> set (fst (stamps ts s)). 0 \<le> x"
    by (induction ts arbitrary: s) (auto simp: calculateTimestamp_eq Let_def split_beta)
  then show ?thesis using stamps_mono by blast
qed

theorem relative_time_keeps_order_witness:
  "fst (stamps [1000, 3000, 2000] new_TrackState) ! 0 \<le> fst (stamps [1000, 3000, 2000] new_TrackState) ! 2"
  using relative_time_keeps_order [of "[1000, 3000, 2000]" new_TrackState] by simp

text \<open>
  The offset is the first time stamp that is not zero. A stream that begins with \<open>n\<close> time
  stamps of zero, as encoders fed with frames from zero produce, therefore loses the time up to
  the next chunk: that chunk, at \<open>d\<close>, is stamped 0 as well, and everything after it is
  early by \<open>d\<close>, because \<open>calculateTimestamp\<close> takes an offset of 0 for one not yet set.
\<close>

theorem zero_time_stamps_shift_the_stream:
  assumes "offsetTimestamp s = 0" and "d \<noteq> 0"
  shows "fst (stamps (replicate n 0 @ d # ts) s) = replicate n 0 @ 0 # map (rel_time d) ts"
  using stamps_zero [OF assms, of n ts] by simp

theorem zero_time_stamps_shift_the_stream_witness:
  "fst (stamps [0, 40000, 80000] new_TrackState) = [0, 0, 40]"
proof -
  have "rel_time 40000 80000 = 40"
    using f64_round_int [of 40000] f64_round_int [of 40] by (simp add: rel_time_def)
  then show ?thesis
    using zero_time_stamps_shift_the_stream [of new_TrackState 40000 1 "[80000]"]
    by (simp add: new_TrackState_def)
qed

lemma js_rem_nat:
  assumes "0 < n"
  shows "js_rem (of_nat i) (of_nat n) = Some (of_nat (i mod n))"
proof -
  have "js_trunc (of_nat i / of_nat n) = int (i div n)"
    by (simp add: js_trunc_def floor_divide_of_nat_eq)
  moreover have "of_nat i - of_nat n * of_nat (i div n) = (of_nat (i mod n) :: rat)"
    by (simp flip: minus_div_mult_eq_mod of_nat_mult add: of_nat_diff mult.commute)
  ultimately show ?thesis using assms by (simp add: js_rem_def)
qed

lemma encode_all:
  assumes "encoder t = Some calls" "\<And>i. key i \<longleftrightarrow> wants_key_frame (t\<lparr>frameCount := i\<rparr>)"
  shows "fold (\<lambda>f t. fst (video_addTrackChunk Recording None f t)) fs t
    = t\<lparr>encoder := Some (calls @ map (\<lambda>i. EncodeVideo (fs ! i) (key (frameCount t + i))) [0..<length fs]),
        frameCount := frameCount t + length fs\<rparr>"
  using assms
proof (induction fs arbitrary: t calls)
  case Nil
  then show ?case by simp
next
  case (Cons f fs)
  let ?t = "fst (video_addTrackChunk Recording None f t)"
  have t: "?t = t\<lparr>encoder := Some (calls @ [EncodeVideo f (key (frameCount t))]),
      frameCount := frameCount t + 1\<rparr>"
    using Cons.prems(1) Cons.prems(2) [of "frameCount t"] by (simp add: video_addTrackChunk_def)
  have k: "key i \<longleftrightarrow> wants_key_frame (?t\<lparr>frameCount := i\<rparr>)" for i
    using Cons.prems(2) [of i] by (simp add: t wants_key_frame_def split: option.split)
  have m: "map (\<lambda>i. EncodeVideo ((f # fs) ! i) (key (frameCount t + i))) [0..<length (f # fs)]
      = EncodeVideo f (key (frameCount t))
        # map (\<lambda>i. EncodeVideo (fs ! i) (key (frameCount t + 1 + i))) [0..<length fs]"
    by (simp add: map_upt_Suc del: upt_Suc)
  have "encoder ?t = Some (calls @ [EncodeVideo f (key (frameCount t))])"
    "frameCount ?t = frameCount t + 1"
    by (simp_all add: t)
  note ih = Cons.IH [OF this(1) k, unfolded this(2)]
  have "fold (\<lambda>f t. fst (video_addTrackChunk Recording None f t)) (f # fs) t
      = fold (\<lambda>f t. fst (video_addTrackChunk Recording None f t)) fs ?t"
    by simp
  then show ?case unfolding ih m by (simp add: t)
qed

text \<open>
  After a reset, the video track asks the encoder for a key frame at the first frame and
  then exactly every \<open>keyframeInterval\<close> frames; with the interval left out (or 0) it
  never asks for one, since the constructor replaces the default of 90 by \<open>undefined\<close>.
\<close>

theorem key_frame_requests:
  assumes "kind t = VideoTrack" and "encoder t = Some calls"
  shows "encoder (fold (\<lambda>f t. fst (video_addTrackChunk Recording None f t)) fs (fst (reset_track t s)))
    = Some (calls @ map (\<lambda>i. EncodeVideo (fs ! i)
        (case keyframeInterval t of
           None \<Rightarrow> False
         | Some n \<Rightarrow> js_rem (of_nat i) n = Some 0)) [0..<length fs])
    \<and> (\<forall>n i. keyframeInterval t = Some (of_nat n) \<longrightarrow>
        (js_rem (of_nat i) (of_nat n) = Some 0) = (0 < n \<and> n dvd i))"
proof -
  let ?t = "fst (reset_track t s)"
  have t: "?t = t\<lparr>decoderConfig := None, frameCount := 0\<rparr>"
    using assms by (simp add: reset_track_def base_reset_def)
  have "(js_rem (of_nat i) (of_nat n) = Some 0) = (0 < n \<and> n dvd i)" for n i
    using js_rem_nat [of n i] by (cases "n = 0") (auto simp: js_rem_def)
  moreover have "encoder ?t = Some calls" using assms by (simp add: t)
  ultimately show ?thesis
    by (subst encode_all [of ?t]) (auto simp: t wants_key_frame_def split: option.splits)
qed

definition demo_track :: "unit track" where
  "demo_track = \<lparr>kind = VideoTrack, config = (), queue = [], encoder = Some [], lastTimestamp = 0,
     decoderConfig = None, frameCount = 5, keyframeInterval = Some (of_nat 2)\<rparr>"

theorem key_frame_requests_witness:
  "encoder (fold (\<lambda>f t. fst (video_addTrackChunk Recording None f t)) [7, 8, 9]
      (fst (reset_track demo_track new_TrackState)))
    = Some [EncodeVideo 7 True, EncodeVideo 8 False, EncodeVideo 9 True]"
proof -
  have k: "kind demo_track = VideoTrack" "encoder demo_track = Some []"
    "keyframeInterval demo_track = Some (of_nat 2)"
    by (simp_all add: demo_track_def)
  note r = key_frame_requests [OF k(1,2), of "[7, 8, 9]" new_TrackState, unfolded k(3)]
  have n: "js_rem (of_nat i) (of_nat 2) = Some 0 \<longleftrightarrow> even i" for i
    using r [THEN conjunct2] by simp
  have "[0..<length [7, 8, 9 :: nat]] = [0, 1, 2]" by (simp add: upt_rec)
  then show ?thesis
    using r [THEN conjunct1] n [of 0] n [of 1] n [of 2] by simp
qed

text \<open>
  What \<open>addTrackChunk\<close> does with a raw frame: while recording it is handed to the encoder
  and closed, or the encoder refuses it and the exception leaves the method with nothing
  changed (the frame is then not closed); in any other state it is closed and dropped without
  the encoder being touched.
\<close>

theorem add_track_chunk_outcome:
  assumes "add = video_addTrackChunk \<or> add = audio_addTrackChunk"
  shows "case add st refused f t of (t', shut, thrown) \<Rightarrow>
      shut = (if thrown = None then [f] else []) \<and>
      (thrown \<noteq> None \<longleftrightarrow> st = Recording \<and> (encoder t = None \<or> refused \<noteq> None)) \<and>
      (if st = Recording \<and> thrown = None
       then \<exists>calls call. encoder t = Some calls \<and> encoder t' = Some (calls @ [call]) \<and>
              (call = EncodeAudio f \<or> (\<exists>k. call = EncodeVideo f k))
       else t' = t) \<and>
      queue t' = queue t \<and> lastTimestamp t' = lastTimestamp t"
  using assms
  by (cases "encoder t"; cases refused; elim disjE)
    (simp_all add: video_addTrackChunk_def audio_addTrackChunk_def)

theorem add_track_chunk_outcome_witness:
  "case video_addTrackChunk Recording (Some ''InvalidStateError'') 3 demo_track of
     (t', shut, thrown) \<Rightarrow> shut = [] \<and> t' = demo_track"
  using add_track_chunk_outcome [where add = video_addTrackChunk and st = Recording and f = 3
      and refused = "Some ''InvalidStateError''" and t = demo_track]
  by (simp add: split_beta)

end
