(* ===== verification/Stream_Processor.thy ===== *)
theory Stream_Processor
  imports Encoder_Track
begin

section \<open>StreamProcessor: interleaving the two tracks\<close>

text \<open>
  The class \<open>StreamProcessor\<close> of \<open>plugin/webtransport/web/flv-muxer.iife.js\<close>. It owns the
  two tracks, decides in which order their chunks are published, and runs the recording state
  machine. The calls \<open>eventBus.emit("CHUNK_PUBLISH", chunk)\<close> an operation makes are its
  second result, in order; \<open>Flv_Muxer\<close> hands them to the bus, whose handlers for that event do
  not touch the processor. The asynchronous \<open>pause\<close> and \<open>stop\<close> run up to their first
  \<open>await\<close>; what is left of them waits in \<open>pending\<close> until a promise settles. The code's two
  singletons (\<open>StreamProcessor\<close>, \<open>TrackState\<close>) are the one processor and its
  \<open>sharedState\<close>; each kind of track is configured at most once, so that an encoder's output
  belongs to the processor's current track of its kind.
\<close>

datatype job = PauseJob | StopJob

datatype await = AwaitAudio | AwaitVideo

record 'cfg processor =
  procState :: recording_state
  audioEncoderTrack :: "'cfg track option"
  videoEncoderTrack :: "'cfg track option"
  audioConfigReady :: bool
  videoConfigReady :: bool
  sharedState :: track_state
  pending :: "(job \<times> await) list"

definition new_StreamProcessor :: "'cfg processor" where
  "new_StreamProcessor =
     \<lparr>procState = Inactive, audioEncoderTrack = None, videoEncoderTrack = None,
      audioConfigReady = False, videoConfigReady = False, sharedState = new_TrackState,
      pending = []\<rparr>"

definition setAudioConfigReady :: "'cfg processor \<Rightarrow> 'cfg processor" where
  "setAudioConfigReady p = p\<lparr>audioConfigReady := True\<rparr>"

definition setVideoConfigReady :: "'cfg processor \<Rightarrow> 'cfg processor" where
  "setVideoConfigReady p = p\<lparr>videoConfigReady := True\<rparr>"

definition addAudioTrack :: "'cfg track \<Rightarrow> 'cfg processor \<Rightarrow> 'cfg processor" where
  "addAudioTrack t p = p\<lparr>audioEncoderTrack := Some t\<rparr>"

definition addVideoTrack :: "'cfg track \<Rightarrow> 'cfg processor \<Rightarrow> 'cfg processor" where
  "addVideoTrack t p = p\<lparr>videoEncoderTrack := Some t\<rparr>"

text \<open>A raw frame: the processor, the frames closed, the exception thrown.\<close>

definition processor_addTrackChunk ::
  "track_kind \<Rightarrow> js_error option \<Rightarrow> frame \<Rightarrow> 'cfg processor \<Rightarrow> 'cfg processor \<times> frame list \<times> js_error option"
where
  "processor_addTrackChunk type refused frame p =
     (if procState p \<noteq> Recording then (p, [frame], None)
      else case type of
             AudioTrack \<Rightarrow>
               (case audioEncoderTrack p of
                  None \<Rightarrow> (p, [], None)
                | Some t \<Rightarrow> (let (t, fs, e) = audio_addTrackChunk (procState p) refused frame t
                            in (p\<lparr>audioEncoderTrack := Some t\<rparr>, fs, e)))
           | VideoTrack \<Rightarrow>
               (case videoEncoderTrack p of
                  None \<Rightarrow> (p, [], None)
                | Some t \<Rightarrow> (let (t, fs, e) = video_addTrackChunk (procState p) refused frame t
                            in (p\<lparr>videoEncoderTrack := Some t\<rparr>, fs, e))))"

subsection \<open>Publishing and interleaving\<close>

definition publishChunk :: "chunk option \<Rightarrow> chunk list" where
  "publishChunk c = (case c of None \<Rightarrow> [] | Some c \<Rightarrow> [c])"

text \<open>The loop \<open>while (!track.isEmpty() && track.peek().timestamp <= ts) publish(track.dequeue())\<close>.\<close>

function drain :: "rat \<Rightarrow> 'cfg track \<Rightarrow> 'cfg track \<times> chunk list" where
  "drain ts t =
     (if \<not> isEmpty t \<and> timestamp (the (peek t)) \<le> ts
      then (let (c, t) = dequeue t; (t, cs) = drain ts t in (t, publishChunk c @ cs))
      else (t, []))"
  by auto
termination
  by (relation "measure (\<lambda>(ts, t). length (queue t))")
    (auto simp: isEmpty_def dequeue_def split: list.splits)

declare drain.simps [simp del]

definition processAudioChunk ::
  "chunk \<Rightarrow> 'cfg track \<Rightarrow> 'cfg track \<Rightarrow> 'cfg processor \<Rightarrow> 'cfg processor \<times> chunk list"
where
  "processAudioChunk c audioTrack videoTrack p =
     (if \<not> audioConfigReady p \<or> \<not> videoConfigReady p
      then (p\<lparr>audioEncoderTrack := Some (enqueue c audioTrack)\<rparr>, [])
      else
        let (videoTrack, out) = drain (timestamp c) videoTrack;
            p = p\<lparr>videoEncoderTrack := Some videoTrack\<rparr>
        in if timestamp c \<le> lastTimestamp videoTrack
           then (p, out @ publishChunk (Some c))
           else (p\<lparr>audioEncoderTrack := Some (enqueue c audioTrack)\<rparr>, out))"

definition processVideoChunk ::
  "chunk \<Rightarrow> 'cfg track \<Rightarrow> 'cfg track \<Rightarrow> 'cfg processor \<Rightarrow> 'cfg processor \<times> chunk list"
where
  "processVideoChunk c audioTrack videoTrack p =
     (if \<not> audioConfigReady p \<or> \<not> videoConfigReady p
      then (p\<lparr>videoEncoderTrack := Some (enqueue c videoTrack)\<rparr>, [])
      else
        let (audioTrack, out) = drain (timestamp c) audioTrack;
            p = p\<lparr>audioEncoderTrack := Some audioTrack\<rparr>
        in if timestamp c \<le> lastTimestamp audioTrack
           then (p, out @ publishChunk (Some c))
           else (p\<lparr>videoEncoderTrack := Some (enqueue c videoTrack)\<rparr>, out))"

definition handleTrackChunk :: "chunk \<Rightarrow> 'cfg processor \<Rightarrow> 'cfg processor \<times> chunk list" where
  "handleTrackChunk c p =
     (case (audioEncoderTrack p, videoEncoderTrack p) of
        (Some audioTrack, Some videoTrack) \<Rightarrow>
          (case chunkType c of
             AAC_SE \<Rightarrow>
               (if \<not> audioConfigReady p then setAudioConfigReady p else p, publishChunk (Some c))
           | AVC_SE \<Rightarrow>
               (if \<not> videoConfigReady p then setVideoConfigReady p else p, publishChunk (Some c))
           | AAC_RAW \<Rightarrow> processAudioChunk c audioTrack videoTrack p
           | AVC_NALU \<Rightarrow> processVideoChunk c audioTrack videoTrack p)
      | _ \<Rightarrow> (p, publishChunk (Some c)))"

subsection \<open>The recording state machine\<close>

definition start_processor :: "'cfg processor \<Rightarrow> 'cfg processor" where
  "start_processor p = (if procState p \<noteq> Inactive then p else p\<lparr>procState := Recording\<rparr>)"

definition resume_processor :: "'cfg processor \<Rightarrow> 'cfg processor" where
  "resume_processor p = (if procState p \<noteq> Paused then p else p\<lparr>procState := Recording\<rparr>)"

text \<open>
  \<open>reset\<close> resets the video track, then the audio track. Neither clears its queue or its
  last time stamp.
\<close>

definition reset_processor :: "'cfg processor \<Rightarrow> 'cfg processor" where
  "reset_processor p =
     (let p = (case videoEncoderTrack p of
                 None \<Rightarrow> p
               | Some t \<Rightarrow> (let (t, s) = reset_track t (sharedState p)
                           in p\<lparr>videoEncoderTrack := Some t, sharedState := s\<rparr>));
          p = p\<lparr>videoConfigReady := False\<rparr>;
          p = (case audioEncoderTrack p of
                 None \<Rightarrow> p
               | Some t \<Rightarrow> (let (t, s) = reset_track t (sharedState p)
                           in p\<lparr>audioEncoderTrack := Some t, sharedState := s\<rparr>))
      in p\<lparr>audioConfigReady := False\<rparr>)"

text \<open>
  \<open>flush\<close>: the audio track's promise first, then the video track's. A \<open>flush\<close> that throws
  is a rejected promise; the track is as it was.
\<close>

definition flush_field :: "'cfg track option \<Rightarrow> 'cfg track option" where
  "flush_field t = (case t of
     None \<Rightarrow> None | Some t \<Rightarrow> (case flush_track t of Inl e \<Rightarrow> Some t | Inr t \<Rightarrow> Some t))"

definition begin_flush :: "job \<Rightarrow> 'cfg processor \<Rightarrow> 'cfg processor" where
  "begin_flush j p =
     p\<lparr>audioEncoderTrack := flush_field (audioEncoderTrack p),
       pending := pending p @ [(j, AwaitAudio)]\<rparr>"

definition pause_processor :: "'cfg processor \<Rightarrow> 'cfg processor" where
  "pause_processor p = (if procState p \<noteq> Recording then p else begin_flush PauseJob p)"

definition stop_processor :: "'cfg processor \<Rightarrow> 'cfg processor" where
  "stop_processor p = (if procState p \<noteq> Recording then p else begin_flush StopJob p)"

definition finish_job :: "job \<Rightarrow> 'cfg processor \<Rightarrow> 'cfg processor" where
  "finish_job j p =
     (case j of
        PauseJob \<Rightarrow> p\<lparr>procState := Paused\<rparr>
      | StopJob \<Rightarrow> (reset_processor p)\<lparr>procState := Inactive\<rparr>)"

text \<open>The promise the \<open>i\<close>-th pending call waits for resolves, or is rejected.\<close>

definition remove_nth :: "nat \<Rightarrow> 'a list \<Rightarrow> 'a list" where
  "remove_nth i xs = take i xs @ drop (Suc i) xs"

definition settle :: "nat \<Rightarrow> bool \<Rightarrow> 'cfg processor \<Rightarrow> 'cfg processor" where
  "settle i resolved p =
     (if i \<ge> length (pending p) then p
      else if \<not> resolved then p\<lparr>pending := remove_nth i (pending p)\<rparr>
      else case pending p ! i of
             (j, AwaitAudio) \<Rightarrow>
               p\<lparr>videoEncoderTrack := flush_field (videoEncoderTrack p),
                 pending := (pending p)[i := (j, AwaitVideo)]\<rparr>
           | (j, AwaitVideo) \<Rightarrow> finish_job j (p\<lparr>pending := remove_nth i (pending p)\<rparr>))"

subsection \<open>Encoder output, seen from the processor\<close>

definition track_of :: "track_kind \<Rightarrow> 'cfg processor \<Rightarrow> 'cfg track option" where
  "track_of k p = (case k of AudioTrack \<Rightarrow> audioEncoderTrack p | VideoTrack \<Rightarrow> videoEncoderTrack p)"

definition upd_track :: "track_kind \<Rightarrow> ('cfg track \<Rightarrow> 'cfg track) \<Rightarrow> 'cfg processor \<Rightarrow> 'cfg processor" where
  "upd_track k f p =
     (case k of
        AudioTrack \<Rightarrow> p\<lparr>audioEncoderTrack := map_option f (audioEncoderTrack p)\<rparr>
      | VideoTrack \<Rightarrow> p\<lparr>videoEncoderTrack := map_option f (videoEncoderTrack p)\<rparr>)"

text \<open>
  The surroundings of a track that record what is published: the specification the bus and the
  streams of \<open>Flv_Muxer\<close> refine.
\<close>

definition direct_env :: "track_kind \<Rightarrow> ('cfg processor \<times> chunk list, 'cfg) track_env" where
  "direct_env k =
     \<lparr>getTrack = (\<lambda>(p, out). the (track_of k p)),
      updTrack = (\<lambda>f (p, out). (upd_track k f p, out)),
      getTrackState = (\<lambda>(p, out). sharedState p),
      updTrackState = (\<lambda>f (p, out). (p\<lparr>sharedState := f (sharedState p)\<rparr>, out)),
      emitTrackChunk = (\<lambda>c (p, out). let (p, cs) = handleTrackChunk c p in (p, out @ cs)),
      trackLogError = (\<lambda>e w. w)\<rparr>"

definition processor_output ::
  "track_kind \<Rightarrow> encoded_chunk \<Rightarrow> bytes option \<Rightarrow> 'cfg processor \<Rightarrow> 'cfg processor \<times> chunk list"
where
  "processor_output k ec description p =
     (case track_of k p of
        None \<Rightarrow> (p, [])
      | Some t \<Rightarrow> handleOutput (direct_env k) ec description (p, []))"

subsection \<open>Draining\<close>

lemma drain_queue:
  "snd (drain ts t) = takeWhile (\<lambda>c. timestamp c \<le> ts) (queue t) \<and>
   queue (fst (drain ts t)) = dropWhile (\<lambda>c. timestamp c \<le> ts) (queue t)"
proof (rule chunk_queue.drain_spec)
  fix q :: "'a track"
  show "drain ts q = (if \<not> isEmpty q \<and> timestamp (the (peek q)) \<le> ts
      then (let (q'', cs) = drain ts (snd (dequeue q)) in (q'', the (fst (dequeue q)) # cs)) else (q, []))"
    by (subst drain.simps) (cases rule: chunk_queue.pop_cases [of q]; auto simp: publishChunk_def split_beta)
qed

lemma drain_eq:
  "drain ts t = (t\<lparr>queue := dropWhile (\<lambda>c. timestamp c \<le> ts) (queue t)\<rparr>,
                 takeWhile (\<lambda>c. timestamp c \<le> ts) (queue t))"
proof -
  have "fst (drain ts t) = t\<lparr>queue := queue (fst (drain ts t))\<rparr>"
  proof (induction ts t rule: drain.induct)
    case (1 ts t)
    show ?case
    proof (cases "\<not> isEmpty t \<and> timestamp (the (peek t)) \<le> ts")
      case True
      have "fst (drain ts (snd (dequeue t)))
          = (snd (dequeue t))\<lparr>queue := queue (fst (drain ts (snd (dequeue t))))\<rparr>"
        using 1 [OF True] by (cases "dequeue t") simp
      then show ?thesis
        using True by (subst (1 2) drain.simps)
          (auto simp: split_beta dequeue_def split: list.splits intro: track.equality)
    next
      case False
      then show ?thesis by (subst (1 2) drain.simps) auto
    qed
  qed
  then show ?thesis using drain_queue [of ts t] by (metis prod.collapse)
qed

subsection \<open>The order of the published chunks\<close>

text \<open>
  The view of one track during a recording: \<open>ready\<close> is its config flag. A track that has
  not produced output yet counts as being before time 0. A chunk waits in a queue exactly
  because the other track has not reached its time.
\<close>

definition reached :: "bool \<Rightarrow> 'cfg track \<Rightarrow> rat" where
  "reached ready t = (if ready then lastTimestamp t else - 1)"

definition lane :: "track_kind \<Rightarrow> bool \<Rightarrow> 'cfg track \<Rightarrow> rat \<Rightarrow> bool" where
  "lane k ready t other \<longleftrightarrow>
     kind t = k \<and> (ready \<longleftrightarrow> decoderConfig t \<noteq> None) \<and> 0 \<le> lastTimestamp t \<and>
     (\<not> ready \<longrightarrow> queue t = []) \<and>
     sorted (map timestamp (queue t)) \<and>
     (\<forall>c \<in> set (queue t). chunkType c = media_type k \<and> 0 \<le> timestamp c \<and>
        other < timestamp c \<and> timestamp c \<le> lastTimestamp t)"

definition published_ok :: "rat \<Rightarrow> chunk list \<Rightarrow> bool" where
  "published_ok bound pub \<longleftrightarrow>
     sorted (map timestamp pub) \<and> (\<forall>c \<in> set pub. 0 \<le> timestamp c \<and> timestamp c \<le> max 0 bound)"

definition of_type :: "chunk_type \<Rightarrow> chunk list \<Rightarrow> chunk list" where
  "of_type ty cs = filter (\<lambda>c. chunkType c = ty) cs"

lemma of_type_append [simp]: "of_type ty (xs @ ys) = of_type ty xs @ of_type ty ys"
  by (simp add: of_type_def)

lemma of_type_Nil [simp]: "of_type ty [] = []"
  by (simp add: of_type_def)

lemma of_type_single [simp]: "of_type ty [c] = (if chunkType c = ty then [c] else [])"
  by (simp add: of_type_def)

lemma of_type_all: "\<forall>c \<in> set cs. chunkType c = ty' \<Longrightarrow> of_type ty cs = (if ty = ty' then cs else [])"
  by (auto simp: of_type_def filter_id_conv filter_empty_conv)

definition other_kind :: "track_kind \<Rightarrow> track_kind" where
  "other_kind k = (case k of AudioTrack \<Rightarrow> VideoTrack | VideoTrack \<Rightarrow> AudioTrack)"

lemma media_type_other [simp]: "media_type (other_kind k) \<noteq> media_type k"
  "media_type k \<noteq> media_type (other_kind k)"
  by (cases k; simp add: other_kind_def media_type_def)+

lemma published_ok_append:
  assumes "published_ok b pub" "sorted (map timestamp cs)"
    "\<forall>c \<in> set cs. 0 \<le> timestamp c \<and> b \<le> timestamp c \<and> timestamp c \<le> max 0 b'"
    "b \<le> b'"
  shows "published_ok b' (pub @ cs)"
  unfolding published_ok_def
proof
  show "sorted (map timestamp (pub @ cs))"
    using assms(1-3) by (force simp: published_ok_def sorted_append)
  show "\<forall>c \<in> set (pub @ cs). 0 \<le> timestamp c \<and> timestamp c \<le> max 0 b'"
    using assms(1,3,4) by (fastforce simp: published_ok_def)
qed

lemma dropWhile_le:
  "sorted (map timestamp cs) \<Longrightarrow> c \<in> set (dropWhile (\<lambda>c. timestamp c \<le> ts) cs) \<Longrightarrow> ts < timestamp c"
  by (induction cs) (auto split: if_splits)

text \<open>
  One output of the track \<open>own\<close> (of kind \<open>k\<close>) while the other track is \<open>oth\<close>: first
  the chunk with the decoder configuration if it is the first output, then the media chunk
  \<open>c\<close> through the interleaving.
\<close>

lemma merge_not_ready:
  fixes own oth :: "'cfg track" and c :: chunk and d :: bytes
  assumes own: "lane k ready own (- 1)" and oth: "lane (other_kind k) False oth (reached ready own)"
    and pub: "published_ok (min (reached ready own) (- 1)) pub"
    and c: "chunkType c = media_type k" "lastTimestamp own \<le> timestamp c"
    and se: "\<forall>c \<in> set se. timestamp c = 0" "ready \<longrightarrow> se = []"
  defines "own' \<equiv> (enqueue c (own\<lparr>decoderConfig := Some d\<rparr>))\<lparr>lastTimestamp := timestamp c\<rparr>"
  shows "lane k True own' (- 1)" and "lane (other_kind k) False oth (reached True own')"
    and "published_ok (min (reached True own') (- 1)) (pub @ se)"
proof -
  have c0: "0 \<le> timestamp c" using own c by (auto simp: lane_def)
  show "lane k True own' (- 1)"
    using own c c0 by (fastforce simp: lane_def own'_def enqueue_def sorted_append)
  show "lane (other_kind k) False oth (reached True own')"
    using oth by (simp add: lane_def)
  have p: "\<forall>c \<in> set pub. timestamp c = 0"
    using pub by (force simp: published_ok_def min_def split: if_splits)
  have "\<forall>c \<in> set (pub @ se). timestamp c = 0" using p se by auto
  then have "published_ok 0 (pub @ se)"
    by (auto simp: published_ok_def sorted_wrt_map intro: sorted_wrt_mono_rel [of _ "\<lambda>_ _. True"])
  then show "published_ok (min (reached True own') (- 1)) (pub @ se)"
    using c0 by (auto simp: published_ok_def reached_def own'_def)
qed

lemma merge_ready:
  fixes own oth :: "'cfg track" and c :: chunk and d :: bytes
  assumes own: "lane k ready own (reached True oth)" and oth: "lane (other_kind k) True oth (reached ready own)"
    and pub: "published_ok (min (reached ready own) (reached True oth)) pub"
    and c: "chunkType c = media_type k" "lastTimestamp own \<le> timestamp c"
    and se: "\<forall>c \<in> set se. timestamp c = 0" "ready \<longrightarrow> se = []"
  defines "out \<equiv> takeWhile (\<lambda>d. timestamp d \<le> timestamp c) (queue oth)"
    and "oth' \<equiv> oth\<lparr>queue := dropWhile (\<lambda>d. timestamp d \<le> timestamp c) (queue oth)\<rparr>"
    and "own1 \<equiv> own\<lparr>decoderConfig := Some d\<rparr>"
  defines "direct \<equiv> timestamp c \<le> lastTimestamp oth"
  defines "own' \<equiv> (if direct then own1 else enqueue c own1)\<lparr>lastTimestamp := timestamp c\<rparr>"
    and "out' \<equiv> (if direct then out @ [c] else out)"
  shows "lane k True own' (reached True oth')" and "lane (other_kind k) True oth' (reached True own')"
    and "published_ok (min (reached True own') (reached True oth')) (pub @ se @ out')"
    and "direct \<Longrightarrow> queue own = []"
proof -
  have c0: "0 \<le> timestamp c" using own c by (auto simp: lane_def)
  have l: "reached True oth' = lastTimestamp oth" "reached True oth = lastTimestamp oth"
    "reached True own' = timestamp c"
    by (simp_all add: reached_def oth'_def own'_def)
  show "lane k True own' (reached True oth')"
  proof (cases direct)
    case True
    have "queue own = []"
    proof (rule ccontr)
      assume "queue own \<noteq> []"
      then have "hd (queue own) \<in> set (queue own)" by simp
      then have "lastTimestamp oth < timestamp (hd (queue own))" "timestamp (hd (queue own)) \<le> lastTimestamp own"
        using own l by (auto simp: lane_def)
      then show False using c(2) True by (simp add: direct_def)
    qed
    then show ?thesis using own c0 True by (simp add: lane_def own'_def own1_def)
  next
    case False
    then show ?thesis
      using own c c0 by (fastforce simp: lane_def own'_def own1_def enqueue_def sorted_append direct_def l)
  qed
  show "direct \<Longrightarrow> queue own = []"
  proof (rule ccontr)
    assume direct "queue own \<noteq> []"
    then have "hd (queue own) \<in> set (queue own)" by simp
    then have "lastTimestamp oth < timestamp (hd (queue own))" "timestamp (hd (queue own)) \<le> lastTimestamp own"
      using own l by (auto simp: lane_def)
    then show False using c(2) \<open>direct\<close> by (simp add: direct_def)
  qed
  have so: "sorted (map timestamp (queue oth))" using oth by (simp add: lane_def)
  show "lane (other_kind k) True oth' (reached True own')"
    using oth dropWhile_le [OF so] unfolding l
    by (auto simp: lane_def oth'_def sorted_map sorted_wrt_dropWhile dest: set_dropWhileD)
  have out: "sorted (map timestamp out)" "\<forall>e \<in> set out. 0 \<le> timestamp e \<and> reached ready own < timestamp e
      \<and> timestamp e \<le> lastTimestamp oth \<and> timestamp e \<le> timestamp c"
    using oth by (auto simp: lane_def out_def sorted_map sorted_wrt_takeWhile dest: set_takeWhileD)
  have r: "reached ready own \<le> timestamp c"
    using c c0 by (simp add: reached_def)
  have so': "sorted (map timestamp (se @ out'))"
  proof -
    have "sorted (map timestamp se)"
      using se(1) by (auto simp: sorted_wrt_map intro: sorted_wrt_mono_rel [of _ "\<lambda>_ _. True"])
    then show ?thesis
      using out se(1) c0 by (auto simp: sorted_append out'_def)
  qed
  have b: "\<forall>e \<in> set (se @ out'). 0 \<le> timestamp e \<and> min (reached ready own) (reached True oth) \<le> timestamp e
      \<and> timestamp e \<le> max 0 (min (timestamp c) (lastTimestamp oth))"
  proof
    fix e assume "e \<in> set (se @ out')"
    then consider "e \<in> set se" | "e \<in> set out" | "e = c" direct
      by (auto simp: out'_def split: if_splits)
    then show "0 \<le> timestamp e \<and> min (reached ready own) (reached True oth) \<le> timestamp e
        \<and> timestamp e \<le> max 0 (min (timestamp c) (lastTimestamp oth))"
    proof cases
      case 1
      then show ?thesis using se by (auto simp: reached_def)
    next
      case 2
      then show ?thesis using out(2) by fastforce
    next
      case 3
      then show ?thesis using c0 r by (auto simp: direct_def)
    qed
  qed
  show "published_ok (min (reached True own') (reached True oth')) (pub @ se @ out')"
    unfolding l by (rule published_ok_append [OF pub so' b]) (use r in \<open>auto simp: l\<close>)
qed

subsection \<open>One output, for either track\<close>

definition ready_of :: "track_kind \<Rightarrow> 'cfg processor \<Rightarrow> bool" where
  "ready_of k p = (case k of AudioTrack \<Rightarrow> audioConfigReady p | VideoTrack \<Rightarrow> videoConfigReady p)"

definition make_ready :: "track_kind \<Rightarrow> 'cfg processor \<Rightarrow> 'cfg processor" where
  "make_ready k p = (case k of AudioTrack \<Rightarrow> p\<lparr>audioConfigReady := True\<rparr>
                             | VideoTrack \<Rightarrow> p\<lparr>videoConfigReady := True\<rparr>)"

definition put_tracks :: "track_kind \<Rightarrow> 'cfg track \<Rightarrow> 'cfg track \<Rightarrow> 'cfg processor \<Rightarrow> 'cfg processor" where
  "put_tracks k own oth p =
     (case k of
        AudioTrack \<Rightarrow> p\<lparr>audioEncoderTrack := Some own, videoEncoderTrack := Some oth\<rparr>
      | VideoTrack \<Rightarrow> p\<lparr>audioEncoderTrack := Some oth, videoEncoderTrack := Some own\<rparr>)"

lemmas lane_accessors = track_of_def ready_of_def make_ready_def put_tracks_def other_kind_def

lemma put_tracks_simps [simp]:
  "track_of k (put_tracks k own oth p) = Some own"
  "track_of (other_kind k) (put_tracks k own oth p) = Some oth"
  "ready_of k' (put_tracks k own oth p) = ready_of k' p"
  "sharedState (put_tracks k own oth p) = sharedState p"
  by (cases k; cases k'; simp add: lane_accessors)+

lemma make_ready_simps [simp]:
  "track_of k' (make_ready k p) = track_of k' p"
  "ready_of k' (make_ready k p) \<longleftrightarrow> k' = k \<or> ready_of k' p"
  "sharedState (make_ready k p) = sharedState p"
  by (cases k; cases k'; simp add: lane_accessors)+

lemma shared_simps [simp]:
  "track_of k (p\<lparr>sharedState := s\<rparr>) = track_of k p"
  "ready_of k (p\<lparr>sharedState := s\<rparr>) = ready_of k p"
  by (cases k; simp add: lane_accessors)+

definition media_chunk :: "track_kind \<Rightarrow> encoded_chunk \<Rightarrow> rat \<Rightarrow> chunk" where
  "media_chunk k ec ts =
     \<lparr>chunkType = media_type k, chunkData = (case ecCopy ec of Inl _ \<Rightarrow> [] | Inr data \<Rightarrow> data),
      timestamp = ts, isKey = ecKey ec\<rparr>"

definition merge :: "bool \<Rightarrow> chunk \<Rightarrow> 'cfg track \<Rightarrow> 'cfg track \<Rightarrow> 'cfg track \<times> 'cfg track \<times> chunk list" where
  "merge other_ready c own oth =
     (if \<not> other_ready then (enqueue c own, oth, [])
      else let (oth, out) = drain (timestamp c) oth
           in if timestamp c \<le> lastTimestamp oth then (own, oth, out @ [c])
              else (enqueue c own, oth, out))"

lemma handle_media:
  assumes "track_of k p = Some own" "track_of (other_kind k) p = Some oth" "ready_of k p"
    and "chunkType c = media_type k"
  shows "handleTrackChunk c p =
    (case merge (ready_of (other_kind k) p) c own oth of
       (own, oth, out) \<Rightarrow> (put_tracks k own oth p, out))"
proof -
  have "p\<lparr>videoEncoderTrack := Some t\<rparr> = p\<lparr>audioEncoderTrack := Some a, videoEncoderTrack := Some t\<rparr>"
    if "audioEncoderTrack p = Some a" for a t using that by (cases p) simp
  moreover have "p\<lparr>audioEncoderTrack := Some t\<rparr> = p\<lparr>audioEncoderTrack := Some t, videoEncoderTrack := Some a\<rparr>"
    if "videoEncoderTrack p = Some a" for a t using that by (cases p) simp
  ultimately show ?thesis
    using assms
    by (cases k) (auto simp: handleTrackChunk_def processAudioChunk_def processVideoChunk_def merge_def
        lane_accessors media_type_def publishChunk_def split: prod.split)
qed

lemma handle_config:
  assumes "track_of k p = Some own" "track_of (other_kind k) p = Some oth"
  shows "handleTrackChunk (se_chunk k d) p = (make_ready k p, [se_chunk k d])"
proof -
  have "p\<lparr>audioConfigReady := True\<rparr> = p" if "audioConfigReady p" using that by (cases p) simp
  moreover have "p\<lparr>videoConfigReady := True\<rparr> = p" if "videoConfigReady p" using that by (cases p) simp
  ultimately show ?thesis
    using assms by (cases k) (auto simp: handleTrackChunk_def lane_accessors se_chunk_def publishChunk_def
        setAudioConfigReady_def setVideoConfigReady_def)
qed

lemma upd_track_put:
  assumes "track_of k p = Some own" "track_of (other_kind k) p = Some oth"
  shows "upd_track k f p = put_tracks k (f own) oth p"
    and "upd_track k f (put_tracks k own' oth' p) = put_tracks k (f own') oth' p"
    and "put_tracks k own1 oth1 (put_tracks k own2 oth2 p) = put_tracks k own1 oth1 p"
    and "make_ready k (put_tracks k own1 oth1 p) = put_tracks k own1 oth1 (make_ready k p)"
    and "put_tracks k own1 oth1 p\<lparr>sharedState := s\<rparr> = put_tracks k own1 oth1 (p\<lparr>sharedState := s\<rparr>)"
    and "put_tracks k own oth p = p"
    and "ready_of k p \<Longrightarrow> make_ready k p = p"
  using assms by (cases k; cases p; simp add: upd_track_def lane_accessors)+

lemma kind_merge:
  "kind own = k \<Longrightarrow> merge r c own oth = (own', oth', out) \<Longrightarrow> kind own' = k"
  by (auto simp: merge_def drain_eq Let_def enqueue_def split: if_splits)

lemma direct_env_simps [simp]:
  "getTrack (direct_env k) (p, out) = the (track_of k p)"
  "updTrack (direct_env k) f (p, out) = (upd_track k f p, out)"
  "getTrackState (direct_env k) (p, out) = sharedState p"
  "updTrackState (direct_env k) g (p, out) = (p\<lparr>sharedState := g (sharedState p)\<rparr>, out)"
  "emitTrackChunk (direct_env k) c (p, out) = (fst (handleTrackChunk c p), out @ snd (handleTrackChunk c p))"
  "trackLogError (direct_env k) e w = w"
  by (simp_all add: direct_env_def split_beta)

lemma processor_output_eq:
  assumes own: "track_of k p = Some own" "kind own = k" and oth: "track_of (other_kind k) p = Some oth"
    and ready: "ready_of k p \<longleftrightarrow> decoderConfig own \<noteq> None" "ready_of k p \<or> desc = Some d"
      "ready_of k p \<longrightarrow> decoderConfig own = Some d"
    and copy: "ecCopy ec = Inr bytes"
    and ts: "calculateTimestamp (ecTimestamp ec) (sharedState p) = (ts, s)"
    and m: "merge (ready_of (other_kind k) p) (media_chunk k ec ts) (own\<lparr>decoderConfig := Some d\<rparr>) oth
        = (own', oth', out)"
  shows "processor_output k ec desc p =
    (put_tracks k (own'\<lparr>lastTimestamp := ts\<rparr>) oth' ((make_ready k p)\<lparr>sharedState := s\<rparr>),
     (if ready_of k p then [] else [se_chunk k d]) @ out)"
proof -
  let ?E = "direct_env k" and ?own = "own\<lparr>decoderConfig := Some d\<rparr>"
  let ?se = "if ready_of k p then [] else [se_chunk k d]"
  let ?p = "put_tracks k ?own oth (make_ready k p)"
  have chunk: "\<lparr>chunkType = media_type k, chunkData = bytes, timestamp = ts, isKey = ecKey ec\<rparr>
      = media_chunk k ec ts"
    using copy by (simp add: media_chunk_def)
  have p1: "(case desc of None \<Rightarrow> (p, []) | Some d \<Rightarrow> set_decoderConfig ?E d (p, [])) = (?p, ?se)"
  proof (cases "ready_of k p")
    case True
    then have "own\<lparr>decoderConfig := Some d\<rparr> = own" using ready(3) by (cases own) simp
    then have "?p = p" using True own oth by (simp add: upd_track_put [OF own(1) oth])
    then show ?thesis
      using True own oth ready(1) by (auto simp: set_decoderConfig_def direct_env_def split: option.split)
  next
    case False
    have g: "track_of k (put_tracks k ?own oth p) = Some ?own"
      "track_of (other_kind k) (put_tracks k ?own oth p) = Some oth" by simp_all
    show ?thesis
      using False ready own
      by (simp add: set_decoderConfig_def direct_env_def upd_track_put [OF own(1) oth] handle_config [OF g])
  qed
  let ?q = "?p\<lparr>sharedState := s\<rparr>"
  have g: "track_of k ?q = Some ?own" "track_of (other_kind k) ?q = Some oth" "ready_of k ?q"
    by simp_all
  have r: "ready_of (other_kind k) ?q = ready_of (other_kind k) p"
    by (cases k) (simp_all add: other_kind_def)
  have mt: "chunkType (media_chunk k ec ts) = media_type k" by (simp add: media_chunk_def)
  have h: "handleTrackChunk (media_chunk k ec ts) ?q = (put_tracks k own' oth' ?q, out)"
    unfolding handle_media [OF g mt] r m by simp
  have q: "put_tracks k own' oth' ?q = put_tracks k own' oth' ((make_ready k p)\<lparr>sharedState := s\<rparr>)"
    "upd_track k f (put_tracks k own' oth' p') = put_tracks k (f own') oth' p'" for f p'
    by (cases k; simp add: lane_accessors upd_track_def)+
  have kd: "kind (the (track_of k ?q)) = k" "sharedState ?p = sharedState p"
    using own by simp_all
  show ?thesis
    using own(1) h q(1)
    by (simp add: processor_output_def handleOutput_def p1 copy ts kd own(2) chunk q(2) Let_def)
qed

subsection \<open>A whole recording\<close>

definition last_time :: "chunk list \<Rightarrow> rat" where
  "last_time cs = (if cs = [] then 0 else timestamp (last cs))"

definition recording_inv :: "track_kind \<Rightarrow> 'cfg processor \<Rightarrow> chunk list \<Rightarrow> chunk list \<Rightarrow> bool" where
  "recording_inv k p pub recv \<longleftrightarrow>
     (\<exists>own oth. let l = other_kind k; mine = of_type (media_type k); theirs = of_type (media_type l) in
        track_of k p = Some own \<and> track_of l p = Some oth \<and>
        lane k (ready_of k p) own (reached (ready_of l p) oth) \<and>
        lane l (ready_of l p) oth (reached (ready_of k p) own) \<and>
        published_ok (min (reached (ready_of k p) own) (reached (ready_of l p) oth)) pub \<and>
        mine pub @ queue own = mine recv \<and> theirs pub @ queue oth = theirs recv \<and>
        lastTimestamp own = last_time (mine recv) \<and> lastTimestamp oth = last_time (theirs recv) \<and>
        (ready_of k p \<longleftrightarrow> mine recv \<noteq> []) \<and> (ready_of l p \<longleftrightarrow> theirs recv \<noteq> []))"

lemma other_other [simp]: "other_kind (other_kind k) = k"
  by (cases k) (simp_all add: other_kind_def)

lemma other_kind_neq [simp]: "other_kind k \<noteq> k" "k \<noteq> other_kind k"
  by (cases k; simp add: other_kind_def)+

lemma recording_inv_other: "recording_inv k p pub recv \<Longrightarrow> recording_inv (other_kind k) p pub recv"
  by (auto simp: recording_inv_def Let_def min.commute)

lemma type_se [simp]: "chunkType (se_chunk k' d) \<noteq> media_type k"
  by (cases k; cases k') (simp_all add: se_chunk_def media_type_def)

lemma timestamp_se [simp]: "timestamp (se_chunk k d) = 0"
  by (cases k) (simp_all add: se_chunk_def)

lemma timestamp_media [simp]: "timestamp (media_chunk k ec ts) = ts"
  "chunkType (media_chunk k ec ts) = media_type k"
  by (simp_all add: media_chunk_def)

lemma recording_step:
  assumes inv: "recording_inv k p pub recv"
    and ts: "calculateTimestamp (ecTimestamp ec) (sharedState p) = (ts, s)"
    and le: "last_time (of_type (media_type k) recv) \<le> ts"
    and copy: "ecCopy ec = Inr bytes"
    and cfg: "of_type (media_type k) recv \<noteq> [] \<or> desc \<noteq> None"
  shows "recording_inv k (fst (processor_output k ec desc p))
      (pub @ snd (processor_output k ec desc p)) (recv @ [media_chunk k ec ts])
    \<and> sharedState (fst (processor_output k ec desc p)) = s"
proof -
  let ?c = "media_chunk k ec ts" and ?l = "other_kind k"
  let ?mine = "of_type (media_type k)" and ?theirs = "of_type (media_type (other_kind k))"
  obtain own oth where own: "track_of k p = Some own" and oth: "track_of ?l p = Some oth"
    and lane: "lane k (ready_of k p) own (reached (ready_of ?l p) oth)"
      "lane ?l (ready_of ?l p) oth (reached (ready_of k p) own)"
    and pub: "published_ok (min (reached (ready_of k p) own) (reached (ready_of ?l p) oth)) pub"
    and fifo: "?mine pub @ queue own = ?mine recv" "?theirs pub @ queue oth = ?theirs recv"
    and last: "lastTimestamp own = last_time (?mine recv)" "lastTimestamp oth = last_time (?theirs recv)"
    and started: "ready_of k p \<longleftrightarrow> ?mine recv \<noteq> []" "ready_of ?l p \<longleftrightarrow> ?theirs recv \<noteq> []"
    using inv unfolding recording_inv_def Let_def by (elim exE conjE) (rule that; assumption)
  have ko: "kind own = k" using lane by (simp add: lane_def)
  obtain d where d: "ready_of k p \<or> desc = Some d" "ready_of k p \<longrightarrow> decoderConfig own = Some d"
    using cfg started lane by (cases "ready_of k p") (auto simp: lane_def)
  have rd: "ready_of k p \<longleftrightarrow> decoderConfig own \<noteq> None" using lane by (simp add: lane_def)
  define se where "se = (if ready_of k p then [] else [se_chunk k d])"
  have se: "\<forall>c \<in> set se. timestamp c = 0" "ready_of k p \<longrightarrow> se = []" by (auto simp: se_def)
  have se_type: "?mine se = []" "?theirs se = []" by (simp_all add: se_def)
  have c: "chunkType ?c = media_type k" "lastTimestamp own \<le> timestamp ?c" using le last by simp_all
  obtain own' oth' out where m: "merge (ready_of ?l p) ?c (own\<lparr>decoderConfig := Some d\<rparr>) oth = (own', oth', out)"
    by (metis prod_cases3)
  note po = processor_output_eq [OF own ko oth rd d copy ts m, folded se_def]
  let ?own = "own'\<lparr>lastTimestamp := ts\<rparr>"
  have rl: "ready_of ?l (make_ready k p\<lparr>sharedState := s\<rparr>) = ready_of ?l p"
    by (cases k) (simp_all add: other_kind_def)
  have "lane k True ?own (reached (ready_of ?l p) oth') \<and> lane ?l (ready_of ?l p) oth' (reached True ?own) \<and>
      published_ok (min (reached True ?own) (reached (ready_of ?l p) oth')) (pub @ se @ out) \<and>
      ?mine (pub @ se @ out) @ queue own' = ?mine (recv @ [?c]) \<and>
      ?theirs (pub @ se @ out) @ queue oth' = ?theirs (recv @ [?c]) \<and> lastTimestamp oth' = lastTimestamp oth"
  proof (cases "ready_of ?l p")
    case False
    have o: "reached (ready_of ?l p) oth = - 1" using False by (simp add: reached_def)
    have mm: "own' = enqueue ?c (own\<lparr>decoderConfig := Some d\<rparr>)" "oth' = oth" "out = []"
      using m False by (simp_all add: merge_def)
    note mr = merge_not_ready [OF lane(1) [unfolded o] lane(2) [unfolded Eq_FalseI [OF False]]
        pub [unfolded o] c se, of d]
    show ?thesis
      using mr fifo False se_type unfolding mm by (simp add: reached_def enqueue_def)
  next
    case True
    have mm: "oth' = oth\<lparr>queue := dropWhile (\<lambda>e. timestamp e \<le> ts) (queue oth)\<rparr>"
      "own' = (if ts \<le> lastTimestamp oth then own\<lparr>decoderConfig := Some d\<rparr>
        else enqueue ?c (own\<lparr>decoderConfig := Some d\<rparr>))"
      "out = takeWhile (\<lambda>e. timestamp e \<le> ts) (queue oth) @ (if ts \<le> lastTimestamp oth then [?c] else [])"
      using m True by (auto simp: merge_def drain_eq split: if_splits)
    note pre = lane [unfolded Eq_TrueI [OF True]] pub [unfolded Eq_TrueI [OF True]] c se
    note mr = merge_ready(1-3) [OF pre, of d] and direct = merge_ready(4) [OF pre]
    have tw: "\<forall>e \<in> set (takeWhile (\<lambda>e. timestamp e \<le> ts) (queue oth)). chunkType e = media_type ?l"
      using lane(2) by (auto simp: lane_def dest: set_takeWhileD)
    have o: "?mine out = (if ts \<le> lastTimestamp oth then [?c] else [])"
      "?theirs out = takeWhile (\<lambda>e. timestamp e \<le> ts) (queue oth)"
      by (simp_all add: mm(3) of_type_all [OF tw])
    have "?mine (pub @ se @ out) @ queue own' = ?mine (recv @ [?c])"
      using fifo(1) direct by (auto simp: o se_type mm(2) enqueue_def)
    moreover have "?theirs (pub @ se @ out) @ queue oth' = ?theirs (recv @ [?c])"
      using fifo(2) by (simp add: o se_type mm(1))
    moreover have eqs: "(if ts \<le> lastTimestamp oth then own\<lparr>decoderConfig := Some d\<rparr>
        else enqueue ?c (own\<lparr>decoderConfig := Some d\<rparr>))\<lparr>lastTimestamp := ts\<rparr> = ?own"
      "(if ts \<le> lastTimestamp oth then takeWhile (\<lambda>e. timestamp e \<le> ts) (queue oth) @ [?c]
        else takeWhile (\<lambda>e. timestamp e \<le> ts) (queue oth)) = out"
      "oth\<lparr>queue := dropWhile (\<lambda>e. timestamp e \<le> ts) (queue oth)\<rparr> = oth'"
      by (simp_all add: mm)
    moreover note mr [unfolded timestamp_media(1) eqs]
    moreover have "lastTimestamp oth' = lastTimestamp oth" by (simp add: mm(1))
    ultimately show ?thesis
      unfolding Eq_TrueI [OF True] by - (intro conjI; assumption)
  qed
  then have "recording_inv k (put_tracks k ?own oth' (make_ready k p\<lparr>sharedState := s\<rparr>)) (pub @ se @ out)
      (recv @ [?c])"
    using last started unfolding recording_inv_def Let_def
    by (rule_tac x = ?own in exI, rule_tac x = oth' in exI) (simp add: rl last_time_def)
  then show ?thesis unfolding po by simp
qed

type_synonym enc_output = "track_kind \<times> encoded_chunk \<times> bytes option"

definition step_output :: "'cfg processor \<times> chunk list \<Rightarrow> enc_output \<Rightarrow> 'cfg processor \<times> chunk list" where
  "step_output = (\<lambda>(p, pub) (k, ec, desc). let (p, cs) = processor_output k ec desc p in (p, pub @ cs))"

definition run_outputs :: "enc_output list \<Rightarrow> 'cfg processor \<Rightarrow> 'cfg processor \<times> chunk list" where
  "run_outputs xs p = foldl step_output (p, []) xs"

definition raw_times :: "enc_output list \<Rightarrow> rat list" where
  "raw_times xs = map (\<lambda>(k, ec, desc). ecTimestamp ec) xs"

definition received :: "enc_output list \<Rightarrow> track_state \<Rightarrow> chunk list" where
  "received xs s = map2 (\<lambda>(k, ec, desc) ts. media_chunk k ec ts) xs (fst (stamps (raw_times xs) s))"

text \<open>
  What an encoder delivers: time stamps in order, no failing copy, and the decoder
  configuration with the first chunk.
\<close>

definition ordered_lane :: "track_kind \<Rightarrow> enc_output list \<Rightarrow> bool" where
  "ordered_lane k xs \<longleftrightarrow>
     (let ys = filter (\<lambda>(k', _, _). k' = k) xs
      in sorted (raw_times ys) \<and> (\<forall>(_, ec, _) \<in> set ys. \<exists>data. ecCopy ec = Inr data) \<and>
         (case ys of [] \<Rightarrow> True | (_, _, desc) # _ \<Rightarrow> desc \<noteq> None))"

definition fresh_track :: "track_kind \<Rightarrow> 'cfg processor \<Rightarrow> bool" where
  "fresh_track k p \<longleftrightarrow> \<not> ready_of k p \<and>
     (\<exists>t. track_of k p = Some t \<and> kind t = k \<and> queue t = [] \<and> lastTimestamp t = 0 \<and> decoderConfig t = None)"

lemma stamps_append:
  "stamps (xs @ ys) s = (let (a, s) = stamps xs s; (b, s) = stamps ys s in (a @ b, s))"
  by (induction xs arbitrary: s) (simp_all add: split_beta Let_def)

lemma raw_times_append [simp]: "raw_times (xs @ ys) = raw_times xs @ raw_times ys"
  by (simp add: raw_times_def)

lemma length_raw_times [simp]: "length (raw_times xs) = length xs"
  by (simp add: raw_times_def)

lemma received_snoc:
  assumes "stamps (raw_times xs) s = (stampd, s')" "calculateTimestamp (ecTimestamp ec) s' = (ts, s'')"
  shows "received (xs @ [(k, ec, desc)]) s = received xs s @ [media_chunk k ec ts]"
    and "snd (stamps (raw_times (xs @ [(k, ec, desc)])) s) = s''"
proof -
  have "length stampd = length xs" using assms(1) length_stamps [of "raw_times xs" s] by simp
  then show "received (xs @ [(k, ec, desc)]) s = received xs s @ [media_chunk k ec ts]"
    "snd (stamps (raw_times (xs @ [(k, ec, desc)])) s) = s''"
    using assms by (simp_all add: received_def raw_times_def stamps_append)
qed

lemma last_of_type:
  assumes "of_type ty (map2 f xs ys) \<noteq> []" "length xs = length ys"
  shows "\<exists>i < length xs. last (of_type ty (map2 f xs ys)) = f (xs ! i) (ys ! i) \<and> chunkType (f (xs ! i) (ys ! i)) = ty"
proof -
  have "last (of_type ty (map2 f xs ys)) \<in> set (of_type ty (map2 f xs ys))"
    using assms(1) by (rule last_in_set)
  then show ?thesis using assms(2) by (auto simp: of_type_def in_set_zip)
qed

lemma last_time_le:
  assumes lane: "ordered_lane k (xs @ [(k, ec, desc)])"
    and st: "stamps (raw_times xs) s = (stampd, s')" "calculateTimestamp (ecTimestamp ec) s' = (ts, s'')"
  shows "last_time (of_type (media_type k) (received xs s)) \<le> ts"
proof (cases "of_type (media_type k) (received xs s) = []")
  case True
  have "0 \<le> ts" using st(2) by (auto simp: calculateTimestamp_eq Let_def)
  then show ?thesis using True by (simp add: last_time_def)
next
  case False
  let ?f = "\<lambda>(k, ec, desc) ts. media_chunk k ec ts"
  have len: "length xs = length stampd" using st(1) length_stamps [of "raw_times xs" s] by simp
  have mt: "media_type k' = media_type k \<longleftrightarrow> k' = k" for k' by (cases k; cases k') (simp_all add: media_type_def)
  have rc: "received xs s = map2 ?f xs stampd" by (simp add: received_def st(1))
  have fx: "timestamp (?f x t) = t" "chunkType (?f x t) = media_type k \<longleftrightarrow> fst x = k" for x t
    by (simp_all add: split_beta mt)
  obtain i where i0: "i < length xs" "last (of_type (media_type k) (map2 ?f xs stampd)) = ?f (xs ! i) (stampd ! i)"
    "chunkType (?f (xs ! i) (stampd ! i)) = media_type k"
    using last_of_type [of "media_type k" ?f xs stampd] False len unfolding rc by blast
  have i: "i < length xs" "fst (xs ! i) = k"
    "timestamp (last (of_type (media_type k) (received xs s))) = stampd ! i"
    using i0 unfolding rc by (simp_all only: fx)
  let ?all = "raw_times (xs @ [(k, ec, desc)])"
  have "(raw_times (filter (\<lambda>(k', _, _). k' = k) xs)) = map (\<lambda>(k, ec, desc). ecTimestamp ec) (filter (\<lambda>x. fst x = k) xs)"
    by (simp add: raw_times_def case_prod_beta')
  then have "\<forall>x \<in> set xs. fst x = k \<longrightarrow> ecTimestamp (fst (snd x)) \<le> ecTimestamp ec"
    using lane by (fastforce simp: ordered_lane_def sorted_append raw_times_def split_beta Let_def)
  then have "ecTimestamp (fst (snd (xs ! i))) \<le> ecTimestamp ec"
    using i nth_mem [OF i(1)] by simp
  then have "?all ! i \<le> ?all ! length xs"
    using i by (simp add: nth_append raw_times_def split_beta)
  then have "fst (stamps ?all s) ! i \<le> fst (stamps ?all s) ! length xs"
    by (intro stamps_mono i) simp
  moreover have "fst (stamps ?all s) = stampd @ [ts]"
    using st by (simp add: stamps_append raw_times_def)
  ultimately show ?thesis
    using i len False by (simp add: last_time_def nth_append)
qed

lemma ordered_lane_snoc: "ordered_lane k (xs @ [x]) \<Longrightarrow> ordered_lane k xs"
  by (auto simp: ordered_lane_def Let_def sorted_append split: list.splits)

lemma received_types:
  "of_type (media_type k) (received xs s) = [] \<longleftrightarrow> filter (\<lambda>(k', _, _). k' = k) xs = []"
proof -
  have mt: "media_type k' = media_type k \<longleftrightarrow> k' = k" for k' by (cases k; cases k') (simp_all add: media_type_def)
  have "map chunkType (received xs s) = map (\<lambda>x. media_type (fst x)) xs"
    by (rule nth_equalityI) (auto simp: received_def split_beta)
  then have "chunkType ` set (received xs s) = (\<lambda>x. media_type (fst x)) ` set xs"
    by (metis list.set_map)
  then have "media_type k \<in> chunkType ` set (received xs s) \<longleftrightarrow> (\<exists>x \<in> set xs. media_type (fst x) = media_type k)"
    by (simp only: image_iff) metis
  then have "(\<exists>c \<in> set (received xs s). chunkType c = media_type k) \<longleftrightarrow> (\<exists>x \<in> set xs. fst x = k)"
    unfolding mt image_iff by metis
  then show ?thesis
    by (simp add: of_type_def filter_empty_conv split_beta) blast
qed

lemma recording_inv_any: "recording_inv k p pub recv \<Longrightarrow> recording_inv k' p pub recv"
proof (cases "k' = k")
  case False
  assume "recording_inv k p pub recv"
  moreover have "k' = other_kind k" using False by (cases k; cases k') (simp_all add: other_kind_def)
  ultimately show ?thesis by (simp add: recording_inv_other)
qed simp

lemma run_outputs_snoc:
  "run_outputs (xs @ [(k, ec, desc)]) p =
     (let (p, pub) = run_outputs xs p; (p, cs) = processor_output k ec desc p in (p, pub @ cs))"
  by (simp add: run_outputs_def step_output_def split_beta Let_def)

lemma run_outputs_inv:
  assumes fresh: "fresh_track AudioTrack p" "fresh_track VideoTrack p"
    and "\<And>k. ordered_lane k xs"
  shows "recording_inv k (fst (run_outputs xs p)) (snd (run_outputs xs p)) (received xs (sharedState p))
    \<and> sharedState (fst (run_outputs xs p)) = snd (stamps (raw_times xs) (sharedState p))"
  using assms(3)
proof (induction xs arbitrary: k rule: rev_induct)
  case Nil
  have "recording_inv AudioTrack p [] []"
    using fresh by (auto simp: fresh_track_def recording_inv_def lane_def reached_def published_ok_def
        last_time_def other_kind_def Let_def)
  then show ?case
    by (simp add: run_outputs_def received_def raw_times_def recording_inv_any)
next
  case (snoc x xs)
  obtain kx ec desc where x: "x = (kx, ec, desc)" by (metis prod_cases3)
  let ?p = "fst (run_outputs xs p)" and ?pub = "snd (run_outputs xs p)" and ?recv = "received xs (sharedState p)"
  have o: "ordered_lane k' xs" for k' using snoc.prems ordered_lane_snoc by blast
  obtain st s' where st: "stamps (raw_times xs) (sharedState p) = (st, s')" by (metis prod.collapse)
  have ih: "recording_inv kx ?p ?pub ?recv" "sharedState ?p = s'"
    using snoc.IH [OF o, of kx] st by simp_all
  obtain ts s'' where ts: "calculateTimestamp (ecTimestamp ec) s' = (ts, s'')" by (metis prod.collapse)
  have lane: "ordered_lane kx (xs @ [(kx, ec, desc)])" using snoc.prems x by simp
  have le: "last_time (of_type (media_type kx) ?recv) \<le> ts" by (rule last_time_le [OF lane st ts])
  obtain data where copy: "ecCopy ec = Inr data" using lane by (auto simp: ordered_lane_def Let_def)
  have cfg: "of_type (media_type kx) ?recv \<noteq> [] \<or> desc \<noteq> None"
    using lane by (auto simp: received_types ordered_lane_def Let_def)
  note rs = recording_step [OF ih(1) ts [folded ih(2)] le copy cfg]
  have r: "run_outputs (xs @ [x]) p
      = (fst (processor_output kx ec desc ?p), ?pub @ snd (processor_output kx ec desc ?p))"
    by (simp add: x run_outputs_snoc split_beta)
  show ?case
    using rs recording_inv_any unfolding x r [unfolded x] received_snoc [OF st ts] fst_conv snd_conv by blast
qed

text \<open>Anything the three kinds of step keep is kept by an encoder's output.\<close>

lemma processor_output_keeps:
  assumes "\<And>f q. Q q \<Longrightarrow> Q (upd_track k f q)" "\<And>s q. Q q \<Longrightarrow> Q (q\<lparr>sharedState := s\<rparr>)"
    and "\<And>c q. Q q \<Longrightarrow> Q (fst (handleTrackChunk c q))" "Q p"
  shows "Q (fst (processor_output k ec desc p))"
  using assms handleOutput_keeps [of "\<lambda>w. Q (fst w)" "direct_env k" "(p, [])" ec desc]
  by (auto simp: processor_output_def split: option.split)

lemma handleTrackChunk_control [simp]:
  "procState (fst (handleTrackChunk c p)) = procState p"
  "pending (fst (handleTrackChunk c p)) = pending p"
  by (simp_all add: handleTrackChunk_def processAudioChunk_def processVideoChunk_def Let_def split_beta
      setAudioConfigReady_def setVideoConfigReady_def split: option.split chunk_type.split)

lemma processor_output_control [simp]:
  "procState (fst (processor_output k ec desc p)) = procState p"
  "pending (fst (processor_output k ec desc p)) = pending p"
proof -
  have "procState (fst (processor_output k ec desc p)) = procState p
      \<and> pending (fst (processor_output k ec desc p)) = pending p"
    by (rule processor_output_keeps [of "\<lambda>q. procState q = procState p \<and> pending q = pending p"])
      (auto simp: upd_track_def split: track_kind.split)
  then show "procState (fst (processor_output k ec desc p)) = procState p"
    "pending (fst (processor_output k ec desc p)) = pending p" by auto
qed

lemma reset_processor_control [simp]:
  "procState (reset_processor p) = procState p" "pending (reset_processor p) = pending p"
  by (simp_all add: reset_processor_def Let_def split_beta split: option.split)

lemma processor_addTrackChunk_control [simp]:
  "procState (fst (processor_addTrackChunk k r f p)) = procState p"
  "pending (fst (processor_addTrackChunk k r f p)) = pending p"
  by (simp_all add: processor_addTrackChunk_def Let_def split_beta split: option.split track_kind.split)

subsection \<open>Calls and events in sequence\<close>

datatype processor_event =
    CallStart | CallPause | CallResume | CallStop
  | Settled nat bool
  | EncoderOutput track_kind encoded_chunk "bytes option"
  | RawFrame track_kind "js_error option" frame

fun processor_do :: "processor_event \<Rightarrow> 'cfg processor \<Rightarrow> 'cfg processor \<times> chunk list" where
  "processor_do CallStart p = (start_processor p, [])"
| "processor_do CallPause p = (pause_processor p, [])"
| "processor_do CallResume p = (resume_processor p, [])"
| "processor_do CallStop p = (stop_processor p, [])"
| "processor_do (Settled i ok) p = (settle i ok p, [])"
| "processor_do (EncoderOutput k ec desc) p = processor_output k ec desc p"
| "processor_do (RawFrame k refused f) p = (fst (processor_addTrackChunk k refused f p), [])"

text \<open>Runs in which \<open>pause\<close> and \<open>stop\<close> are called only when no earlier call is pending.\<close>

inductive sequential_run :: "'cfg processor \<Rightarrow> processor_event list \<Rightarrow> 'cfg processor \<Rightarrow> bool" where
  run_nil: "sequential_run p [] p"
| run_step: "sequential_run p evs q \<Longrightarrow> (ev \<in> {CallPause, CallStop} \<longrightarrow> pending q = []) \<Longrightarrow>
     sequential_run p (evs @ [ev]) (fst (processor_do ev q))"

inductive_cases sequential_run_snocE: "sequential_run p (evs @ [ev]) q"

definition transition :: "processor_event \<Rightarrow> recording_state \<Rightarrow> recording_state \<Rightarrow> bool" where
  "transition ev s s' \<longleftrightarrow> s' = s \<or>
     (s, s') = (Inactive, Recording) \<and> ev = CallStart \<or>
     (s, s') = (Paused, Recording) \<and> ev = CallResume \<or>
     (s, s') \<in> {(Recording, Paused), (Recording, Inactive)} \<and> (\<exists>i. ev = Settled i True)"

definition control_ok :: "'cfg processor \<Rightarrow> bool" where
  "control_ok p \<longleftrightarrow> length (pending p) \<le> 1 \<and> (pending p \<noteq> [] \<longrightarrow> procState p = Recording)"

lemmas control_defs = start_processor_def resume_processor_def pause_processor_def
  stop_processor_def begin_flush_def settle_def finish_job_def

lemma settle_first:
  "pending p = (j, w) # rest \<Longrightarrow> settle 0 ok p =
     (if \<not> ok then p\<lparr>pending := rest\<rparr>
      else case w of
             AwaitAudio \<Rightarrow> p\<lparr>videoEncoderTrack := flush_field (videoEncoderTrack p),
                             pending := (j, AwaitVideo) # rest\<rparr>
           | AwaitVideo \<Rightarrow> finish_job j (p\<lparr>pending := rest\<rparr>))"
  by (simp add: settle_def remove_nth_def split: await.split)

lemma settle_twice:
  assumes "pending p = (j, AwaitAudio) # rest"
  shows "settle 0 True (settle 0 True p)
    = finish_job j (p\<lparr>videoEncoderTrack := flush_field (videoEncoderTrack p), pending := rest\<rparr>)"
proof -
  let ?q = "p\<lparr>videoEncoderTrack := flush_field (videoEncoderTrack p), pending := (j, AwaitVideo) # rest\<rparr>"
  have "settle 0 True p = ?q" using settle_first [OF assms] by simp
  moreover have "pending ?q = (j, AwaitVideo) # rest" by simp
  ultimately show ?thesis using settle_first [of ?q j AwaitVideo rest True] by simp
qed

lemma settle_beyond: "length (pending p) \<le> i \<Longrightarrow> settle i ok p = p"
  by (simp add: settle_def)

lemma finish_job_control [simp]:
  "procState (finish_job j p) = (case j of PauseJob \<Rightarrow> Paused | StopJob \<Rightarrow> Inactive)"
  "pending (finish_job j p) = pending p"
  by (simp_all add: finish_job_def split: job.split)

lemma control_settle:
  assumes "control_ok p"
  shows "control_ok (settle i ok p) \<and> transition (Settled i ok) (procState p) (procState (settle i ok p))"
proof (cases "i < length (pending p)")
  case True
  then obtain j w where p: "pending p = [(j, w)]" and i: "i = 0"
    using assms by (cases "pending p") (auto simp: control_ok_def)
  then show ?thesis
    using assms settle_first [OF p, of ok]
    by (cases w; cases j) (auto simp: control_ok_def transition_def)
next
  case False
  then show ?thesis using assms by (simp add: settle_beyond transition_def)
qed

lemma control_step:
  assumes "control_ok p" "ev \<in> {CallPause, CallStop} \<longrightarrow> pending p = []"
  shows "control_ok (fst (processor_do ev p)) \<and> transition ev (procState p) (procState (fst (processor_do ev p)))"
proof (cases ev)
  case (Settled i ok)
  then show ?thesis using control_settle [OF assms(1)] by simp
qed (use assms in \<open>auto simp: control_ok_def transition_def control_defs\<close>)

lemma control_run:
  assumes "sequential_run p evs q" "pending p = []"
  shows "control_ok q"
  using assms
proof (induction rule: sequential_run.induct)
  case (run_nil p)
  then show ?case by (simp add: control_ok_def)
next
  case (run_step p evs q ev)
  then show ?case using control_step by blast
qed



text \<open>
  Both guards are evaluated before the flush is awaited, so overlapping calls break the
  state machine: when \<open>stop\<close> and \<open>pause\<close> are both called while recording, the stop
  completes first and makes the processor inactive, and then the pause makes it paused. The
  processor is then paused without a recording, with its configuration reset, and \<open>start\<close>
  does nothing.
\<close>

theorem overlapping_stop_and_pause:
  assumes "procState p = Recording" and "pending p = []"
  shows "let p1 = pause_processor (stop_processor p);
             p2 = settle 0 True (settle 0 True p1);
             p3 = settle 0 True (settle 0 True p2)
         in procState p2 = Inactive \<and> procState p3 = Paused \<and> pending p3 = [] \<and>
            \<not> audioConfigReady p3 \<and> \<not> videoConfigReady p3 \<and> start_processor p3 = p3"
proof -
  let ?p1 = "pause_processor (stop_processor p)"
  let ?p2 = "settle 0 True (settle 0 True ?p1)"
  have p1: "pending ?p1 = [(StopJob, AwaitAudio), (PauseJob, AwaitAudio)]"
    using assms by (simp add: pause_processor_def stop_processor_def begin_flush_def)
  note q = settle_twice [OF p1]
  have p2: "pending ?p2 = [(PauseJob, AwaitAudio)]" unfolding q by simp
  note p3 = settle_twice [OF p2]
  have "\<not> audioConfigReady ?p2 \<and> \<not> videoConfigReady ?p2"
    unfolding q by (simp add: finish_job_def reset_processor_def Let_def split_beta split: option.split)
  moreover have "procState ?p2 = Inactive" unfolding q by simp
  ultimately show ?thesis
    unfolding Let_def p3 by (simp add: start_processor_def finish_job_def)
qed

theorem overlapping_stop_and_pause_witness:
  "\<exists>p3 :: unit processor. procState p3 = Paused \<and> start_processor p3 = p3"
proof -
  let ?p = "start_processor (new_StreamProcessor :: unit processor)"
  have "procState ?p = Recording" "pending ?p = []"
    by (simp_all add: new_StreamProcessor_def start_processor_def)
  from overlapping_stop_and_pause [OF this] show ?thesis unfolding Let_def by blast
qed

subsection \<open>Properties of the interleaving\<close>

text \<open>
  C7. The interleaving is a correct merge. For two tracks that have not produced anything yet
  and encoders that deliver their chunks in order of time (in any interleaving of the two),
  everything published, configuration chunks included, is in order of the relative time; for
  each track, what was published followed by what is still queued is exactly what the encoder
  delivered, in its order; and once both tracks have delivered, a chunk is held back only
  while it is later than everything the other track has delivered.
\<close>

theorem published_in_order:
  assumes "fresh_track AudioTrack p" and "fresh_track VideoTrack p"
    and "ordered_lane AudioTrack xs" and "ordered_lane VideoTrack xs"
    and "run_outputs xs p = (q, pub)" and "recv = received xs (sharedState p)"
  shows "sorted (map timestamp pub) \<and>
    (\<forall>k. \<exists>own oth. track_of k q = Some own \<and> track_of (other_kind k) q = Some oth \<and>
       of_type (media_type k) pub @ queue own = of_type (media_type k) recv \<and>
       (of_type (media_type (other_kind k)) recv \<noteq> [] \<longrightarrow>
          (\<forall>c \<in> set (queue own). lastTimestamp oth < timestamp c)))"
proof -
  have o: "ordered_lane k xs" for k using assms(3,4) by (cases k) auto
  have inv: "recording_inv k q pub recv" for k
    using run_outputs_inv [OF assms(1,2) o, of k] assms(5,6) by simp
  have "sorted (map timestamp pub)"
    using inv [of AudioTrack] by (auto simp: recording_inv_def published_ok_def Let_def)
  moreover have "\<exists>own oth. track_of k q = Some own \<and> track_of (other_kind k) q = Some oth \<and>
       of_type (media_type k) pub @ queue own = of_type (media_type k) recv \<and>
       (of_type (media_type (other_kind k)) recv \<noteq> [] \<longrightarrow>
          (\<forall>c \<in> set (queue own). lastTimestamp oth < timestamp c))" for k
  proof -
    obtain own oth where "track_of k q = Some own" "track_of (other_kind k) q = Some oth"
      "of_type (media_type k) pub @ queue own = of_type (media_type k) recv"
      and l: "lane k (ready_of k q) own (reached (ready_of (other_kind k) q) oth)"
        "ready_of (other_kind k) q \<longleftrightarrow> of_type (media_type (other_kind k)) recv \<noteq> []"
      using inv [of k] unfolding recording_inv_def Let_def by (elim exE conjE) (rule that; assumption)
    moreover have "\<forall>c \<in> set (queue own). lastTimestamp oth < timestamp c"
      if "of_type (media_type (other_kind k)) recv \<noteq> []"
      using l that by (simp add: lane_def reached_def)
    ultimately show ?thesis by blast
  qed
  ultimately show ?thesis by blast
qed

definition demo_processor :: "unit processor" where
  "demo_processor = new_StreamProcessor\<lparr>
     audioEncoderTrack := Some \<lparr>kind = AudioTrack, config = (), queue = [], encoder = Some [],
       lastTimestamp = 0, decoderConfig = None, frameCount = 0, keyframeInterval = None\<rparr>,
     videoEncoderTrack := Some \<lparr>kind = VideoTrack, config = (), queue = [], encoder = Some [],
       lastTimestamp = 0, decoderConfig = None, frameCount = 0, keyframeInterval = None\<rparr>\<rparr>"

definition demo_outputs :: "enc_output list" where
  "demo_outputs =
     [(VideoTrack, \<lparr>ecTimestamp = 1000, ecKey = True, ecCopy = Inr [1]\<rparr>, Some [7]),
      (VideoTrack, \<lparr>ecTimestamp = 41000, ecKey = False, ecCopy = Inr [2]\<rparr>, None),
      (AudioTrack, \<lparr>ecTimestamp = 21000, ecKey = True, ecCopy = Inr [3]\<rparr>, Some [8])]"

theorem published_in_order_witness:
  "sorted (map timestamp (snd (run_outputs demo_outputs demo_processor)))"
proof -
  have "fresh_track AudioTrack demo_processor" "fresh_track VideoTrack demo_processor"
    by (simp_all add: fresh_track_def demo_processor_def lane_accessors new_StreamProcessor_def)
  moreover have "ordered_lane AudioTrack demo_outputs" "ordered_lane VideoTrack demo_outputs"
    by (simp_all add: ordered_lane_def demo_outputs_def raw_times_def)
  ultimately show ?thesis
    using published_in_order [of demo_processor demo_outputs
        "fst (run_outputs demo_outputs demo_processor)" "snd (run_outputs demo_outputs demo_processor)"]
    by simp
qed

definition queued :: "'cfg processor \<Rightarrow> chunk list" where
  "queued p = concat (map (\<lambda>t. case t of None \<Rightarrow> [] | Some t \<Rightarrow> queue t)
                       [audioEncoderTrack p, videoEncoderTrack p])"

lemma drain_mset: "mset (snd (drain ts t)) + mset (queue (fst (drain ts t))) = mset (queue t)"
  unfolding drain_eq fst_conv snd_conv
  by (simp flip: mset_append)

lemma handleTrackChunk_mset:
  "mset (snd (handleTrackChunk c p)) + mset (queued (fst (handleTrackChunk c p)))
     = add_mset c (mset (queued p))"
proof (cases "audioEncoderTrack p")
  case None
  then show ?thesis by (simp add: handleTrackChunk_def queued_def publishChunk_def)
next
  case (Some a)
  show ?thesis
  proof (cases "videoEncoderTrack p")
    case None
    then show ?thesis using Some by (simp add: handleTrackChunk_def queued_def publishChunk_def)
  next
    case v: (Some v)
    have q: "queued p = queue a @ queue v" using Some v by (simp add: queued_def)
    show ?thesis
      using Some v drain_mset [of "timestamp c" a, symmetric] drain_mset [of "timestamp c" v, symmetric]
      by (cases "chunkType c")
        (simp_all add: q handleTrackChunk_def publishChunk_def setAudioConfigReady_def setVideoConfigReady_def
          processAudioChunk_def processVideoChunk_def split_beta queued_def enqueue_def Let_def)
  qed
qed

text \<open>
  No chunk is lost or duplicated between the encoders and the muxer: whatever state the
  processor is in, what \<open>handleTrackChunk\<close> publishes together with what is queued afterwards
  is exactly the new chunk together with what was queued before.
\<close>

theorem chunks_are_conserved:
  "mset (snd (handleTrackChunk c p)) + mset (queued (fst (handleTrackChunk c p)))
     = add_mset c (mset (queued p))"
  by (rule handleTrackChunk_mset)

lemma reset_keeps_queues:
  "audioEncoderTrack p = Some a \<Longrightarrow> \<exists>a'. audioEncoderTrack (reset_processor p) = Some a' \<and> queue a' = queue a"
  "videoEncoderTrack p = Some v \<Longrightarrow> \<exists>v'. videoEncoderTrack (reset_processor p) = Some v' \<and> queue v' = queue v"
proof -
  have "queue (fst (reset_track t s)) = queue t" for t :: "'a track" and s
    by (simp add: reset_track_def base_reset_def split: track_kind.split)
  then show "audioEncoderTrack p = Some a \<Longrightarrow> \<exists>a'. audioEncoderTrack (reset_processor p) = Some a' \<and> queue a' = queue a"
    "videoEncoderTrack p = Some v \<Longrightarrow> \<exists>v'. videoEncoderTrack (reset_processor p) = Some v' \<and> queue v' = queue v"
    by (auto simp: reset_processor_def Let_def split_beta split: option.split)
qed

text \<open>
  \<open>stop\<close> does not empty the queues. Chunks of a recording that were still waiting when it
  was stopped are published in the next recording: as soon as both configurations of the new
  recording have arrived and an audio chunk \<open>c\<close> of a later time comes in, the video chunks
  left over are published before it (with the times of the old recording).
\<close>

theorem stale_chunks_enter_the_next_recording:
  assumes "audioEncoderTrack p = Some a" and "videoEncoderTrack p = Some v"
    and "chunkType c = AAC_RAW" and "\<forall>d \<in> set (queue v). timestamp d \<le> timestamp c"
  shows "let p1 = start_processor (finish_job StopJob p);
             p2 = fst (handleTrackChunk (se_chunk AudioTrack da) p1);
             p3 = fst (handleTrackChunk (se_chunk VideoTrack dv) p2)
         in procState p3 = Recording \<and> (\<exists>rest. snd (handleTrackChunk c p3) = queue v @ rest)"
proof -
  let ?p1 = "start_processor (finish_job StopJob p)"
  let ?p2 = "make_ready AudioTrack ?p1" and ?p3 = "make_ready VideoTrack (make_ready AudioTrack ?p1)"
  obtain a' v' where t: "track_of AudioTrack ?p1 = Some a'" "track_of VideoTrack ?p1 = Some v'"
    and v': "queue v' = queue v"
    using reset_keeps_queues(1) [OF assms(1)] reset_keeps_queues(2) [OF assms(2)]
    by (auto simp: track_of_def start_processor_def finish_job_def)
  have o: "other_kind AudioTrack = VideoTrack" "other_kind VideoTrack = AudioTrack"
    by (simp_all add: other_kind_def)
  have 2: "handleTrackChunk (se_chunk AudioTrack da) ?p1 = (?p2, [se_chunk AudioTrack da])"
    by (rule handle_config) (use t o in simp_all)
  have 3: "handleTrackChunk (se_chunk VideoTrack dv) ?p2 = (?p3, [se_chunk VideoTrack dv])"
    by (rule handle_config) (use t o in simp_all)
  have tw: "takeWhile (\<lambda>d. timestamp d \<le> timestamp c) (queue v) = queue v"
    using assms(4) by (simp add: takeWhile_eq_all_conv)
  have "\<exists>rest. snd (handleTrackChunk c ?p3) = queue v @ rest"
    using handle_media [of AudioTrack ?p3 a' v' c] t assms(3) v'
    by (simp add: o media_type_def merge_def drain_eq split_beta tw)
  moreover have "procState ?p3 = Recording"
    by (simp add: make_ready_def start_processor_def)
  ultimately show ?thesis by (simp only: Let_def 2 3 fst_conv)
qed

theorem stale_chunks_enter_the_next_recording_witness:
  "\<exists>rest. snd (handleTrackChunk (media_chunk AudioTrack \<lparr>ecTimestamp = 0, ecKey = True, ecCopy = Inr [9]\<rparr> 90)
     (fst (handleTrackChunk (se_chunk VideoTrack [2]) (fst (handleTrackChunk (se_chunk AudioTrack [1])
       (start_processor (finish_job StopJob (demo_processor\<lparr>videoEncoderTrack :=
         map_option (enqueue (se_chunk VideoTrack [5])) (videoEncoderTrack demo_processor)\<rparr>))))))))
   = se_chunk VideoTrack [5] # rest"
proof -
  let ?v = "enqueue (se_chunk VideoTrack [5]) (the (videoEncoderTrack demo_processor))"
  let ?c = "media_chunk AudioTrack \<lparr>ecTimestamp = 0, ecKey = True, ecCopy = Inr [9]\<rparr> 90"
  let ?p = "demo_processor\<lparr>videoEncoderTrack := map_option (enqueue (se_chunk VideoTrack [5])) (videoEncoderTrack demo_processor)\<rparr>"
  obtain a where "audioEncoderTrack ?p = Some a" by (simp add: demo_processor_def)
  moreover have "videoEncoderTrack ?p = Some ?v" and q: "queue ?v = [se_chunk VideoTrack [5]]"
    by (simp_all add: demo_processor_def enqueue_def)
  moreover have "chunkType ?c = AAC_RAW" by (simp add: media_type_def)
  ultimately have "\<exists>rest. snd (handleTrackChunk ?c
     (fst (handleTrackChunk (se_chunk VideoTrack [2]) (fst (handleTrackChunk (se_chunk AudioTrack [1])
       (start_processor (finish_job StopJob ?p))))))) = queue ?v @ rest"
    using stale_chunks_enter_the_next_recording [of ?p a ?v ?c "[1]" "[2]"] by (simp add: Let_def)
  then show ?thesis unfolding q by simp
qed

end
