(* ===== verification/Quiet_Control.thy ===== *)
theory Quiet_Control
  imports Stream_Processor
begin

section \<open>What pausing and feeding an encoder leave alone\<close>

text \<open>
  Pausing, resuming and handing raw frames to the encoders change the state of \<open>StreamProcessor\<close> (its
  recording state, its pending promises, the calls made on the encoders and the frame counter), but
  nothing the publishing of chunks depends on. \<open>calm\<close> is the processor without these parts.
\<close>

definition calm_track :: "'cfg track \<Rightarrow> 'cfg track" where
  "calm_track t = t\<lparr>encoder := None, frameCount := 0\<rparr>"

definition calm :: "'cfg processor \<Rightarrow> 'cfg processor" where
  "calm p = p\<lparr>procState := Recording, pending := [], audioEncoderTrack := map_option calm_track (audioEncoderTrack p),
     videoEncoderTrack := map_option calm_track (videoEncoderTrack p)\<rparr>"

lemma calm_track_fields [simp]:
  "kind (calm_track t) = kind t" "queue (calm_track t) = queue t" "lastTimestamp (calm_track t) = lastTimestamp t"
  "decoderConfig (calm_track t) = decoderConfig t" "calm_track (t\<lparr>queue := q\<rparr>) = (calm_track t)\<lparr>queue := q\<rparr>"
  "calm_track (t\<lparr>lastTimestamp := ts\<rparr>) = (calm_track t)\<lparr>lastTimestamp := ts\<rparr>"
  "calm_track (t\<lparr>decoderConfig := d\<rparr>) = (calm_track t)\<lparr>decoderConfig := d\<rparr>"
  "calm_track (t\<lparr>encoder := e\<rparr>) = calm_track t" "calm_track (t\<lparr>frameCount := n\<rparr>) = calm_track t"
  "calm_track (calm_track t) = calm_track t" "calm_track (enqueue c t) = enqueue c (calm_track t)"
  by (simp_all add: calm_track_def enqueue_def)

lemma calm_fields [simp]:
  "audioConfigReady (calm p) = audioConfigReady p" "videoConfigReady (calm p) = videoConfigReady p"
  "sharedState (calm p) = sharedState p" "audioEncoderTrack (calm p) = map_option calm_track (audioEncoderTrack p)"
  "videoEncoderTrack (calm p) = map_option calm_track (videoEncoderTrack p)"
  "track_of k (calm p) = map_option calm_track (track_of k p)"
  "calm (p\<lparr>procState := s\<rparr>) = calm p" "calm (p\<lparr>pending := js\<rparr>) = calm p" "calm (p\<lparr>sharedState := ss\<rparr>) = (calm p)\<lparr>sharedState := ss\<rparr>"
  by (simp_all add: calm_def track_of_def split: track_kind.split)

lemma calm_handle:
  "calm (fst (handleTrackChunk c p)) = fst (handleTrackChunk c (calm p)) \<and> snd (handleTrackChunk c p) = snd (handleTrackChunk c (calm p))"
  by (cases "audioEncoderTrack p"; cases "videoEncoderTrack p"; cases "chunkType c")
    (simp_all add: handleTrackChunk_def processAudioChunk_def processVideoChunk_def drain_eq Let_def
      setAudioConfigReady_def setVideoConfigReady_def calm_def)

lemma calm_handle_cong:
  assumes "calm p = calm q"
  shows "calm (fst (handleTrackChunk c p)) = calm (fst (handleTrackChunk c q))" "snd (handleTrackChunk c p) = snd (handleTrackChunk c q)"
  using calm_handle [of c p] calm_handle [of c q] assms by simp_all

lemma calm_upd_track:
  assumes "\<And>t. calm_track (f t) = g (calm_track t)" and "calm p = calm q"
  shows "calm (upd_track k f p) = calm (upd_track k f q)"
proof -
  have "calm (upd_track k f r) = upd_track k g (calm r)" for r
    using assms(1) by (cases k) (auto simp: upd_track_def calm_def option.map_comp comp_def)
  then show ?thesis using assms(2) by simp
qed

lemma calm_the_track:
  assumes "calm p = calm q" and "track_of k p \<noteq> None"
  shows "calm_track (the (track_of k p)) = calm_track (the (track_of k q))"
proof -
  have "map_option calm_track (track_of k p) = map_option calm_track (track_of k q)" using assms(1) calm_fields(6) by metis
  then show ?thesis using assms(2) by (cases "track_of k p"; cases "track_of k q") simp_all
qed

lemma upd_track_exists [simp]: "track_of k (upd_track k' f p) = None \<longleftrightarrow> track_of k p = None"
  by (cases k; cases k') (auto simp: upd_track_def track_of_def)

lemma handle_exists [simp]: "track_of k (fst (handleTrackChunk c p)) = None \<longleftrightarrow> track_of k p = None"
  by (cases k; cases "audioEncoderTrack p"; cases "videoEncoderTrack p"; cases "chunkType c")
    (simp_all add: track_of_def handleTrackChunk_def processAudioChunk_def processVideoChunk_def drain_eq Let_def
      setAudioConfigReady_def setVideoConfigReady_def)

lemma calm_visible:
  assumes "calm p = calm q" and "track_of k p \<noteq> None"
  shows "kind (the (track_of k q)) = kind (the (track_of k p))" "decoderConfig (the (track_of k q)) = decoderConfig (the (track_of k p))"
  using arg_cong [OF calm_the_track [OF assms], of kind] arg_cong [OF calm_the_track [OF assms], of decoderConfig] by simp_all

lemma calm_shared: "calm p = calm q \<Longrightarrow> sharedState q = sharedState p"
  using calm_fields(3) [of p] calm_fields(3) [of q] by simp

lemma calm_upd:
  assumes "calm p = calm q"
  shows "calm (upd_track k (\<lambda>t. t\<lparr>decoderConfig := d\<rparr>) p) = calm (upd_track k (\<lambda>t. t\<lparr>decoderConfig := d\<rparr>) q)"
    "calm (upd_track k (\<lambda>t. t\<lparr>lastTimestamp := ts\<rparr>) p) = calm (upd_track k (\<lambda>t. t\<lparr>lastTimestamp := ts\<rparr>) q)"
    "calm (p\<lparr>sharedState := g (sharedState p)\<rparr>) = calm (q\<lparr>sharedState := g (sharedState q)\<rparr>)"
  using assms calm_shared [OF assms]
  by (auto intro: calm_upd_track [where g = "\<lambda>t. t\<lparr>decoderConfig := d\<rparr>"] calm_upd_track [where g = "\<lambda>t. t\<lparr>lastTimestamp := ts\<rparr>"])

interpretation calm_wiring: track_simulation "direct_env kd" "direct_env kd"
  "\<lambda>(p, out) (q, out'). calm p = calm q \<and> out = out' \<and> track_of kd p \<noteq> None" for kd
proof (unfold_locales, goal_cases)
  case (1 w v)
  then show ?case by (cases w; cases v) (auto simp: direct_env_def intro: calm_visible(1))
next
  case (2 w v)
  then show ?case by (cases w; cases v) (auto simp: direct_env_def intro: calm_visible(2))
next
  case (3 w v)
  then show ?case by (cases w; cases v) (auto simp: direct_env_def intro: calm_shared)
next
  case (4 w v d)
  then show ?case by (cases w; cases v) (auto simp: direct_env_def simp del: not_None_eq intro: calm_upd(1))
next
  case (5 w v ts)
  then show ?case by (cases w; cases v) (auto simp: direct_env_def simp del: not_None_eq intro: calm_upd(2))
next
  case (6 w v g)
  then show ?case
    by (cases w; cases v) (auto simp: direct_env_def track_of_def dest: calm_upd(3) [of _ _ g] simp del: calm_fields split: track_kind.splits)
next
  case (7 w v c)
  then show ?case
    by (cases w; cases v) (auto simp: direct_env_def Let_def split_beta simp del: not_None_eq intro: calm_handle_cong)
next
  case (8 w v e)
  then show ?case by (simp add: direct_env_def)
qed

lemma calm_output:
  assumes "calm p = calm q"
  shows "calm (fst (processor_output k ec desc p)) = calm (fst (processor_output k ec desc q)) \<and>
    snd (processor_output k ec desc p) = snd (processor_output k ec desc q)"
proof -
  have n: "track_of k p = None \<longleftrightarrow> track_of k q = None"
    using assms calm_fields(6) [of k p] calm_fields(6) [of k q] by (metis option.map_disc_iff)
  show ?thesis
  proof (cases "track_of k p")
    case None
    then show ?thesis using n assms by (simp add: processor_output_def)
  next
    case (Some t)
    then show ?thesis
      using n assms calm_wiring.handleOutput_sim [where w = "(p, [])" and v = "(q, [])" and kd = k and ec = ec and desc = desc]
      by (auto simp: processor_output_def split: option.split)
  qed
qed

subsection \<open>Pausing, resuming and raw frames\<close>

lemma calm_flush: "map_option calm_track (flush_field t) = map_option calm_track t"
  by (auto simp: flush_field_def flush_track_def split: option.splits)

lemma calm_pause: "calm (pause_processor p) = calm p" "calm (resume_processor p) = calm p"
  by (simp_all add: pause_processor_def resume_processor_def begin_flush_def calm_def calm_flush)

lemma calm_raw: "calm (fst (processor_addTrackChunk k refused f p)) = calm p"
  by (auto simp: processor_addTrackChunk_def audio_addTrackChunk_def video_addTrackChunk_def calm_def Let_def
      split: track_kind.split option.split)

text \<open>Only pauses are pending.\<close>

definition only_pauses :: "'cfg processor \<Rightarrow> bool" where
  "only_pauses p \<longleftrightarrow> (\<forall>(j, a) \<in> set (pending p). j = PauseJob)"

lemma calm_settle: "only_pauses p \<Longrightarrow> calm (settle i ok p) = calm p"
proof -
  assume o: "only_pauses p"
  show ?thesis
  proof (cases "i < length (pending p)")
    case True
    obtain a where "pending p ! i = (PauseJob, a)" using o nth_mem [OF True] by (cases "pending p ! i") (auto simp: only_pauses_def)
    then show ?thesis using True by (cases a) (simp_all add: settle_def finish_job_def, simp add: calm_def calm_flush)
  qed (simp add: settle_def)
qed

lemma only_pauses_steps:
  assumes "only_pauses p"
  shows "only_pauses (pause_processor p)" "only_pauses (resume_processor p)" "only_pauses (fst (processor_addTrackChunk k refused f p))"
    "only_pauses (settle i ok p)"
proof -
  show "only_pauses (pause_processor p)" "only_pauses (resume_processor p)" "only_pauses (fst (processor_addTrackChunk k refused f p))"
    using assms by (auto simp: only_pauses_def pause_processor_def resume_processor_def begin_flush_def)
  show "only_pauses (settle i ok p)"
  proof (cases "i < length (pending p)")
    case True
    obtain a where "pending p ! i = (PauseJob, a)" using assms nth_mem [OF True] by (cases "pending p ! i") (auto simp: only_pauses_def)
    then show ?thesis
      using assms True by (cases a) (auto simp: settle_def finish_job_def only_pauses_def remove_nth_def
          dest: in_set_takeD in_set_dropD dest!: set_update_subset_insert [THEN subsetD])
  qed (simp add: settle_def assms)
qed

end
