(* ===== verification/Js_String.thy ===== *)
theory Js_String
  imports Prelude
begin

section \<open>JavaScript strings and their UTF-8 encoding\<close>

text \<open>
  A string of the source is a sequence of 16-bit code units; \<open>length\<close> counts those units.
  \<open>TextEncoder.encode\<close> reads the units as UTF-16, replaces every unpaired surrogate by
  U+FFFD and writes the scalar values in UTF-8. Both are written out here, because the
  AMF encoder compares the one length and writes the other. The lemmas bound the number
  of bytes by three per unit, and show that encoding is undone by the UTF-8 decoder of
  this theory.
\<close>

type_synonym jsstring = "16 word list"

definition js_of_ascii :: "string \<Rightarrow> jsstring" where
  "js_of_ascii s = map (\<lambda>c. word_of_nat (of_char c)) s"

lemma length_js_of_ascii [simp]: "length (js_of_ascii s) = length s"
  by (simp add: js_of_ascii_def)

definition is_lead :: "16 word \<Rightarrow> bool" where
  "is_lead u \<longleftrightarrow> 0xD800 \<le> u \<and> u \<le> 0xDBFF"

definition is_trail :: "16 word \<Rightarrow> bool" where
  "is_trail u \<longleftrightarrow> 0xDC00 \<le> u \<and> u \<le> 0xDFFF"

definition lone_unit :: "16 word \<Rightarrow> nat" where
  "lone_unit u = (if is_lead u \<or> is_trail u then 0xFFFD else unat u)"

fun to_scalars :: "jsstring \<Rightarrow> nat list" where
  "to_scalars [] = []"
| "to_scalars [u] = [lone_unit u]"
| "to_scalars (u # v # us) =
     (if is_lead u \<and> is_trail v
      then (0x10000 + (unat u - 0xD800) * 0x400 + (unat v - 0xDC00)) # to_scalars us
      else lone_unit u # to_scalars (v # us))"

definition utf8_char :: "nat \<Rightarrow> bytes" where
  "utf8_char c =
     (if c < 0x80 then [byte_of c]
      else if c < 0x800 then [byte_of (0xC0 + c div 64), byte_of (0x80 + c mod 64)]
      else if c < 0x10000
      then [byte_of (0xE0 + c div 4096), byte_of (0x80 + c div 64 mod 64),
            byte_of (0x80 + c mod 64)]
      else [byte_of (0xF0 + c div 262144), byte_of (0x80 + c div 4096 mod 64),
            byte_of (0x80 + c div 64 mod 64), byte_of (0x80 + c mod 64)])"

definition text_encode :: "jsstring \<Rightarrow> bytes" where
  "text_encode s = concat (map utf8_char (to_scalars s))"

lemma text_encode_Nil [simp]: "text_encode [] = []"
  by (simp add: text_encode_def)

subsection \<open>Bounds\<close>

lemma lone_unit_bound: "lone_unit u < 0x10000"
  using unsigned_less [of u] by (auto simp: lone_unit_def)

lemma pair_bound:
  assumes "is_lead u" and "is_trail v"
  shows "0x10000 + (unat u - 0xD800) * 0x400 + (unat v - 0xDC00) < (0x110000 :: nat)"
proof -
  have "unat u \<le> 0xDBFF" "unat v \<le> 0xDFFF"
    using assms by (simp_all add: is_lead_def is_trail_def word_le_nat_alt)
  then show ?thesis by linarith
qed

lemma to_scalars_bound: "c \<in> set (to_scalars s) \<Longrightarrow> c < 0x110000"
proof (induction s rule: to_scalars.induct)
  case (2 u)
  then show ?case using lone_unit_bound [of u] by simp
next
  case (3 u v us)
  then show ?case using lone_unit_bound [of u] pair_bound [of u v] by (auto split: if_splits)
qed simp

lemma length_utf8_char: "length (utf8_char c) \<le> 4"
  and length_utf8_char_bmp: "c < 0x10000 \<Longrightarrow> length (utf8_char c) \<le> 3"
  and length_utf8_char_pos: "1 \<le> length (utf8_char c)"
  by (simp_all add: utf8_char_def)

lemma length_text_encode: "length (text_encode s) \<le> 3 * length s"
proof (induction s rule: to_scalars.induct)
  case 1
  then show ?case by simp
next
  case (2 u)
  then show ?case using length_utf8_char_bmp [OF lone_unit_bound, of u] by (simp add: text_encode_def)
next
  case (3 u v us)
  show ?case
  proof (cases "is_lead u \<and> is_trail v")
    case True
    let ?c = "0x10000 + (unat u - 0xD800) * 0x400 + (unat v - 0xDC00)"
    have "length (text_encode (u # v # us)) = length (utf8_char ?c) + length (text_encode us)"
      using True by (simp add: text_encode_def)
    then show ?thesis using "3.IH"(1) [OF True] length_utf8_char [of ?c] by simp
  next
    case False
    have "length (text_encode (u # v # us))
        = length (utf8_char (lone_unit u)) + length (text_encode (v # us))"
      using False by (auto simp: text_encode_def)
    then show ?thesis
      using "3.IH"(2) [OF False] length_utf8_char_bmp [OF lone_unit_bound, of u] by simp
  qed
qed

subsection \<open>Strings without surrogates\<close>

lemma to_scalars_plain:
  "(\<And>u. u \<in> set s \<Longrightarrow> \<not> is_lead u \<and> \<not> is_trail u) \<Longrightarrow> to_scalars s = map unat s"
proof (induction s rule: to_scalars.induct)
  case (3 u v us)
  then have n: "\<not> is_lead u" "\<not> is_trail u" by auto
  then show ?case using "3.IH"(2) "3.prems" by (auto simp: lone_unit_def)
qed (auto simp: lone_unit_def)

lemma ascii_no_surrogate: "u < 0x80 \<Longrightarrow> \<not> is_lead u \<and> \<not> is_trail u"
  by (auto simp: is_lead_def is_trail_def word_le_nat_alt word_less_nat_alt)

lemma text_encode_replicate:
  assumes "\<not> is_lead u" and "\<not> is_trail u"
  shows "text_encode (replicate n u) = concat (replicate n (utf8_char (unat u)))"
  using to_scalars_plain [of "replicate n u"] assms
  by (simp add: text_encode_def map_replicate)

lemma text_encode_ascii:
  assumes "\<And>u. u \<in> set s \<Longrightarrow> u < 0x80"
  shows "text_encode s = map ucast s"
proof -
  have "utf8_char (unat u) = [ucast u]" if "u \<in> set s" for u
    using assms [OF that] by (simp add: utf8_char_def byte_of_def word_less_nat_alt)
  then have "concat (map utf8_char (map unat s)) = map ucast s" by (induction s) auto
  then show ?thesis using to_scalars_plain assms ascii_no_surrogate by (simp add: text_encode_def)
qed

subsection \<open>Decoding\<close>

fun utf8_next :: "bytes \<Rightarrow> (nat \<times> bytes) option" where
  "utf8_next [] = None"
| "utf8_next (a # bs) =
     (let n = unat a in
      if n < 0x80 then Some (n, bs)
      else if n < 0xE0 then
        (case bs of b # cs \<Rightarrow> Some ((n - 0xC0) * 64 + (unat b - 0x80), cs) | _ \<Rightarrow> None)
      else if n < 0xF0 then
        (case bs of b # c # cs \<Rightarrow>
           Some ((n - 0xE0) * 4096 + (unat b - 0x80) * 64 + (unat c - 0x80), cs) | _ \<Rightarrow> None)
      else
        (case bs of b # c # d # cs \<Rightarrow>
           Some ((n - 0xF0) * 262144 + (unat b - 0x80) * 4096 + (unat c - 0x80) * 64
                   + (unat d - 0x80), cs) | _ \<Rightarrow> None))"

lemma digits_join: "q = p * b + r \<Longrightarrow> c = q * a + s \<Longrightarrow> p * (a * b) + r * a + s = c"
  for a b c p q r s :: nat
  by (simp add: algebra_simps)

lemma base64_3: "c div 4096 * 4096 + c div 64 mod 64 * 64 + c mod 64 = c" for c :: nat
  using digits_join [of "c div 64" "c div 64 div 64" 64 "c div 64 mod 64" c 64 "c mod 64"]
    div_mult2_eq [of c 64 64]
  by (simp only: div_mult_mod_eq) simp

lemma base64_4:
  "c div 262144 * 262144 + c div 4096 mod 64 * 4096 + c div 64 mod 64 * 64 + c mod 64 = c"
  for c :: nat
  using digits_join [of "c div 4096" "c div 4096 div 64" 64 "c div 4096 mod 64" c 4096
      "c div 64 mod 64 * 64 + c mod 64"]
    base64_3 [of c, symmetric] div_mult2_eq [of c 4096 64]
  by (simp only: div_mult_mod_eq add.assoc) simp

lemma utf8_next_char:
  assumes "c < 0x110000"
  shows "utf8_next (utf8_char c @ bs) = Some (c, bs)"
proof -
  consider "c < 0x80" | "0x80 \<le> c" "c < 0x800" | "0x800 \<le> c" "c < 0x10000" | "0x10000 \<le> c"
    by linarith
  then show ?thesis
  proof cases
    case 1
    then show ?thesis by (simp add: utf8_char_def)
  next
    case 2
    then have "c div 64 < 32" "2 \<le> c div 64" by simp_all
    with 2 show ?thesis
      by (simp add: utf8_char_def Let_def)
  next
    case 3
    then have q: "c div 4096 < 16" by simp
    note base64_3 [of c]
    with 3 q show ?thesis
      by (simp add: utf8_char_def Let_def)
  next
    case 4
    then have q: "c div 262144 < 8" using assms by simp
    note base64_4 [of c]
    with 4 q show ?thesis
      by (simp add: utf8_char_def Let_def)
  qed
qed

fun utf8_decode :: "nat \<Rightarrow> bytes \<Rightarrow> nat list option" where
  "utf8_decode _ [] = Some []"
| "utf8_decode 0 (_ # _) = None"
| "utf8_decode (Suc n) (a # bs) =
     (case utf8_next (a # bs) of None \<Rightarrow> None
      | Some (c, rest) \<Rightarrow> map_option ((#) c) (utf8_decode n rest))"

lemma utf8_decode_encode:
  "(\<And>c. c \<in> set cs \<Longrightarrow> c < 0x110000) \<Longrightarrow> length cs \<le> n \<Longrightarrow>
   utf8_decode n (concat (map utf8_char cs)) = Some cs"
proof (induction cs arbitrary: n)
  case Nil
  then show ?case by simp
next
  case (Cons c cs)
  then obtain m where n: "n = Suc m" by (cases n) auto
  obtain a bs where e: "utf8_char c @ concat (map utf8_char cs) = a # bs"
    using length_utf8_char_pos [of c] by (cases "utf8_char c") auto
  have "utf8_next (a # bs) = Some (c, concat (map utf8_char cs))"
    using utf8_next_char [of c "concat (map utf8_char cs)"] Cons.prems(1) e by simp
  then show ?case using Cons.IH [of m] Cons.prems n e by simp
qed

lemma text_decode: "utf8_decode (length s) (text_encode s) = Some (to_scalars s)"
proof -
  have "length (to_scalars s) \<le> length s" by (induction s rule: to_scalars.induct) auto
  then show ?thesis
    unfolding text_encode_def by (intro utf8_decode_encode) (auto dest: to_scalars_bound)
qed

end
