(* ===== verification/Binary_Writer.thy ===== *)
theory Binary_Writer
  imports Js_Number Js_String
begin

section \<open>BinaryWriter: a growing byte buffer\<close>

text \<open>
  The class \<open>BinaryWriter\<close> of \<open>plugin/webtransport/web/flv-muxer.iife.js\<close>. The private
  fields are the write position, the \<open>Uint8Array\<close> and the byte order; the fourth field, a
  \<open>DataView\<close>, is always made over the array's own storage, so a store through either is
  a store into \<open>buffer\<close> and the record keeps one of them. Integer arguments are the
  integral Numbers the callers pass, of any sign and size: each setter reduces them as
  the typed array or the view does. What a writer has produced is \<open>written\<close>, the bytes
  before the position. The locale \<open>append_op\<close> states what every write method promises,
  and is interpreted on each of them.
\<close>

record writer =
  position :: nat
  buffer :: bytes
  littleEndian :: bool

datatype writer_error = IllegalPosition

definition DEFAULT_BUFFER :: nat where
  "DEFAULT_BUFFER = 1024"

definition MIN_GROWTH :: nat where
  "MIN_GROWTH = 512"

definition new_BinaryWriter :: "bool \<Rightarrow> writer" where
  "new_BinaryWriter le = \<lparr>position = 0, buffer = replicate DEFAULT_BUFFER 0, littleEndian = le\<rparr>"

subsection \<open>Making room\<close>

definition ensureAvailable :: "nat \<Rightarrow> writer \<Rightarrow> writer" where
  "ensureAvailable n w =
     (let requiredSize = n + position w in
      if requiredSize \<le> length (buffer w) then w
      else let newSize = max (length (buffer w) * 2) (requiredSize + MIN_GROWTH)
           in w\<lparr>buffer := splice_at 0 (buffer w) (replicate newSize 0)\<rparr>)"

text \<open>Store bytes at the position and advance it past them.\<close>

definition put :: "bytes \<Rightarrow> writer \<Rightarrow> writer" where
  "put bs w = w\<lparr>buffer := splice_at (position w) bs (buffer w), position := position w + length bs\<rparr>"

definition int_bytes :: "nat \<Rightarrow> int \<Rightarrow> writer \<Rightarrow> bytes" where
  "int_bytes n v w = (if littleEndian w then le_bytes n v else be_bytes n v)"

subsection \<open>The write methods\<close>

definition writeUint8 :: "int \<Rightarrow> writer \<Rightarrow> writer" where
  "writeUint8 v w = put [word_of_int v] (ensureAvailable 1 w)"

definition writeUint16 :: "int \<Rightarrow> writer \<Rightarrow> writer" where
  "writeUint16 v w = (let w = ensureAvailable 2 w in put (int_bytes 2 v w) w)"

definition writeUint24 :: "int \<Rightarrow> writer \<Rightarrow> writer" where
  "writeUint24 v w =
     (let w = ensureAvailable 3 w; b = (\<lambda>k. shr_byte k (of_int v)) in
      if littleEndian w then put [b 16] (put [b 8] (put [b 0] w))
      else put [b 0] (put [b 8] (put [b 16] w)))"

definition writeUint32 :: "int \<Rightarrow> writer \<Rightarrow> writer" where
  "writeUint32 v w = (let w = ensureAvailable 4 w in put (int_bytes 4 v w) w)"

definition writeInt8 :: "int \<Rightarrow> writer \<Rightarrow> writer" where
  "writeInt8 v w = put [word_of_int v] (ensureAvailable 1 w)"

definition writeInt16 :: "int \<Rightarrow> writer \<Rightarrow> writer" where
  "writeInt16 v w = (let w = ensureAvailable 2 w in put (int_bytes 2 v w) w)"

definition writeInt32 :: "int \<Rightarrow> writer \<Rightarrow> writer" where
  "writeInt32 v w = (let w = ensureAvailable 4 w in put (int_bytes 4 v w) w)"

definition writeFloat32 :: "f64 \<Rightarrow> writer \<Rightarrow> writer" where
  "writeFloat32 v w = (let w = ensureAvailable 4 w in put (int_bytes 4 (uint (f32_of_f64 v)) w) w)"

definition writeFloat64 :: "f64 \<Rightarrow> writer \<Rightarrow> writer" where
  "writeFloat64 v w = (let w = ensureAvailable 8 w in put (int_bytes 8 (uint v) w) w)"

definition writeBytes :: "bytes \<Rightarrow> writer \<Rightarrow> writer" where
  "writeBytes bs w = put bs (ensureAvailable (length bs) w)"

definition writeString :: "jsstring \<Rightarrow> writer \<Rightarrow> writer" where
  "writeString s w = (let encodedStr = text_encode s in
     put encodedStr (ensureAvailable (length encodedStr) w))"

subsection \<open>Reading out and moving the position\<close>

definition getBytes :: "writer \<Rightarrow> bytes" where
  "getBytes w = splice_at 0 (take (position w) (buffer w)) (replicate (position w) 0)"

definition getPosition :: "writer \<Rightarrow> nat" where
  "getPosition w = position w"

definition reset :: "writer \<Rightarrow> writer" where
  "reset w = w\<lparr>position := 0\<rparr>"

definition seek :: "int \<Rightarrow> writer \<Rightarrow> writer_error + writer" where
  "seek p w =
     (if p < 0 \<or> int (length (buffer w)) < p then Inl IllegalPosition
      else Inr (w\<lparr>position := nat p\<rparr>))"

subsection \<open>Invariant and abstraction\<close>

definition writer_ok :: "writer \<Rightarrow> bool" where
  "writer_ok w \<longleftrightarrow> position w \<le> length (buffer w) \<and> DEFAULT_BUFFER \<le> length (buffer w)"

definition written :: "writer \<Rightarrow> bytes" where
  "written w = take (position w) (buffer w)"

text \<open>\<open>capped p w\<close>: the capacity is at most what a position of \<open>p\<close> can have asked for.\<close>

definition capped :: "nat \<Rightarrow> writer \<Rightarrow> bool" where
  "capped p w \<longleftrightarrow> length (buffer w) \<le> max DEFAULT_BUFFER (2 * p + MIN_GROWTH)"

definition be_ready :: "writer \<Rightarrow> bool" where
  "be_ready w \<longleftrightarrow> writer_ok w \<and> \<not> littleEndian w"

lemma new_writer_ok [simp]: "writer_ok (new_BinaryWriter le)"
  and written_new [simp]: "written (new_BinaryWriter le) = []"
  and capped_new [simp]: "capped p (new_BinaryWriter le)"
  by (simp_all add: writer_ok_def new_BinaryWriter_def written_def capped_def)

lemma new_writer_fields [simp]:
  "position (new_BinaryWriter le) = 0" "littleEndian (new_BinaryWriter le) = le"
  by (simp_all add: new_BinaryWriter_def)

lemma be_ready_new [simp]: "be_ready (new_BinaryWriter False)"
  by (simp add: be_ready_def)

lemma length_written: "writer_ok w \<Longrightarrow> length (written w) = position w"
  by (simp add: writer_ok_def written_def)

lemma ensureAvailable_fields [simp]:
  "position (ensureAvailable n w) = position w"
  "littleEndian (ensureAvailable n w) = littleEndian w"
  by (simp_all add: ensureAvailable_def Let_def)

lemma ensureAvailable_room: "position w + n \<le> length (buffer (ensureAvailable n w))"
  by (auto simp: ensureAvailable_def Let_def)

lemma ensureAvailable_prefix:
  "take (length (buffer w)) (buffer (ensureAvailable n w)) = buffer w"
  by (simp add: ensureAvailable_def Let_def splice_at_def)

lemma ensureAvailable_length: "length (buffer w) \<le> length (buffer (ensureAvailable n w))"
  by (auto simp add: ensureAvailable_def Let_def)

lemma ensureAvailable_ok: "writer_ok w \<Longrightarrow> writer_ok (ensureAvailable n w)"
  using ensureAvailable_length [of w n] by (simp add: writer_ok_def)

lemma ensureAvailable_written:
  assumes "writer_ok w"
  shows "written (ensureAvailable n w) = written w"
proof -
  have "take (position w) (buffer (ensureAvailable n w))
      = take (position w) (take (length (buffer w)) (buffer (ensureAvailable n w)))"
    using assms by (simp add: writer_ok_def min_def)
  then show ?thesis by (simp add: written_def ensureAvailable_prefix)
qed

text \<open>Growth at least doubles the capacity, or covers the request with slack.\<close>

lemma ensureAvailable_capped:
  "capped p w \<Longrightarrow> position w + n \<le> p \<Longrightarrow> capped p (ensureAvailable n w)"
  by (auto simp: capped_def ensureAvailable_def Let_def MIN_GROWTH_def DEFAULT_BUFFER_def)

lemma put_Nil [simp]: "put [] w = w"
  by (simp add: put_def)

lemma put_put:
  "position w + length as + length bs \<le> length (buffer w) \<Longrightarrow>
   put bs (put as w) = put (as @ bs) w"
  by (simp add: put_def splice_at_append add.assoc)

subsection \<open>The contract of a write method\<close>

text \<open>
  \<open>appends w w' bs\<close>: on the way from \<open>w\<close> to \<open>w'\<close> exactly \<open>bs\<close> was appended, the
  invariant and the byte order were kept, and the buffer did not grow past the cap of the
  position reached. \<open>append_op f enc\<close> says that \<open>f v\<close> appends \<open>enc v\<close> to any big-endian
  writer.
\<close>

definition appends :: "writer \<Rightarrow> writer \<Rightarrow> bytes \<Rightarrow> bool" where
  "appends w w' bs \<longleftrightarrow>
     be_ready w' \<and> written w' = written w @ bs \<and>
     (\<forall>p. capped p w \<longrightarrow> position w + length bs \<le> p \<longrightarrow> capped p w')"

lemma appends_ready [dest]: "appends w w' bs \<Longrightarrow> be_ready w'"
  by (simp add: appends_def)

lemma appends_written: "appends w w' bs \<Longrightarrow> written w' = written w @ bs"
  by (simp add: appends_def)

lemma appends_refl: "be_ready w \<Longrightarrow> appends w w []"
  by (simp add: appends_def)

lemma appends_position:
  assumes "be_ready w" and "appends w w' bs"
  shows "position w' = position w + length bs"
proof -
  have "length (written w') = length (written w) + length bs"
    using assms(2) by (simp add: appends_def)
  moreover have "writer_ok w" "writer_ok w'" using assms by (auto simp: be_ready_def appends_def)
  ultimately show ?thesis by (simp add: length_written)
qed

lemma appends_trans:
  assumes "be_ready w" and "appends w w1 as" and "appends w1 w2 bs"
  shows "appends w w2 (as @ bs)"
  using assms appends_position [OF assms(1,2)] by (auto simp: appends_def)

lemma be_ready_reset [simp]: "be_ready w \<Longrightarrow> be_ready (reset w)"
  by (simp add: be_ready_def writer_ok_def reset_def)

lemma written_reset [simp]: "written (reset w) = []"
  by (simp add: written_def reset_def)

lemma capped_reset [simp]: "capped p (reset w) = capped p w"
  by (simp add: capped_def reset_def)

lemma position_reset [simp]: "position (reset w) = 0"
  by (simp add: reset_def)

lemma getBytes_ready [writer_contract]: "be_ready w \<Longrightarrow> getBytes w = written w"
  by (simp add: be_ready_def writer_ok_def getBytes_def written_def splice_at_def)

lemma appends_getBytes: "appends (reset w) w' bs \<Longrightarrow> getBytes w' = bs"
  using getBytes_ready [of w'] by (simp add: appends_def)

locale append_op =
  fixes f :: "'v \<Rightarrow> writer \<Rightarrow> writer" and enc :: "'v \<Rightarrow> bytes"
  assumes op_appends: "be_ready w \<Longrightarrow> appends w (f v w) (enc v)"
begin

lemma op_ready [simp]: "be_ready w \<Longrightarrow> be_ready (f v w)"
  using op_appends by blast

lemma op_then: "be_ready w \<Longrightarrow> appends (f v w) w' bs \<Longrightarrow> appends w w' (enc v @ bs)"
  by (rule appends_trans [OF _ op_appends])

lemma fold_appends: "be_ready w \<Longrightarrow> appends w (fold f vs w) (concat (map enc vs))"
proof (induction vs arbitrary: w)
  case Nil
  then show ?case by (simp add: appends_refl)
next
  case (Cons v vs)
  then show ?case by (simp add: op_then)
qed

end

text \<open>Every write method stores a byte string after making room for exactly that many.\<close>

lemma append_op_put:
  assumes "\<And>w v. \<not> littleEndian w \<Longrightarrow> f v w = put (enc v) (ensureAvailable (length (enc v)) w)"
  shows "append_op f enc"
proof
  fix w v
  assume r: "be_ready w"
  let ?e = "ensureAvailable (length (enc v)) w"
  have eq: "f v w = put (enc v) ?e" using r assms by (simp add: be_ready_def)
  have room: "position w + length (enc v) \<le> length (buffer ?e)" by (rule ensureAvailable_room)
  have ok: "writer_ok ?e" and wr: "written ?e = written w"
    using r ensureAvailable_ok ensureAvailable_written by (auto simp: be_ready_def)
  have "be_ready (f v w)"
    using r ok room by (simp add: eq be_ready_def writer_ok_def put_def)
  moreover have "written (f v w) = written w @ enc v"
    using room wr by (simp add: eq written_def put_def)
  moreover have "capped p (f v w)" if "capped p w" "position w + length (enc v) \<le> p" for p
    using ensureAvailable_capped [OF that] room by (simp add: eq capped_def put_def)
  ultimately show "appends w (f v w) (enc v)" by (simp add: appends_def)
qed

lemma be_bytes_3:
  "be_bytes 3 v = [word_of_int (v div 65536), word_of_int (v div 256), word_of_int v]"
  by (simp add: numeral_3_eq_3 zdiv_zmult2_eq [symmetric])

lemma writeUint24_put:
  assumes "\<not> littleEndian w"
  shows "writeUint24 v w = put (be_bytes 3 v) (ensureAvailable 3 w)"
proof -
  have room: "position w + 3 \<le> length (buffer (ensureAvailable 3 w))"
    by (rule ensureAvailable_room)
  have "writeUint24 v w = put [shr_byte 0 (of_int v)] (put [shr_byte 8 (of_int v)]
      (put [shr_byte 16 (of_int v)] (ensureAvailable 3 w)))"
    using assms by (simp add: writeUint24_def)
  also have "\<dots> = put [shr_byte 16 (of_int v), shr_byte 8 (of_int v), shr_byte 0 (of_int v)]
      (ensureAvailable 3 w)"
    using room by (simp add: put_put)
  finally show ?thesis by (simp add: shr_byte_eq be_bytes_3)
qed

lemma writeUint24_put_little:
  assumes "littleEndian w"
  shows "writeUint24 v w = put (le_bytes 3 v) (ensureAvailable 3 w)"
proof -
  have room: "position w + 3 \<le> length (buffer (ensureAvailable 3 w))"
    by (rule ensureAvailable_room)
  have "writeUint24 v w = put [shr_byte 16 (of_int v)] (put [shr_byte 8 (of_int v)]
      (put [shr_byte 0 (of_int v)] (ensureAvailable 3 w)))"
    using assms by (simp add: writeUint24_def)
  also have "\<dots> = put [shr_byte 0 (of_int v), shr_byte 8 (of_int v), shr_byte 16 (of_int v)]
      (ensureAvailable 3 w)"
    using room by (simp add: put_put)
  finally show ?thesis by (simp add: shr_byte_eq le_bytes_def be_bytes_3)
qed

interpretation u8: append_op writeUint8 "\<lambda>v. [word_of_int v]"
  by (rule append_op_put) (simp add: writeUint8_def)

interpretation u16: append_op writeUint16 "be_bytes 2"
  by (rule append_op_put) (simp add: writeUint16_def int_bytes_def Let_def)

interpretation u24: append_op writeUint24 "be_bytes 3"
  by (rule append_op_put) (simp add: writeUint24_put)

interpretation u32: append_op writeUint32 "be_bytes 4"
  by (rule append_op_put) (simp add: writeUint32_def int_bytes_def Let_def)

interpretation i8: append_op writeInt8 "\<lambda>v. [word_of_int v]"
  by (rule append_op_put) (simp add: writeInt8_def)

interpretation i16: append_op writeInt16 "be_bytes 2"
  by (rule append_op_put) (simp add: writeInt16_def int_bytes_def Let_def)

interpretation i32: append_op writeInt32 "be_bytes 4"
  by (rule append_op_put) (simp add: writeInt32_def int_bytes_def Let_def)

interpretation wf32: append_op writeFloat32 "\<lambda>v. be_bytes 4 (uint (f32_of_f64 v))"
  by (rule append_op_put) (simp add: writeFloat32_def int_bytes_def Let_def)

interpretation wf64: append_op writeFloat64 "\<lambda>v. be_bytes 8 (uint v)"
  by (rule append_op_put) (simp add: writeFloat64_def int_bytes_def Let_def)

interpretation wbytes: append_op writeBytes "\<lambda>bs. bs"
  by (rule append_op_put) (simp add: writeBytes_def)

interpretation wstring: append_op writeString text_encode
  by (rule append_op_put) (simp add: writeString_def Let_def)

subsection \<open>Sequences of calls\<close>

text \<open>
  A program of write calls, for statements about any sequence of them: \<open>run_call\<close> makes
  the call and \<open>call_bytes\<close> is what it promises to append.
\<close>

datatype write_call =
    CallUint8 int | CallUint16 int | CallUint24 int | CallUint32 int
  | CallInt8 int | CallInt16 int | CallInt32 int
  | CallFloat32 f64 | CallFloat64 f64 | CallBytes bytes | CallString jsstring

fun run_call :: "write_call \<Rightarrow> writer \<Rightarrow> writer" where
  "run_call (CallUint8 v) = writeUint8 v"
| "run_call (CallUint16 v) = writeUint16 v"
| "run_call (CallUint24 v) = writeUint24 v"
| "run_call (CallUint32 v) = writeUint32 v"
| "run_call (CallInt8 v) = writeInt8 v"
| "run_call (CallInt16 v) = writeInt16 v"
| "run_call (CallInt32 v) = writeInt32 v"
| "run_call (CallFloat32 v) = writeFloat32 v"
| "run_call (CallFloat64 v) = writeFloat64 v"
| "run_call (CallBytes bs) = writeBytes bs"
| "run_call (CallString s) = writeString s"

fun call_bytes :: "write_call \<Rightarrow> bytes" where
  "call_bytes (CallUint8 v) = [word_of_int v]"
| "call_bytes (CallUint16 v) = be_bytes 2 v"
| "call_bytes (CallUint24 v) = be_bytes 3 v"
| "call_bytes (CallUint32 v) = be_bytes 4 v"
| "call_bytes (CallInt8 v) = [word_of_int v]"
| "call_bytes (CallInt16 v) = be_bytes 2 v"
| "call_bytes (CallInt32 v) = be_bytes 4 v"
| "call_bytes (CallFloat32 v) = be_bytes 4 (uint (f32_of_f64 v))"
| "call_bytes (CallFloat64 v) = be_bytes 8 (uint v)"
| "call_bytes (CallBytes bs) = bs"
| "call_bytes (CallString s) = text_encode s"

lemmas write_appends = u8.op_appends u16.op_appends u24.op_appends u32.op_appends
  i8.op_appends i16.op_appends i32.op_appends wf32.op_appends wf64.op_appends
  wbytes.op_appends wstring.op_appends

interpretation call: append_op run_call call_bytes
proof
  fix w v
  assume "be_ready w"
  then show "appends w (run_call v w) (call_bytes v)"
    using write_appends by (cases v) simp_all
qed

lemma append_from_reset:
  "append_op f enc \<Longrightarrow> be_ready w \<Longrightarrow> getBytes (f v (reset w)) = enc v"
  by (rule appends_getBytes [of w]) (simp add: append_op.op_appends)

subsection \<open>Properties\<close>

text \<open>
  C15. A writer that is reset and then takes any sequence of write calls hands out, from
  \<open>getBytes\<close>, exactly the concatenation of the calls' encodings: nothing of an earlier
  tag survives the reset, growing loses nothing, and no call overwrites another's bytes.
\<close>

theorem writer_refines_byte_list:
  assumes "be_ready w"
  shows "getBytes (fold run_call cs (reset w)) = concat (map call_bytes cs)"
  using assms by (intro appends_getBytes [of w] call.fold_appends) simp

theorem writer_refines_byte_list_witness:
  "be_ready (new_BinaryWriter False) \<and>
   getBytes (fold run_call [CallUint8 1, CallUint24 66051] (reset (new_BinaryWriter False)))
     = [1, 1, 2, 3]"
  using writer_refines_byte_list [of "new_BinaryWriter False" "[CallUint8 1, CallUint24 66051]"]
  by (simp add: be_bytes_3)

text \<open>
  The buffer never grows past 1024 bytes or twice what one round of calls writes plus
  512, whatever the calls are: repeated doubling stays linear in the largest tag.
\<close>

theorem writer_capacity_bound:
  assumes "be_ready w" and "capped n w" and "length (concat (map call_bytes cs)) \<le> n"
  shows "length (buffer (fold run_call cs (reset w))) \<le> max 1024 (2 * n + 512)"
proof -
  have "appends (reset w) (fold run_call cs (reset w)) (concat (map call_bytes cs))"
    using assms(1) by (simp add: call.fold_appends)
  then have "capped n (fold run_call cs (reset w))" using assms by (simp add: appends_def)
  then show ?thesis by (simp add: capped_def DEFAULT_BUFFER_def MIN_GROWTH_def)
qed

theorem writer_capacity_bound_witness:
  "length (buffer (fold run_call [CallUint32 7] (reset (new_BinaryWriter False)))) \<le> 1024"
  using writer_capacity_bound [of "new_BinaryWriter False" 4 "[CallUint32 7]"] by simp

text \<open>
  The bytes a 24-bit write puts at the old position read back, in the writer's own
  byte order, as the value modulo \<open>2 ^ 24\<close>: the three shifted stores agree with the byte
  order flag and larger or negative values wrap.
\<close>

theorem uint24_reads_back:
  assumes "writer_ok w"
  shows "int (be_val ((if littleEndian w then rev else id)
           (drop (position w) (written (writeUint24 v w))))) = v mod 2 ^ 24"
proof -
  let ?e = "ensureAvailable 3 w" and ?bs = "if littleEndian w then le_bytes 3 v else be_bytes 3 v"
  have eq: "writeUint24 v w = put ?bs ?e"
    by (simp add: writeUint24_put writeUint24_put_little)
  have room: "position w + 3 \<le> length (buffer ?e)" by (rule ensureAvailable_room)
  have "written (writeUint24 v w) = written ?e @ ?bs"
    using room by (simp add: eq written_def put_def)
  moreover have "length (written ?e) = position w"
    using length_written [OF ensureAvailable_ok [OF assms]] by simp
  ultimately show ?thesis
    using be_val_be_bytes [of 3 v] by (simp add: le_bytes_def)
qed

theorem uint24_reads_back_witness:
  "writer_ok (new_BinaryWriter True) \<and>
   int (be_val (rev (written (writeUint24 (- 1) (new_BinaryWriter True))))) = 16777215"
  using uint24_reads_back [of "new_BinaryWriter True" "- 1"] by simp

text \<open>
  \<open>seek\<close> throws exactly on a position outside the buffer and otherwise moves there;
  a write after it overwrites from that position on, keeping the bytes before it.
\<close>

theorem seek_outcome:
  "seek p w = (if 0 \<le> p \<and> nat p \<le> length (buffer w)
     then Inr (w\<lparr>position := nat p\<rparr>) else Inl IllegalPosition) \<and>
   (seek p w = Inr w' \<longrightarrow> be_ready w \<longrightarrow>
     written (run_call c w') = take (nat p) (buffer w) @ call_bytes c)"
proof -
  have "written (run_call c w') = take (nat p) (buffer w) @ call_bytes c"
    if s: "seek p w = Inr w'" and r: "be_ready w"
  proof -
    have w': "w' = w\<lparr>position := nat p\<rparr>" "be_ready w'"
      using s r by (auto simp: seek_def be_ready_def writer_ok_def split: if_splits)
    then have "written (run_call c w') = written w' @ call_bytes c"
      by (intro appends_written call.op_appends)
    then show ?thesis by (simp add: w'(1) written_def)
  qed
  then show ?thesis by (auto simp: seek_def)
qed

theorem seek_outcome_witness:
  "seek 2 (new_BinaryWriter False) = Inr ((new_BinaryWriter False)\<lparr>position := 2\<rparr>) \<and>
   written (run_call (CallUint8 5) ((new_BinaryWriter False)\<lparr>position := 2\<rparr>)) = [0, 0, 5]"
  using seek_outcome [of 2 "new_BinaryWriter False" "(new_BinaryWriter False)\<lparr>position := 2\<rparr>"
      "CallUint8 5"]
  by (simp add: new_BinaryWriter_def be_ready_def writer_ok_def DEFAULT_BUFFER_def numeral_2_eq_2)

end
