(* ===== verification/Script_Encoder.thy ===== *)
theory Script_Encoder
  imports Binary_Writer "HOL-Library.Monad_Syntax"
begin

section \<open>ScriptEncoder: AMF0 values\<close>

text \<open>
  The class \<open>ScriptEncoder\<close> of \<open>plugin/webtransport/web/flv-muxer.iife.js\<close>, whose only
  field is its \<open>BinaryWriter\<close>: each method takes the writer and returns it updated. A
  JavaScript value is a \<open>js_value\<close>, with an object as the list of its enumerable own
  properties in the order of \<open>Object.entries\<close>; \<open>JOther\<close> stands for the values no branch
  of \<open>writeScriptDataValue\<close> tests for (functions, symbols, bigints).
\<close>

datatype amf_type =
    AmfNUMBER | AmfBOOLEAN | AmfSTRING | AmfOBJECT | AmfMOVIE_CLIP | AmfNULL | AmfUNDEFINED
  | AmfREFERENCE | AmfECMA_ARRAY | AmfOBJECT_END_MARKER | AmfSTRICT_ARRAY | AmfDATE | AmfLONG_STRING

fun AmfType :: "amf_type \<Rightarrow> int" where
  "AmfType AmfNUMBER = 0"
| "AmfType AmfBOOLEAN = 1"
| "AmfType AmfSTRING = 2"
| "AmfType AmfOBJECT = 3"
| "AmfType AmfMOVIE_CLIP = 4"
| "AmfType AmfNULL = 5"
| "AmfType AmfUNDEFINED = 6"
| "AmfType AmfREFERENCE = 7"
| "AmfType AmfECMA_ARRAY = 8"
| "AmfType AmfOBJECT_END_MARKER = 9"
| "AmfType AmfSTRICT_ARRAY = 10"
| "AmfType AmfDATE = 11"
| "AmfType AmfLONG_STRING = 12"

datatype js_value =
    JNull
  | JUndefined
  | JBoolean bool
  | JNumber f64
  | JString jsstring
  | JDate f64 \<comment> \<open>its \<open>getTime()\<close>\<close>
  | JArray "js_value list"
  | JObject "(jsstring \<times> js_value) list"
  | JOther

definition writeScriptDataDate :: "f64 \<Rightarrow> writer \<Rightarrow> writer" where
  "writeScriptDataDate time w = writeUint16 0 (writeFloat64 time w)"

definition writeScriptDataLongString :: "jsstring \<Rightarrow> writer \<Rightarrow> writer" where
  "writeScriptDataLongString str w =
     (let strBytes = text_encode str
      in writeBytes strBytes (writeUint32 (int (length strBytes)) w))"

definition writeScriptDataObjectEnd :: "writer \<Rightarrow> writer" where
  "writeScriptDataObjectEnd w = writeUint8 9 (writeUint8 0 (writeUint8 0 w))"

definition writeScriptDataString :: "jsstring \<Rightarrow> writer \<Rightarrow> writer" where
  "writeScriptDataString str w =
     (let strBytes = text_encode str
      in writeBytes strBytes (writeUint16 (int (length strBytes)) w))"

text \<open>
  The recursive methods. \<open>writeProperties\<close> is the loop over \<open>Object.entries\<close> that
  \<open>writeScriptDataEcmaArray\<close> and \<open>writeScriptDataObject\<close> run, \<open>writeElements\<close> the loop of
  \<open>writeScriptDataStrictArray\<close>.
\<close>

function (sequential)
      writeScriptDataValue :: "js_value \<Rightarrow> writer \<Rightarrow> writer"
  and writeScriptDataEcmaArray :: "(jsstring \<times> js_value) list \<Rightarrow> writer \<Rightarrow> writer"
  and writeScriptDataStrictArray :: "js_value list \<Rightarrow> writer \<Rightarrow> writer"
  and writeScriptDataObjectProperty :: "jsstring \<Rightarrow> js_value \<Rightarrow> writer \<Rightarrow> writer"
  and writeProperties :: "(jsstring \<times> js_value) list \<Rightarrow> writer \<Rightarrow> writer"
  and writeElements :: "js_value list \<Rightarrow> writer \<Rightarrow> writer"
where
  "writeScriptDataValue JNull w = writeUint8 (AmfType AmfNULL) w"
| "writeScriptDataValue JUndefined w = writeUint8 (AmfType AmfUNDEFINED) w"
| "writeScriptDataValue (JBoolean b) w =
     writeUint8 (if b then 1 else 0) (writeUint8 (AmfType AmfBOOLEAN) w)"
| "writeScriptDataValue (JNumber x) w = writeFloat64 x (writeUint8 (AmfType AmfNUMBER) w)"
| "writeScriptDataValue (JString s) w =
     (if length s > 65535
      then writeScriptDataLongString s (writeUint8 (AmfType AmfLONG_STRING) w)
      else writeScriptDataString s (writeUint8 (AmfType AmfSTRING) w))"
| "writeScriptDataValue (JDate time) w =
     writeScriptDataDate time (writeUint8 (AmfType AmfDATE) w)"
| "writeScriptDataValue (JArray xs) w =
     writeScriptDataStrictArray xs (writeUint8 (AmfType AmfSTRICT_ARRAY) w)"
| "writeScriptDataValue (JObject ps) w =
     writeScriptDataEcmaArray ps (writeUint8 (AmfType AmfECMA_ARRAY) w)"
| "writeScriptDataValue JOther w = w"
| "writeScriptDataEcmaArray ps w =
     writeScriptDataObjectEnd (writeProperties ps (writeUint32 (int (length ps)) w))"
| "writeScriptDataStrictArray xs w = writeElements xs (writeUint32 (int (length xs)) w)"
| "writeScriptDataObjectProperty k v w = writeScriptDataValue v (writeScriptDataString k w)"
| "writeProperties [] w = w"
| "writeProperties ((k, v) # ps) w = writeProperties ps (writeScriptDataObjectProperty k v w)"
| "writeElements [] w = w"
| "writeElements (x # xs) w = writeElements xs (writeScriptDataValue x w)"
  by pat_completeness auto
termination
  by (relation "measure (\<lambda>x. case x of
        Inl (Inl (v, w)) \<Rightarrow> 3 * size v
      | Inl (Inr (Inl (ps, w))) \<Rightarrow> 3 * size_list (size_prod (\<lambda>_. 0) size) ps + 2
      | Inl (Inr (Inr (xs, w))) \<Rightarrow> 3 * size_list size xs + 2
      | Inr (Inl (k, v, w)) \<Rightarrow> 3 * size v + 1
      | Inr (Inr (Inl (ps, w))) \<Rightarrow> 3 * size_list (size_prod (\<lambda>_. 0) size) ps + 1
      | Inr (Inr (Inr (xs, w))) \<Rightarrow> 3 * size_list size xs + 1)") simp_all

definition writeScriptDataObject :: "(jsstring \<times> js_value) list \<Rightarrow> writer \<Rightarrow> writer" where
  "writeScriptDataObject objs w = writeScriptDataObjectEnd (writeProperties objs w)"

subsection \<open>What is appended\<close>

definition amf_text :: "jsstring \<Rightarrow> bytes" where
  "amf_text s = be_bytes 2 (int (length (text_encode s))) @ text_encode s"

definition amf_long_text :: "jsstring \<Rightarrow> bytes" where
  "amf_long_text s = be_bytes 4 (int (length (text_encode s))) @ text_encode s"

fun amf_bytes :: "js_value \<Rightarrow> bytes"
  and amf_entries :: "(jsstring \<times> js_value) list \<Rightarrow> bytes"
  and amf_elements :: "js_value list \<Rightarrow> bytes"
where
  "amf_bytes JNull = [5]"
| "amf_bytes JUndefined = [6]"
| "amf_bytes (JBoolean b) = [1, if b then 1 else 0]"
| "amf_bytes (JNumber x) = 0 # be_bytes 8 (uint x)"
| "amf_bytes (JString s) =
     (if length s > 65535 then 12 # amf_long_text s else 2 # amf_text s)"
| "amf_bytes (JDate t) = 11 # be_bytes 8 (uint t) @ [0, 0]"
| "amf_bytes (JArray xs) = 10 # be_bytes 4 (int (length xs)) @ amf_elements xs"
| "amf_bytes (JObject ps) = 8 # be_bytes 4 (int (length ps)) @ amf_entries ps @ [0, 0, 9]"
| "amf_bytes JOther = []"
| "amf_entries [] = []"
| "amf_entries ((k, v) # ps) = amf_text k @ amf_bytes v @ amf_entries ps"
| "amf_elements [] = []"
| "amf_elements (x # xs) = amf_bytes x @ amf_elements xs"

interpretation wstr: append_op writeScriptDataString amf_text
proof
  fix w v assume r: "be_ready w"
  then show "appends w (writeScriptDataString v w) (amf_text v)"
    unfolding writeScriptDataString_def amf_text_def Let_def
    by (intro u16.op_then wbytes.op_appends u16.op_ready)
qed

interpretation wlong: append_op writeScriptDataLongString amf_long_text
proof
  fix w v assume r: "be_ready w"
  then show "appends w (writeScriptDataLongString v w) (amf_long_text v)"
    unfolding writeScriptDataLongString_def amf_long_text_def Let_def
    by (intro u32.op_then wbytes.op_appends u32.op_ready)
qed

interpretation wdate: append_op writeScriptDataDate "\<lambda>t. be_bytes 8 (uint t) @ [0, 0]"
proof
  fix w v assume r: "be_ready w"
  have "be_bytes 2 0 = [0, 0]" by (simp add: numeral_2_eq_2)
  then show "appends w (writeScriptDataDate v w) (be_bytes 8 (uint v) @ [0, 0])"
    using r u16.op_appends [of "writeFloat64 v w" 0]
    unfolding writeScriptDataDate_def by (intro wf64.op_then) simp_all
qed

lemma u8_then:
  "be_ready w \<Longrightarrow> appends (writeUint8 v w) w' bs \<Longrightarrow> appends w w' (word_of_int v # bs)"
  using u8.op_then by force

interpretation wend: append_op "\<lambda>_ :: unit. writeScriptDataObjectEnd" "\<lambda>_. [0, 0, 9]"
proof
  fix w assume r: "be_ready w"
  have "appends w (writeScriptDataObjectEnd w) [word_of_int 0, word_of_int 0, word_of_int 9]"
    unfolding writeScriptDataObjectEnd_def
    by (intro u8_then u8.op_appends u8.op_ready r)
  then show "appends w (writeScriptDataObjectEnd w) [0, 0, 9]" by simp
qed

lemma end_after:
  "be_ready w \<Longrightarrow> appends w w' bs \<Longrightarrow>
   appends w (writeScriptDataObjectEnd w') (bs @ [0, 0, 9])"
  by (rule appends_trans [OF _ _ wend.op_appends]) auto

lemma script_appends:
  shows "be_ready w \<Longrightarrow> appends w (writeScriptDataValue v w) (amf_bytes v)"
    and "be_ready w \<Longrightarrow> appends w (writeScriptDataEcmaArray ps w)
           (be_bytes 4 (int (length ps)) @ amf_entries ps @ [0, 0, 9])"
    and "be_ready w \<Longrightarrow> appends w (writeScriptDataStrictArray xs w)
           (be_bytes 4 (int (length xs)) @ amf_elements xs)"
    and "be_ready w \<Longrightarrow> appends w (writeScriptDataObjectProperty k v w)
           (amf_text k @ amf_bytes v)"
    and "be_ready w \<Longrightarrow> appends w (writeProperties ps w) (amf_entries ps)"
    and "be_ready w \<Longrightarrow> appends w (writeElements xs w) (amf_elements xs)"
proof (induction v w and ps w and xs w and k v w and ps w and xs w
    rule: writeScriptDataValue_writeScriptDataEcmaArray_writeScriptDataStrictArray_writeScriptDataObjectProperty_writeProperties_writeElements.induct)
  case (3 b w)
  then show ?case using u8_then [OF _ u8.op_appends, of w 1 "if b then 1 else 0"]
    by (cases b) simp_all
next
  case (4 x w)
  then show ?case using u8_then [OF _ wf64.op_appends, of w 0 x] by simp
next
  case (5 s w)
  then show ?case
    using u8_then [OF _ wlong.op_appends, of w 12 s] u8_then [OF _ wstr.op_appends, of w 2 s]
    by simp
next
  case (6 t w)
  then show ?case using u8_then [OF _ wdate.op_appends, of w 11 t] by simp
next
  case (7 xs w)
  then show ?case using u8_then [of w 10] by simp
next
  case (8 ps w)
  then show ?case using u8_then [of w 8] by simp
next
  case (10 ps w)
  then have "appends (writeUint32 (int (length ps)) w)
      (writeProperties ps (writeUint32 (int (length ps)) w)) (amf_entries ps)" by simp
  then have "appends (writeUint32 (int (length ps)) w) (writeScriptDataEcmaArray ps w)
      (amf_entries ps @ [0, 0, 9])"
    using "10.prems" end_after by simp
  then show ?case using "10.prems" by (intro u32.op_then)
next
  case (11 xs w)
  then show ?case by (auto intro: u32.op_then)
next
  case (12 k v w)
  then show ?case by (auto intro: wstr.op_then)
next
  case (14 k v ps w)
  then have "appends w (writeScriptDataObjectProperty k v w) (amf_text k @ amf_bytes v)" by simp
  moreover from this have "be_ready (writeScriptDataObjectProperty k v w)" by blast
  ultimately show ?case
    using 14 appends_trans [of w "writeScriptDataObjectProperty k v w"] by fastforce
next
  case (16 x xs w)
  then have "appends w (writeScriptDataValue x w) (amf_bytes x)" by simp
  moreover from this have "be_ready (writeScriptDataValue x w)" by blast
  ultimately show ?case using 16 appends_trans [of w "writeScriptDataValue x w"] by fastforce
qed (use u8.op_appends [of _ 5] u8.op_appends [of _ 6] in \<open>simp_all add: appends_refl\<close>)

interpretation wvalue: append_op writeScriptDataValue amf_bytes
  by unfold_locales (rule script_appends)

interpretation wobject: append_op writeScriptDataObject "\<lambda>ps. amf_entries ps @ [0, 0, 9]"
proof
  fix w v assume r: "be_ready w"
  have "appends w (writeProperties v w) (amf_entries v)" using r by (rule script_appends)
  then show "appends w (writeScriptDataObject v w) (amf_entries v @ [0, 0, 9])"
    unfolding writeScriptDataObject_def using r
    by (blast intro: end_after)
qed

subsection \<open>Reading AMF0 back\<close>

text \<open>
  The abstract values AMF0 carries, and a reader for them. Strings are compared as the
  UTF-8 bytes they travel as. The reader spends one unit of fuel per nested call and
  refuses an ECMA array whose announced count is not the number of its entries;
  \<open>read_amf\<close> starts it with enough fuel for its input.
\<close>

datatype amf =
    ANumber f64 | ABoolean bool | AString bytes | ANull | AUndefined | ADate f64
  | AStrict "amf list" | AEcma "(bytes \<times> amf) list"

definition take_bytes :: "nat \<Rightarrow> bytes \<Rightarrow> (bytes \<times> bytes) option" where
  "take_bytes n bs = (if length bs < n then None else Some (take n bs, drop n bs))"

definition take_be :: "nat \<Rightarrow> bytes \<Rightarrow> (nat \<times> bytes) option" where
  "take_be n bs = do { (x, rest) \<leftarrow> take_bytes n bs; Some (be_val x, rest) }"

definition take_text :: "nat \<Rightarrow> bytes \<Rightarrow> (bytes \<times> bytes) option" where
  "take_text n bs = do { (k, rest) \<leftarrow> take_be n bs; take_bytes k rest }"

fun amf_value :: "nat \<Rightarrow> bytes \<Rightarrow> (amf \<times> bytes) option"
  and amf_items :: "nat \<Rightarrow> nat \<Rightarrow> bytes \<Rightarrow> (amf list \<times> bytes) option"
  and amf_pairs :: "nat \<Rightarrow> bytes \<Rightarrow> ((bytes \<times> amf) list \<times> bytes) option"
where
  "amf_value 0 _ = None"
| "amf_value (Suc n) [] = None"
| "amf_value (Suc n) (m # bs) =
     (if m = 0 then do { (x, r) \<leftarrow> take_be 8 bs; Some (ANumber (word_of_nat x), r) }
      else if m = 1 then do { (x, r) \<leftarrow> take_be 1 bs; Some (ABoolean (x \<noteq> 0), r) }
      else if m = 2 then do { (s, r) \<leftarrow> take_text 2 bs; Some (AString s, r) }
      else if m = 5 then Some (ANull, bs)
      else if m = 6 then Some (AUndefined, bs)
      else if m = 8 then do { (k, r) \<leftarrow> take_be 4 bs; (ps, r) \<leftarrow> amf_pairs n r;
        if length ps = k then Some (AEcma ps, r) else None }
      else if m = 10 then do { (k, r) \<leftarrow> take_be 4 bs; (xs, r) \<leftarrow> amf_items n k r;
        Some (AStrict xs, r) }
      else if m = 11 then do { (x, r) \<leftarrow> take_be 8 bs; (z, r) \<leftarrow> take_be 2 r;
        Some (ADate (word_of_nat x), r) }
      else if m = 12 then do { (s, r) \<leftarrow> take_text 4 bs; Some (AString s, r) }
      else None)"
| "amf_items 0 _ _ = None"
| "amf_items (Suc n) 0 bs = Some ([], bs)"
| "amf_items (Suc n) (Suc k) bs =
     do { (x, r) \<leftarrow> amf_value n bs; (xs, r) \<leftarrow> amf_items n k r; Some (x # xs, r) }"
| "amf_pairs 0 _ = None"
| "amf_pairs (Suc n) bs =
     do { (key, r) \<leftarrow> take_text 2 bs;
          if key = [] \<and> take 1 r = [9] then Some ([], drop 1 r)
          else do { (v, r) \<leftarrow> amf_value n r; (ps, r) \<leftarrow> amf_pairs n r; Some ((key, v) # ps, r) } }"

definition read_amf :: "bytes \<Rightarrow> (amf \<times> bytes) option" where
  "read_amf bs = amf_value (2 * length bs) bs"

text \<open>The value a JavaScript value is to arrive as, and the values whose sizes fit.\<close>

fun amf_of :: "js_value \<Rightarrow> amf" where
  "amf_of JNull = ANull"
| "amf_of JUndefined = AUndefined"
| "amf_of (JBoolean b) = ABoolean b"
| "amf_of (JNumber x) = ANumber x"
| "amf_of (JString s) = AString (text_encode s)"
| "amf_of (JDate t) = ADate t"
| "amf_of (JArray xs) = AStrict (map amf_of xs)"
| "amf_of (JObject ps) = AEcma (map (\<lambda>p. (text_encode (fst p), amf_of (snd p))) ps)"
| "amf_of JOther = AUndefined"

definition short_text :: "jsstring \<Rightarrow> bool" where
  "short_text s \<longleftrightarrow> length (text_encode s) < 2 ^ 16"

fun amf_fits :: "js_value \<Rightarrow> bool" where
  "amf_fits (JString s) \<longleftrightarrow>
     (if length s > 65535 then length (text_encode s) < 2 ^ 32 else short_text s)"
| "amf_fits (JArray xs) \<longleftrightarrow> length xs < 2 ^ 32 \<and> (\<forall>x \<in> set xs. amf_fits x)"
| "amf_fits (JObject ps) \<longleftrightarrow>
     length ps < 2 ^ 32 \<and> (\<forall>p \<in> set ps. short_text (fst p) \<and> amf_fits (snd p))"
| "amf_fits JOther \<longleftrightarrow> False"
| "amf_fits _ \<longleftrightarrow> True"

lemma take_bytes_append [simp]: "length xs = n \<Longrightarrow> take_bytes n (xs @ r) = Some (xs, r)"
  by (simp add: take_bytes_def)

lemma take_be_append:
  "m < 256 ^ n \<Longrightarrow> take_be n (be_bytes n (int m) @ r) = Some (m, r)"
  by (simp add: take_be_def be_val_be_bytes_nat)

lemma take_be_f64: "take_be 8 (be_bytes 8 (uint (x :: f64)) @ r) = Some (unat x, r)"
  using take_be_append [of "unat x" 8 r] unsigned_less [of x, where 'a = nat] by simp

lemma take_text_append:
  "length t < 256 ^ n \<Longrightarrow> take_text n (be_bytes n (int (length t)) @ t @ r) = Some (t, r)"
  by (simp add: take_text_def take_be_append)

lemma take_text_short: "short_text s \<Longrightarrow> take_text 2 (amf_text s @ r) = Some (text_encode s, r)"
  using take_text_append [of "text_encode s" 2 r] by (simp add: amf_text_def short_text_def)

lemma take_text_long:
  "length (text_encode s) < 2 ^ 32 \<Longrightarrow>
   take_text 4 (amf_long_text s @ r) = Some (text_encode s, r)"
  using take_text_append [of "text_encode s" 4 r] by (simp add: amf_long_text_def)

text \<open>A value starts with a marker, and no value's marker is the end-of-object marker.\<close>

lemma amf_bytes_head:
  "amf_fits v \<Longrightarrow> \<exists>m bs. amf_bytes v = m # bs \<and> m \<noteq> 9"
  by (cases v) auto

lemma amf_roundtrip_fuel:
  shows "amf_fits v \<Longrightarrow> 2 * length (amf_bytes v) \<le> n \<Longrightarrow>
      amf_value n (amf_bytes v @ r) = Some (amf_of v, r)"
    and "(\<forall>p \<in> set ps. short_text (fst p) \<and> amf_fits (snd p)) \<Longrightarrow>
      2 * length (amf_entries ps) + 1 \<le> n \<Longrightarrow>
      amf_pairs n (amf_entries ps @ [0, 0, 9] @ r)
        = Some (map (\<lambda>p. (text_encode (fst p), amf_of (snd p))) ps, r)"
    and "(\<forall>x \<in> set xs. amf_fits x) \<Longrightarrow> 2 * length (amf_elements xs) + 1 \<le> n \<Longrightarrow>
      amf_items n (length xs) (amf_elements xs @ r) = Some (map amf_of xs, r)"
proof (induction v and ps and xs arbitrary: n r and n r and n r
    rule: amf_bytes_amf_entries_amf_elements.induct)
  case 1
  then show ?case by (cases n) simp_all
next
  case 2
  then show ?case by (cases n) simp_all
next
  case (3 b)
  have "take_be 1 ((if b then 1 else 0) # r) = Some (if b then 1 else 0, r)"
    by (simp add: take_be_def take_bytes_def be_val_def)
  then show ?case using 3 by (cases n) simp_all
next
  case (4 x)
  then show ?case by (cases n) (simp_all add: take_be_f64)
next
  case (5 s)
  then show ?case by (cases n) (auto simp: take_text_short take_text_long split: if_splits)
next
  case (6 t)
  have z: "take_be 2 (0 # 0 # r) = Some (0, r)"
    by (simp add: take_be_def take_bytes_def be_val_def numeral_2_eq_2)
  show ?case using 6 z by (cases n) (simp_all add: take_be_f64)
next
  case (7 xs)
  then obtain m where m: "n = Suc m" by (cases n) auto
  have "amf_items m (length xs) (amf_elements xs @ r) = Some (map amf_of xs, r)"
    using 7 m by (intro "7.IH") auto
  then show ?case using 7 m by (simp add: take_be_append)
next
  case (8 ps)
  then obtain m where m: "n = Suc m" by (cases n) auto
  have "amf_pairs m (amf_entries ps @ [0, 0, 9] @ r)
      = Some (map (\<lambda>p. (text_encode (fst p), amf_of (snd p))) ps, r)"
    using 8 m by (intro "8.IH") auto
  then show ?case using 8 m by (simp add: take_be_append)
next
  case 9
  then show ?case by simp
next
  case 10
  have "take_text 2 (0 # 0 # 9 # r) = Some ([], 9 # r)"
    by (simp add: take_text_def take_be_def take_bytes_def be_val_def numeral_2_eq_2)
  then show ?case using 10 by (cases n) simp_all
next
  case (11 k v ps)
  then obtain m where m: "n = Suc m" by (cases n) auto
  obtain b bs where h: "amf_bytes v = b # bs" "b \<noteq> 9" using 11 amf_bytes_head [of v] by auto
  have "amf_value m (amf_bytes v @ amf_entries ps @ [0, 0, 9] @ r)
      = Some (amf_of v, amf_entries ps @ [0, 0, 9] @ r)"
    using 11 m by (intro "11.IH") auto
  moreover have "amf_pairs m (amf_entries ps @ [0, 0, 9] @ r)
      = Some (map (\<lambda>p. (text_encode (fst p), amf_of (snd p))) ps, r)"
    using 11 m h by (intro "11.IH") auto
  ultimately show ?case using 11 m h by (simp add: take_text_short)
next
  case 12
  then show ?case by (cases n) simp_all
next
  case (13 x xs)
  then obtain m where m: "n = Suc m" by (cases n) auto
  obtain b bs where h: "amf_bytes x = b # bs" using 13 amf_bytes_head [of x] by auto
  have "amf_value m (amf_bytes x @ amf_elements xs @ r) = Some (amf_of x, amf_elements xs @ r)"
    using 13 m by (intro "13.IH") auto
  moreover have "amf_items m (length xs) (amf_elements xs @ r) = Some (map amf_of xs, r)"
    using 13 m h by (intro "13.IH") auto
  ultimately show ?case using m by simp
qed

lemma read_amf_bytes: "amf_fits v \<Longrightarrow> read_amf (amf_bytes v @ r) = Some (amf_of v, r)"
  unfolding read_amf_def by (intro amf_roundtrip_fuel) auto

subsection \<open>Properties\<close>

text \<open>
  C11. Every value whose sizes fit survives the AMF0 encoding: what the encoder wrote after
  a reset reads back as that value, nesting, key order and the announced counts included,
  with no byte left over.
\<close>

theorem amf_roundtrip:
  assumes "be_ready w" and "amf_fits v"
  shows "read_amf (getBytes (writeScriptDataValue v (reset w))) = Some (amf_of v, [])"
  using assms append_from_reset [OF wvalue.append_op_axioms, of w v] read_amf_bytes [of v "[]"]
  by simp

theorem amf_roundtrip_witness:
  "amf_fits (JObject [(js_of_ascii ''a'', JArray [JNull, JBoolean True]), ([], JNumber 7)]) \<and>
   read_amf (getBytes (writeScriptDataValue
     (JObject [(js_of_ascii ''a'', JArray [JNull, JBoolean True]), ([], JNumber 7)])
     (reset (new_BinaryWriter False))))
   = Some (AEcma [([97], AStrict [ANull, ABoolean True]), ([], ANumber 7)], [])"
proof -
  let ?v = "JObject [(js_of_ascii ''a'', JArray [JNull, JBoolean True]), ([], JNumber 7)]"
  have t: "text_encode (js_of_ascii ''a'') = [97]"
    by (simp add: text_encode_def js_of_ascii_def lone_unit_def is_lead_def is_trail_def
        utf8_char_def byte_of_def)
  then have "amf_fits ?v" by (simp add: short_text_def)
  then show ?thesis using amf_roundtrip [of "new_BinaryWriter False" ?v] t by simp
qed

text \<open>
  The choice between a short and a long string compares the number of UTF-16 units,
  while the 16-bit prefix counts UTF-8 bytes. A string of at most 65535 units that takes
  more than 65535 bytes is written with a prefix that has wrapped, so a reader sees the
  first \<open>bytes mod 65536\<close> bytes as the string and the rest as the next values.
\<close>

theorem short_string_prefix_wraps:
  assumes "be_ready w" and "length s \<le> 65535" and "65536 \<le> length (text_encode s)"
  shows "read_amf (getBytes (writeScriptDataValue (JString s) (reset w)))
      = Some (AString (take (length (text_encode s) mod 65536) (text_encode s)),
              drop (length (text_encode s) mod 65536) (text_encode s)) \<and>
    drop (length (text_encode s) mod 65536) (text_encode s) \<noteq> []"
proof -
  let ?t = "text_encode s" and ?n = "length (text_encode s) mod 65536"
  have n: "?n < 256 ^ 2" "?n < length ?t" using assms(3) by (simp_all add: less_le_trans)
  have "be_bytes 2 (int (length ?t)) = be_bytes 2 (int ?n)"
    using be_bytes_mod [of 2 "int (length ?t)"] by (simp add: of_nat_mod)
  then have "getBytes (writeScriptDataValue (JString s) (reset w)) = 2 # be_bytes 2 (int ?n) @ ?t"
    using append_from_reset [OF wvalue.append_op_axioms assms(1), of "JString s"] assms(2)
    by (simp add: amf_text_def)
  moreover have "take_text 2 (be_bytes 2 (int ?n) @ ?t) = Some (take ?n ?t, drop ?n ?t)"
    using n by (simp only: take_text_def take_be_append) (simp add: take_bytes_def)
  ultimately show ?thesis using n(2) by (simp add: read_amf_def)
qed

theorem short_string_prefix_wraps_witness:
  "length (text_encode (replicate 21846 (0x4E2D :: 16 word))) = 65538 \<and>
   read_amf (getBytes (writeScriptDataValue (JString (replicate 21846 0x4E2D))
       (reset (new_BinaryWriter False))))
     = Some (AString (take 2 (text_encode (replicate 21846 0x4E2D))),
             drop 2 (text_encode (replicate 21846 0x4E2D)))"
proof -
  define s where "s = replicate 21846 (0x4E2D :: 16 word)"
  have "text_encode s = concat (replicate 21846 (utf8_char 0x4E2D))"
    unfolding s_def by (subst text_encode_replicate) (simp_all add: is_lead_def is_trail_def)
  then have l: "length (text_encode s) = 65538"
    by (simp add: length_concat sum_list_replicate utf8_char_def)
  have "length s \<le> 65535" by (simp add: s_def)
  then show ?thesis
    using short_string_prefix_wraps [of "new_BinaryWriter False" s] l by (simp add: s_def)
qed

end
