(* ===== verification/Flv_Encoder.thy ===== *)
theory Flv_Encoder
  imports Script_Encoder
begin

section \<open>FlvEncoder: the FLV container\<close>

text \<open>
  The class \<open>FlvEncoder\<close> of \<open>plugin/webtransport/web/flv-muxer.iife.js\<close> and the enums it
  indexes. It extends \<open>ScriptEncoder\<close> and shares its writer, so each method takes the
  writer and returns the produced bytes with the writer it leaves behind. Timestamps are
  the milliseconds the tracks compute, with their fraction; the encoder's bitwise
  operators truncate them. The second half of the theory is a reader of the FLV format,
  against which the encoder is proved.
\<close>

subsection \<open>Enums\<close>

datatype sound_format =
    LinearPCMPlatformEndian | ADPCM | MP3 | LinearPCMLittleEndian | Nellymoser16kHzMono
  | Nellymoser8kHzMono | Nellymoser | G711ALawLogarithmicPCM | G711MuLawLogarithmicPCM
  | ReservedSound | AAC | Speex | MP38kHz | DeviceSpecificSound

fun SoundFormat :: "sound_format \<Rightarrow> int" where
  "SoundFormat LinearPCMPlatformEndian = 0"
| "SoundFormat ADPCM = 1"
| "SoundFormat MP3 = 2"
| "SoundFormat LinearPCMLittleEndian = 3"
| "SoundFormat Nellymoser16kHzMono = 4"
| "SoundFormat Nellymoser8kHzMono = 5"
| "SoundFormat Nellymoser = 6"
| "SoundFormat G711ALawLogarithmicPCM = 7"
| "SoundFormat G711MuLawLogarithmicPCM = 8"
| "SoundFormat ReservedSound = 9"
| "SoundFormat AAC = 10"
| "SoundFormat Speex = 11"
| "SoundFormat MP38kHz = 14"
| "SoundFormat DeviceSpecificSound = 15"

datatype sound_rate = kHz5_5 | kHz11 | kHz22 | kHz44

fun SoundRate :: "sound_rate \<Rightarrow> int" where
  "SoundRate kHz5_5 = 0"
| "SoundRate kHz11 = 1"
| "SoundRate kHz22 = 2"
| "SoundRate kHz44 = 3"

datatype sound_size = Sound8bit | Sound16bit

fun SoundSize :: "sound_size \<Rightarrow> int" where
  "SoundSize Sound8bit = 0"
| "SoundSize Sound16bit = 1"

datatype sound_type = Mono | Stereo

fun SoundType :: "sound_type \<Rightarrow> int" where
  "SoundType Mono = 0"
| "SoundType Stereo = 1"

datatype aac_packet_type = AACSequenceHeader | AACRaw

fun AACPacketType :: "aac_packet_type \<Rightarrow> int" where
  "AACPacketType AACSequenceHeader = 0"
| "AACPacketType AACRaw = 1"

datatype tag_type = AUDIO | VIDEO | SCRIPT

fun TagType :: "tag_type \<Rightarrow> int" where
  "TagType AUDIO = 8"
| "TagType VIDEO = 9"
| "TagType SCRIPT = 18"

datatype frame_type = KeyFrame | InterFrame | DisposableInterFrame | GenerateKeyFrame | VideoInfo

fun FrameType :: "frame_type \<Rightarrow> int" where
  "FrameType KeyFrame = 1"
| "FrameType InterFrame = 2"
| "FrameType DisposableInterFrame = 3"
| "FrameType GenerateKeyFrame = 4"
| "FrameType VideoInfo = 5"

datatype code_id = H263 | ScreenVideo | VP6 | VP6WithAlphaChannel | ScreenVideo2 | AVC

fun CodeId :: "code_id \<Rightarrow> int" where
  "CodeId H263 = 2"
| "CodeId ScreenVideo = 3"
| "CodeId VP6 = 4"
| "CodeId VP6WithAlphaChannel = 5"
| "CodeId ScreenVideo2 = 6"
| "CodeId AVC = 7"

datatype avc_packet_type = SequenceHeader | NALU | EndOfSequence

fun AvcPacketType :: "avc_packet_type \<Rightarrow> int" where
  "AvcPacketType SequenceHeader = 0"
| "AvcPacketType NALU = 1"
| "AvcPacketType EndOfSequence = 2"

subsection \<open>The encoder\<close>

definition encodeFlvHeader :: "bool \<Rightarrow> bool \<Rightarrow> writer \<Rightarrow> bytes \<times> writer" where
  "encodeFlvHeader hasVideo hasAudio w =
     (let w = reset w;
          w = writeString (js_of_ascii ''FLV'') w;
          w = writeUint8 1 w;
          flag = (if hasAudio then 4 else 0) OR (if hasVideo then 1 else 0);
          w = writeUint8 flag w;
          w = writeUint32 9 w;
          w = writeUint32 0 w
      in (getBytes w, w))"

definition encodeFlvTag :: "tag_type \<Rightarrow> bytes \<Rightarrow> rat \<Rightarrow> bytes \<Rightarrow> writer \<Rightarrow> bytes \<times> writer" where
  "encodeFlvTag type header timestamp data w =
     (let dataSize = int (length header) + int (length data);
          w = reset w;
          w = writeUint8 (TagType type) w;
          w = writeUint24 dataSize w;
          w = writeUint24 (sint (to_int32 timestamp AND 0xFFFFFF)) w;
          w = writeUint8 (sint (signed_drop_bit 24 (to_int32 timestamp) AND 0xFF)) w;
          w = writeUint24 0 w;
          w = writeBytes header w;
          w = writeBytes data w;
          w = writeUint32 (11 + dataSize) w
      in (getBytes w, w))"

definition encodeScriptDataTag :: "js_value \<Rightarrow> writer \<Rightarrow> bytes \<times> writer" where
  "encodeScriptDataTag metadata w =
     (let w = reset w;
          w = writeScriptDataValue (JString (js_of_ascii ''onMetaData'')) w;
          w = writeScriptDataValue metadata w
      in encodeFlvTag SCRIPT [] 0 (getBytes w) w)"

record audio_params =
  aacPacketType :: aac_packet_type
  audioData :: "bytes option"
  soundFormat :: sound_format
  soundRate :: sound_rate
  soundSize :: sound_size
  soundType :: sound_type
  audioTimestamp :: rat

definition encodeAudioTag :: "audio_params \<Rightarrow> writer \<Rightarrow> bytes option \<times> writer" where
  "encodeAudioTag params w =
     (let firstByte = push_bit 4 (SoundFormat (soundFormat params)) OR
                      push_bit 2 (SoundRate (soundRate params)) OR
                      push_bit 1 (SoundSize (soundSize params)) OR
                      SoundType (soundType params)
      in case audioData params of
           Some data \<Rightarrow>
             if soundFormat params = AAC then
               let header = [word_of_int firstByte, word_of_int (AACPacketType (aacPacketType params))];
                   (tag, w) = encodeFlvTag AUDIO header (audioTimestamp params) data w
               in (Some tag, w)
             else (None, w)
         | None \<Rightarrow> (None, w))"

definition encodeVideoTag ::
  "frame_type \<Rightarrow> code_id \<Rightarrow> avc_packet_type \<Rightarrow> int \<Rightarrow> rat \<Rightarrow> bytes \<Rightarrow> writer \<Rightarrow> bytes \<times> writer"
where
  "encodeVideoTag frameType codecId avcPacketType compositionTime timestamp videoBody w =
     (let header = [word_of_int (push_bit 4 (FrameType frameType) OR CodeId codecId),
                    word_of_int (AvcPacketType avcPacketType),
                    shr_byte 16 (of_int compositionTime),
                    shr_byte 8 (of_int compositionTime),
                    shr_byte 0 (of_int compositionTime)]
      in encodeFlvTag VIDEO header timestamp videoBody w)"

subsection \<open>The bytes of a tag\<close>

definition flv_header_bytes :: "bool \<Rightarrow> bool \<Rightarrow> bytes" where
  "flv_header_bytes hasVideo hasAudio =
     [0x46, 0x4C, 0x56, 1, (if hasAudio then 4 else 0) + (if hasVideo then 1 else 0)]
     @ be_bytes 4 9 @ be_bytes 4 0"

definition flv_tag_bytes :: "tag_type \<Rightarrow> int \<Rightarrow> bytes \<Rightarrow> bytes" where
  "flv_tag_bytes type ts body =
     [word_of_int (TagType type)] @ be_bytes 3 (int (length body)) @
     be_bytes 3 ts @ [word_of_int (ts div 2 ^ 24)] @ be_bytes 3 0 @ body @
     be_bytes 4 (11 + int (length body))"

lemma append_op_then:
  "append_op f enc \<Longrightarrow> be_ready w \<Longrightarrow> appends (f v w) w' bs \<Longrightarrow> appends w w' (enc v @ bs)"
  by (rule append_op.op_then)

lemmas write_then = u8.op_then u16.op_then u24.op_then u32.op_then wbytes.op_then
  wstring.op_then wvalue.op_then

lemmas write_ready = u8.op_ready u16.op_ready u24.op_ready u32.op_ready wbytes.op_ready
  wstring.op_ready wvalue.op_ready

lemma sint_low24: "sint (to_int32 x AND 0xFFFFFF) = js_trunc x mod 16777216"
proof -
  have m: "(0xFFFFFF :: 32 word) = mask 24" by (simp add: mask_eq_exp_minus_1)
  have "sint (to_int32 x AND mask 24) = take_bit 24 (js_trunc x)"
    by (rule bit_eqI) (auto simp: to_int32_def bit_simps min_def)
  then show ?thesis by (simp add: m take_bit_eq_mod)
qed

lemma sint_high8: "(scast (signed_drop_bit 24 (to_int32 x) AND 0xFF) :: byte)
   = word_of_int (js_trunc x div 16777216)"
proof -
  have "scast y = (ucast y :: byte)" for y :: "32 word"
    by (rule bit_word_eqI) (simp add: bit_simps min_def)
  then show ?thesis using shr_byte_eq [of 24 x] by (simp add: shr_byte_def)
qed

lemma be_bytes_low24: "be_bytes 3 (v mod 16777216) = be_bytes 3 v"
  using be_bytes_mod [of 3 v] by simp

lemma encodeFlvTag_bytes:
  assumes "be_ready w"
  shows "fst (encodeFlvTag type header ts data w) = flv_tag_bytes type (js_trunc ts) (header @ data)"
    and "be_ready (snd (encodeFlvTag type header ts data w))"
proof -
  let ?w = "snd (encodeFlvTag type header ts data w)"
  let ?n = "int (length header) + int (length data)"
  have "appends (reset w) ?w ([word_of_int (TagType type)] @ be_bytes 3 ?n @
      be_bytes 3 (sint (to_int32 ts AND 0xFFFFFF)) @
      [word_of_int (sint (signed_drop_bit 24 (to_int32 ts) AND 0xFF))] @
      be_bytes 3 0 @ header @ data @ be_bytes 4 (11 + ?n))"
    using assms unfolding encodeFlvTag_def Let_def snd_conv
    by (intro write_then write_appends write_ready be_ready_reset)
  then have a: "appends (reset w) ?w (flv_tag_bytes type (js_trunc ts) (header @ data))"
    by (simp add: flv_tag_bytes_def sint_low24 sint_high8 be_bytes_low24)
  have "fst (encodeFlvTag type header ts data w) = getBytes ?w"
    by (simp add: encodeFlvTag_def Let_def)
  then show "fst (encodeFlvTag type header ts data w)
      = flv_tag_bytes type (js_trunc ts) (header @ data)"
    using appends_getBytes [OF a] by simp
  show "be_ready ?w" using a by blast
qed

lemma ascii_text:
  "text_encode (js_of_ascii ''FLV'') = [0x46, 0x4C, 0x56]"
  "text_encode (js_of_ascii ''onMetaData'')
     = [0x6F, 0x6E, 0x4D, 0x65, 0x74, 0x61, 0x44, 0x61, 0x74, 0x61]"
  by (subst text_encode_ascii; auto simp: js_of_ascii_def)+

lemma encodeFlvHeader_bytes:
  assumes "be_ready w"
  shows "fst (encodeFlvHeader hasVideo hasAudio w) = flv_header_bytes hasVideo hasAudio"
    and "be_ready (snd (encodeFlvHeader hasVideo hasAudio w))"
proof -
  let ?w = "snd (encodeFlvHeader hasVideo hasAudio w)"
  let ?flag = "(if hasAudio then 4 else 0) OR (if hasVideo then 1 else 0) :: int"
  have "appends (reset w) ?w (text_encode (js_of_ascii ''FLV'') @ [word_of_int 1] @
      [word_of_int ?flag] @ be_bytes 4 9 @ be_bytes 4 0)"
    using assms unfolding encodeFlvHeader_def Let_def snd_conv
    by (intro write_then write_appends write_ready be_ready_reset)
  then have a: "appends (reset w) ?w (flv_header_bytes hasVideo hasAudio)"
    by (cases hasVideo; cases hasAudio) (simp_all add: flv_header_bytes_def ascii_text)
  have "fst (encodeFlvHeader hasVideo hasAudio w) = getBytes ?w"
    by (simp add: encodeFlvHeader_def Let_def)
  then show "fst (encodeFlvHeader hasVideo hasAudio w) = flv_header_bytes hasVideo hasAudio"
    using appends_getBytes [OF a] by simp
  show "be_ready ?w" using a by blast
qed

subsection \<open>Reading a tag back\<close>

text \<open>
  A reader of the FLV format, written from its layout: an 11-byte tag header (type, body
  size, low 24 and high 8 bits of the timestamp, stream id 0), the body, and the size of
  the whole tag again. It refuses a tag whose two sizes disagree.
\<close>

record flv_tag =
  tagType :: nat
  tagTime :: nat
  tagBody :: bytes

definition read_tag :: "bytes \<Rightarrow> (flv_tag \<times> bytes) option" where
  "read_tag bs =
     do { (t, r) \<leftarrow> take_be 1 bs; (n, r) \<leftarrow> take_be 3 r; (lo, r) \<leftarrow> take_be 3 r;
          (hi, r) \<leftarrow> take_be 1 r; (sid, r) \<leftarrow> take_be 3 r; (body, r) \<leftarrow> take_bytes n r;
          (prev, r) \<leftarrow> take_be 4 r;
          if prev = 11 + n \<and> sid = 0
          then Some (\<lparr>tagType = t, tagTime = hi * 2 ^ 24 + lo, tagBody = body\<rparr>, r) else None }"

fun read_tags :: "nat \<Rightarrow> bytes \<Rightarrow> flv_tag list option" where
  "read_tags _ [] = Some []"
| "read_tags 0 _ = None"
| "read_tags (Suc n) bs = do { (t, r) \<leftarrow> read_tag bs; ts \<leftarrow> read_tags n r; Some (t # ts) }"

text \<open>A file: the signature, version 1, the flag byte, the header size 9, and tags.\<close>

definition read_flv :: "bytes \<Rightarrow> (nat \<times> flv_tag list) option" where
  "read_flv bs =
     do { (sig, r) \<leftarrow> take_bytes 3 bs; (version, r) \<leftarrow> take_be 1 r; (flags, r) \<leftarrow> take_be 1 r;
          (size, r) \<leftarrow> take_be 4 r; (prev, r) \<leftarrow> take_be 4 r; ts \<leftarrow> read_tags (length r) r;
          if sig = [0x46, 0x4C, 0x56] \<and> version = 1 \<and> size = 9 \<and> prev = 0
          then Some (flags, ts) else None }"

lemma take_be_int: "take_be n (be_bytes n v @ r) = Some (nat (v mod 256 ^ n), r)"
proof -
  have "be_val (be_bytes n v) = nat (v mod 256 ^ n)" by (simp only: be_val_be_bytes [symmetric] nat_int)
  then show ?thesis by (simp add: take_be_def)
qed

lemma take_be_1: "take_be (Suc 0) (b # r) = Some (unat b, r)"
  by (simp add: take_be_def take_bytes_def be_val_def)

lemma length_flv_tag_bytes: "length (flv_tag_bytes type ts body) = 15 + length body"
  by (simp add: flv_tag_bytes_def)

lemma TagType_byte: "TagType t mod 256 = TagType t"
  by (cases t; simp)

lemma unat_byte_nat: "unat (word_of_int v :: byte) = nat (v mod 256)"
  by (simp only: unat_byte_of_int [symmetric] nat_int)

lemma split_time: "nat (ts div 16777216 mod 256) * 16777216 + nat (ts mod 16777216)
   = nat (ts mod 2 ^ 32)"
proof -
  have "ts mod (16777216 * 256) = 16777216 * (ts div 16777216 mod 256) + ts mod 16777216"
    by (rule zmod_zmult2_eq) simp
  then have "ts mod 2 ^ 32 = ts div 16777216 mod 256 * 16777216 + ts mod 16777216" by simp
  then show ?thesis by (simp add: nat_add_distrib nat_mult_distrib)
qed

lemma read_tag_bytes:
  assumes "length body < 2 ^ 24"
  shows "read_tag (flv_tag_bytes type ts body @ r)
    = Some (\<lparr>tagType = nat (TagType type), tagTime = nat (ts mod 2 ^ 32), tagBody = body\<rparr>, r)"
proof -
  let ?n = "int (length body)"
  have n: "?n mod 16777216 = ?n" "(11 + ?n) mod 4294967296 = 11 + ?n"
    using assms by simp_all
  have k: "nat (11 + ?n) = 11 + length body" by simp
  show ?thesis
    unfolding read_tag_def flv_tag_bytes_def
    using split_time [of ts]
    by (simp add: take_be_int take_be_1 TagType_byte unat_byte_nat n k)
qed

lemma read_tags_concat:
  assumes "\<And>t r. t \<in> set ts \<Longrightarrow> enc t \<noteq> [] \<and> read_tag (enc t @ r) = Some (dec t, r)"
    and "length (concat (map enc ts)) \<le> n"
  shows "read_tags n (concat (map enc ts)) = Some (map dec ts)"
  using assms
proof (induction ts arbitrary: n)
  case Nil
  then show ?case by simp
next
  case (Cons t ts)
  then have t: "enc t \<noteq> []" "\<And>r. read_tag (enc t @ r) = Some (dec t, r)" by auto
  then obtain m where m: "n = Suc m" using Cons.prems(2) by (cases n) auto
  have l: "length (concat (map enc ts)) \<le> m"
    using Cons.prems(2) m t(1) by (cases "enc t") auto
  have "read_tags m (concat (map enc ts)) = Some (map dec ts)"
    using Cons.prems(1) l by (intro Cons.IH) auto
  moreover obtain b bs where "enc t @ concat (map enc ts) = b # bs"
    using t(1) by (cases "enc t") auto
  ultimately show ?case using t(2) [of "concat (map enc ts)"] m by simp
qed

lemma read_flv_bytes:
  assumes "read_tags (length r) r = Some ts"
  shows "read_flv (flv_header_bytes hasVideo hasAudio @ r)
    = Some ((if hasAudio then 4 else 0) + (if hasVideo then 1 else 0), ts)"
proof -
  have s: "take_bytes 3 (x # y # z # s) = Some ([x, y, z], s)" for x y z s
    by (simp add: take_bytes_def)
  show ?thesis
    unfolding read_flv_def flv_header_bytes_def using assms
    by (cases hasVideo; cases hasAudio) (simp_all add: take_be_int take_be_1 s)
qed

subsection \<open>Reading the bodies\<close>

text \<open>The AVC video body and the AAC audio body, by their field widths.\<close>

record video_body =
  vbFrame :: nat
  vbCodec :: nat
  vbPacket :: nat
  vbTime :: nat
  vbData :: bytes

definition read_video_body :: "bytes \<Rightarrow> video_body option" where
  "read_video_body bs =
     do { (b, r) \<leftarrow> take_be 1 bs; (p, r) \<leftarrow> take_be 1 r; (ct, r) \<leftarrow> take_be 3 r;
          Some \<lparr>vbFrame = b div 16, vbCodec = b mod 16, vbPacket = p, vbTime = ct, vbData = r\<rparr> }"

record audio_body =
  abFormat :: nat
  abRate :: nat
  abSize :: nat
  abType :: nat
  abPacket :: nat
  abData :: bytes

definition read_audio_body :: "bytes \<Rightarrow> audio_body option" where
  "read_audio_body bs =
     do { (b, r) \<leftarrow> take_be 1 bs; (p, r) \<leftarrow> take_be 1 r;
          Some \<lparr>abFormat = b div 16, abRate = b div 4 mod 4, abSize = b div 2 mod 2,
                abType = b mod 2, abPacket = p, abData = r\<rparr> }"

definition video_header_bytes :: "frame_type \<Rightarrow> code_id \<Rightarrow> avc_packet_type \<Rightarrow> int \<Rightarrow> bytes" where
  "video_header_bytes f c p ct =
     [word_of_int (16 * FrameType f + CodeId c), word_of_int (AvcPacketType p)] @ be_bytes 3 ct"

definition audio_header_bytes ::
  "sound_format \<Rightarrow> sound_rate \<Rightarrow> sound_size \<Rightarrow> sound_type \<Rightarrow> aac_packet_type \<Rightarrow> bytes"
where
  "audio_header_bytes f r s t p =
     [word_of_int (16 * SoundFormat f + 4 * SoundRate r + 2 * SoundSize s + SoundType t),
      word_of_int (AACPacketType p)]"

lemma encodeVideoTag_eq:
  "encodeVideoTag f c p ct ts data w = encodeFlvTag VIDEO (video_header_bytes f c p ct) ts data w"
proof -
  have "push_bit 4 (FrameType f) OR CodeId c = 16 * FrameType f + CodeId c"
    by (cases f; cases c) simp_all
  then show ?thesis
    by (simp add: encodeVideoTag_def video_header_bytes_def shr_byte_eq be_bytes_3)
qed

lemma encodeAudioTag_eq:
  "encodeAudioTag ps w =
     (case audioData ps of
        Some data \<Rightarrow> if soundFormat ps = AAC
          then map_prod Some id (encodeFlvTag AUDIO
            (audio_header_bytes AAC (soundRate ps) (soundSize ps) (soundType ps) (aacPacketType ps))
            (audioTimestamp ps) data w)
          else (None, w)
      | None \<Rightarrow> (None, w))"
proof -
  have "push_bit 4 (SoundFormat AAC) OR push_bit 2 (SoundRate r) OR push_bit 1 (SoundSize s)
      OR SoundType t = 16 * SoundFormat AAC + 4 * SoundRate r + 2 * SoundSize s + SoundType t"
    for r s t by (cases r; cases s; cases t) simp_all
  then show ?thesis
    by (auto simp: encodeAudioTag_def audio_header_bytes_def Let_def map_prod_def
        split: option.split prod.split)
qed

lemma video_byte:
  "unat (word_of_int (16 * FrameType f + CodeId c) :: byte) div 16 = nat (FrameType f)"
  "unat (word_of_int (16 * FrameType f + CodeId c) :: byte) mod 16 = nat (CodeId c)"
  by (cases f; cases c; simp)+

lemma packet_byte:
  "unat (word_of_int (AvcPacketType p) :: byte) = nat (AvcPacketType p)"
  "unat (word_of_int (AACPacketType q) :: byte) = nat (AACPacketType q)"
  by (cases p; simp) (cases q; simp)

lemma audio_byte:
  fixes f r s t
  defines "b \<equiv> word_of_int (16 * SoundFormat f + 4 * SoundRate r + 2 * SoundSize s + SoundType t) :: byte"
  shows "unat b div 16 = nat (SoundFormat f)" "unat b div 4 mod 4 = nat (SoundRate r)"
    "unat b div 2 mod 2 = nat (SoundSize s)" "unat b mod 2 = nat (SoundType t)"
  unfolding b_def by (cases f; cases r; cases s; cases t; simp)+

lemma read_video_header:
  "read_video_body (video_header_bytes f c p ct @ data)
    = Some \<lparr>vbFrame = nat (FrameType f), vbCodec = nat (CodeId c), vbPacket = nat (AvcPacketType p),
            vbTime = nat (ct mod 2 ^ 24), vbData = data\<rparr>"
  unfolding read_video_body_def video_header_bytes_def
  using video_byte [of f c] packet_byte(1) [of p]
  by (simp add: take_be_int take_be_1 del: of_int_add of_int_mult)

lemma read_audio_header:
  "read_audio_body (audio_header_bytes f r s t p @ data)
    = Some \<lparr>abFormat = nat (SoundFormat f), abRate = nat (SoundRate r), abSize = nat (SoundSize s),
            abType = nat (SoundType t), abPacket = nat (AACPacketType p), abData = data\<rparr>"
  unfolding read_audio_body_def audio_header_bytes_def
  using audio_byte [of f r s t] packet_byte(2) [of p]
  by (simp add: take_be_1 del: of_int_add of_int_mult)

lemma encodeVideoTag_bytes:
  assumes "be_ready w"
  shows "fst (encodeVideoTag f c p ct ts data w)
      = flv_tag_bytes VIDEO (js_trunc ts) (video_header_bytes f c p ct @ data)"
    and "be_ready (snd (encodeVideoTag f c p ct ts data w))"
  using encodeFlvTag_bytes [OF assms] by (simp_all add: encodeVideoTag_eq)

lemma encodeScriptDataTag_bytes:
  assumes "be_ready w"
  shows "fst (encodeScriptDataTag v w)
      = flv_tag_bytes SCRIPT 0 (amf_bytes (JString (js_of_ascii ''onMetaData'')) @ amf_bytes v)"
    and "be_ready (snd (encodeScriptDataTag v w))"
proof -
  let ?s = "JString (js_of_ascii ''onMetaData'')"
  let ?w = "writeScriptDataValue v (writeScriptDataValue ?s (reset w))"
  have a: "appends (reset w) ?w (amf_bytes ?s @ amf_bytes v)"
    using assms by (intro wvalue.op_then wvalue.op_appends wvalue.op_ready be_ready_reset)
  then have r: "be_ready ?w" by blast
  have eq: "encodeScriptDataTag v w = encodeFlvTag SCRIPT [] 0 (amf_bytes ?s @ amf_bytes v) ?w"
    using appends_getBytes [OF a] by (simp add: encodeScriptDataTag_def)
  have "js_trunc 0 = 0" using js_trunc_int [of 0] by simp
  then show "fst (encodeScriptDataTag v w) = flv_tag_bytes SCRIPT 0 (amf_bytes ?s @ amf_bytes v)"
    using encodeFlvTag_bytes(1) [OF r, of SCRIPT "[]" 0 "amf_bytes ?s @ amf_bytes v"] eq by simp
  show "be_ready (snd (encodeScriptDataTag v w))"
    using encodeFlvTag_bytes(2) [OF r] eq by simp
qed

subsection \<open>Properties\<close>

text \<open>
  C13. A tag whose body is below 16 MiB reads back: its type, its header and data as one
  body, and the timestamp truncated to whole milliseconds modulo \<open>2 ^ 32\<close>, split over the
  24-bit field and the extension byte; both size fields agree and whatever follows the
  tag is untouched. The encoder's writer stays usable.
\<close>

theorem flv_tag_roundtrip:
  assumes "be_ready w" and "length header + length data < 2 ^ 24"
  shows "read_tag (fst (encodeFlvTag type header ts data w) @ rest)
      = Some (\<lparr>tagType = nat (TagType type), tagTime = nat (js_trunc ts mod 2 ^ 32),
               tagBody = header @ data\<rparr>, rest)
    \<and> be_ready (snd (encodeFlvTag type header ts data w))"
  using encodeFlvTag_bytes [OF assms(1), of type header ts data]
    read_tag_bytes [of "header @ data" type "js_trunc ts" rest] assms(2)
  by simp

theorem flv_tag_roundtrip_witness:
  "read_tag (fst (encodeFlvTag AUDIO [0xAF, 1] (67108865 / 2) [7] (new_BinaryWriter False)))
     = Some (\<lparr>tagType = 8, tagTime = 33554432, tagBody = [0xAF, 1, 7]\<rparr>, [])"
proof -
  have "\<lfloor>67108865 / 2 :: rat\<rfloor> = 33554432" by (rule floor_unique) simp_all
  then show ?thesis
    using flv_tag_roundtrip [of "new_BinaryWriter False" "[0xAF, 1]" "[7]" AUDIO "67108865 / 2" "[]"]
    by (simp add: js_trunc_def)
qed



text \<open>
  A video tag carries what it was made from: frame type and codec in the two nibbles of
  the first byte, the AVC packet type, the 24-bit composition time and the body.
\<close>

theorem video_tag_roundtrip:
  assumes "be_ready w" and "length data < 2 ^ 24 - 5"
  shows "\<exists>t. read_tag (fst (encodeVideoTag f c p ct ts data w)) = Some (t, [])
      \<and> tagType t = 9 \<and> tagTime t = nat (js_trunc ts mod 2 ^ 32)
      \<and> read_video_body (tagBody t) = Some \<lparr>vbFrame = nat (FrameType f), vbCodec = nat (CodeId c),
          vbPacket = nat (AvcPacketType p), vbTime = nat (ct mod 2 ^ 24), vbData = data\<rparr>"
  using encodeVideoTag_bytes(1) [OF assms(1), of f c p ct ts data] read_video_header [of f c p ct data]
    read_tag_bytes [of "video_header_bytes f c p ct @ data" VIDEO "js_trunc ts" "[]"] assms(2)
  by (simp add: video_header_bytes_def)

theorem video_tag_roundtrip_witness:
  "\<exists>t. read_tag (fst (encodeVideoTag KeyFrame AVC NALU 0 40 [1, 2] (new_BinaryWriter False)))
      = Some (t, []) \<and> tagType t = 9 \<and> tagTime t = 40"
  using video_tag_roundtrip [of "new_BinaryWriter False" "[1, 2]" KeyFrame AVC NALU 0 40]
  by (auto simp: js_trunc_def)

text \<open>
  An audio tag exists exactly for AAC with data present (the method otherwise returns
  undefined and leaves the writer alone), and then carries format, rate, sample size,
  channel layout, packet type and data in their bit fields.
\<close>

theorem audio_tag_outcome:
  assumes "be_ready w"
  shows "case audioData ps of
      None \<Rightarrow> encodeAudioTag ps w = (None, w)
    | Some data \<Rightarrow>
        if soundFormat ps \<noteq> AAC then encodeAudioTag ps w = (None, w)
        else length data < 2 ^ 24 - 2 \<longrightarrow>
          (\<exists>bs t. fst (encodeAudioTag ps w) = Some bs \<and> read_tag bs = Some (t, [])
            \<and> tagType t = 8 \<and> tagTime t = nat (js_trunc (audioTimestamp ps) mod 2 ^ 32)
            \<and> read_audio_body (tagBody t) = Some \<lparr>abFormat = 10,
                abRate = nat (SoundRate (soundRate ps)), abSize = nat (SoundSize (soundSize ps)),
                abType = nat (SoundType (soundType ps)),
                abPacket = nat (AACPacketType (aacPacketType ps)), abData = data\<rparr>)"
proof (cases "audioData ps")
  case None
  then show ?thesis by (simp add: encodeAudioTag_eq)
next
  case (Some data)
  let ?h = "audio_header_bytes AAC (soundRate ps) (soundSize ps) (soundType ps) (aacPacketType ps)"
  have "read_tag (flv_tag_bytes AUDIO (js_trunc (audioTimestamp ps)) (?h @ data))
      = Some (\<lparr>tagType = 8, tagTime = nat (js_trunc (audioTimestamp ps) mod 2 ^ 32),
               tagBody = ?h @ data\<rparr>, [])" if "length data < 2 ^ 24 - 2"
    using that read_tag_bytes [of "?h @ data" AUDIO "js_trunc (audioTimestamp ps)" "[]"]
    by (simp add: audio_header_bytes_def)
  then show ?thesis
    using Some encodeFlvTag_bytes(1) [OF assms, of AUDIO ?h "audioTimestamp ps" data]
      read_audio_header [of AAC "soundRate ps" "soundSize ps" "soundType ps" "aacPacketType ps" data]
    by (simp add: encodeAudioTag_eq)
qed

theorem audio_tag_outcome_witness:
  "\<exists>bs t. fst (encodeAudioTag \<lparr>aacPacketType = AACRaw, audioData = Some [3], soundFormat = AAC,
      soundRate = kHz44, soundSize = Sound16bit, soundType = Stereo, audioTimestamp = 20\<rparr>
      (new_BinaryWriter False)) = Some bs \<and> read_tag bs = Some (t, []) \<and> tagType t = 8"
  using audio_tag_outcome [of "new_BinaryWriter False" "\<lparr>aacPacketType = AACRaw, audioData = Some [3],
      soundFormat = AAC, soundRate = kHz44, soundSize = Sound16bit, soundType = Stereo,
      audioTimestamp = 20\<rparr>"]
  by auto

text \<open>
  The script tag is a tag of type 18 at time 0 whose body is the AMF0 string
  \<open>onMetaData\<close> followed by the metadata value and nothing else: the encoder takes the
  metadata bytes out of the shared writer before the tag resets it.
\<close>

theorem script_tag_roundtrip:
  assumes "be_ready w" and "amf_fits v" and "length (amf_bytes v) < 2 ^ 24 - 13"
  shows "\<exists>t r. read_tag (fst (encodeScriptDataTag v w)) = Some (t, []) \<and> tagType t = 18
      \<and> tagTime t = 0
      \<and> read_amf (tagBody t) = Some (AString (text_encode (js_of_ascii ''onMetaData'')), r)
      \<and> read_amf r = Some (amf_of v, [])"
proof -
  let ?s = "JString (js_of_ascii ''onMetaData'')"
  have s: "amf_fits ?s" "length (amf_bytes ?s) = 13"
    by (simp_all add: short_text_def amf_text_def ascii_text)
  have "read_tag (fst (encodeScriptDataTag v w))
      = Some (\<lparr>tagType = 18, tagTime = 0, tagBody = amf_bytes ?s @ amf_bytes v\<rparr>, [])"
    using encodeScriptDataTag_bytes(1) [OF assms(1), of v] s(2) assms(3)
      read_tag_bytes [of "amf_bytes ?s @ amf_bytes v" SCRIPT 0 "[]"]
    by simp
  then show ?thesis
    using read_amf_bytes [OF s(1), of "amf_bytes v"] read_amf_bytes [OF assms(2), of "[]"] by simp
qed

theorem script_tag_roundtrip_witness:
  "\<exists>t r. read_tag (fst (encodeScriptDataTag (JObject [([], JNumber 5)]) (new_BinaryWriter False)))
      = Some (t, []) \<and> tagType t = 18 \<and> tagTime t = 0 \<and> read_amf r = Some (AEcma [([], ANumber 5)], [])"
  using script_tag_roundtrip [of "new_BinaryWriter False" "JObject [([], JNumber 5)]"]
  by (auto simp: short_text_def amf_text_def)

end
