(* ===== verification/Flv_Muxer.thy ===== *)
theory Flv_Muxer
  imports Quiet_Control Flv_Encoder
begin

section \<open>FlvMuxer: the whole pipeline\<close>

text \<open>
  The class \<open>FlvMuxer\<close> and the chunk strategies of
  \<open>plugin/webtransport/web/flv-muxer.iife.js\<close>, together with the wiring that makes the other
  classes one program: encoders emit \<open>TRACK_CHUNK\<close> on the bus, the processor's listener
  emits \<open>CHUNK_PUBLISH\<close>, the muxer's handler enqueues into the source stream, and the pipe
  moves chunks through the transform to the output. Web Streams are modelled by what they
  guarantee: a source is a list of enqueued chunks that may be closed, enqueueing into or
  closing a closed one throws, and the pipe takes the chunks in order. The output is the list
  of values written (None where \<open>undefined\<close> is written). There is one muxer, as the code's
  singletons intend, and the browser's answers (an encoder that refuses a configuration or a
  frame, an encoder's output, a settled promise) are arguments.
\<close>

subsection \<open>Strategies\<close>

type_synonym strategy = "chunk \<Rightarrow> writer \<Rightarrow> bytes option \<times> writer"

definition AACRawStrategy :: strategy where
  "AACRawStrategy c w =
     encodeAudioTag \<lparr>aacPacketType = AACRaw, audioData = Some (chunkData c), soundFormat = AAC,
       soundRate = kHz44, soundSize = Sound16bit, soundType = Stereo, audioTimestamp = timestamp c\<rparr> w"

definition AACSEStrategy :: strategy where
  "AACSEStrategy c w =
     encodeAudioTag \<lparr>aacPacketType = AACSequenceHeader, audioData = Some (chunkData c), soundFormat = AAC,
       soundRate = kHz44, soundSize = Sound16bit, soundType = Stereo, audioTimestamp = 0\<rparr> w"

definition AVCSEStrategy :: strategy where
  "AVCSEStrategy c w =
     map_prod Some id (encodeVideoTag KeyFrame AVC SequenceHeader 0 0 (chunkData c) w)"

definition AVCNALUStrategy :: strategy where
  "AVCNALUStrategy c w =
     map_prod Some id (encodeVideoTag (if isKey c then KeyFrame else InterFrame) AVC NALU 0 (timestamp c)
       (chunkData c) w)"

definition initStrategies :: "(chunk_type \<times> strategy) list" where
  "initStrategies = [(AAC_SE, AACSEStrategy), (AVC_SE, AVCSEStrategy),
                     (AAC_RAW, AACRawStrategy), (AVC_NALU, AVCNALUStrategy)]"

definition muxChunk :: "chunk option \<Rightarrow> writer \<Rightarrow> bytes option \<times> writer" where
  "muxChunk c w =
     (case c of
        None \<Rightarrow> (None, w)
      | Some c \<Rightarrow> (case map_of initStrategies (chunkType c) of
                    None \<Rightarrow> (None, w)
                  | Some process \<Rightarrow> process c w))"

subsection \<open>Configuration and metadata\<close>

record audio_config =
  bitrate :: "rat option"
  numberOfChannels :: rat
  sampleRate :: js_value

record video_config =
  width :: js_value
  height :: js_value
  framerate :: js_value

datatype encoder_config = AudioConfig audio_config | VideoConfig video_config

record mux_options =
  audioOption :: "audio_config option"
  videoOption :: "video_config option"

definition metadata_of :: "mux_options \<Rightarrow> (jsstring \<times> js_value) list" where
  "metadata_of opts =
     [(js_of_ascii ''duration'', JNumber (f64_of_rat 0)),
      (js_of_ascii ''encoder'', JString (js_of_ascii ''flv-muxer.js''))]
     @ (case videoOption opts of
          None \<Rightarrow> []
        | Some cfg \<Rightarrow>
            [(js_of_ascii ''videocodecid'', JNumber (f64_of_rat 7)),
             (js_of_ascii ''width'', width cfg),
             (js_of_ascii ''height'', height cfg),
             (js_of_ascii ''framerate'', framerate cfg)])
     @ (case audioOption opts of
          None \<Rightarrow> []
        | Some cfg \<Rightarrow>
            [(js_of_ascii ''audiocodecid'', JNumber (f64_of_rat 10)),
             (js_of_ascii ''audiodatarate'',
              JNumber (f64_of_rat ((case bitrate cfg of None \<Rightarrow> 0 | Some b \<Rightarrow> b) / 1000))),
             (js_of_ascii ''stereo'', JBoolean (numberOfChannels cfg = 2)),
             (js_of_ascii ''audiosamplerate'', sampleRate cfg)])"

definition encodeMetadata :: "mux_options \<Rightarrow> writer \<Rightarrow> bytes \<times> writer" where
  "encodeMetadata opts w = encodeScriptDataTag (JObject (metadata_of opts)) w"

subsection \<open>The system state\<close>

datatype bus_handler = TrackListener | ReadableHandler nat

record source =
  srcQueue :: "chunk list"
  srcClosed :: bool

record sys =
  bus :: "(string, bus_handler) bus"
  log :: "string logger"
  proc :: "encoder_config processor"
  options :: mux_options
  flvWriter :: writer
  sources :: "source list"
  controller :: "nat option"
  readableHandler :: "nat option"
  pipe :: "nat option"
  written_out :: "bytes option list"
  closedFrames :: "frame list"

text \<open>
  The constructor, with the singletons it creates on first use: the processor registers its
  listener on the bus.
\<close>

definition new_FlvMuxer :: "bool \<Rightarrow> mux_options \<Rightarrow> js_error + sys" where
  "new_FlvMuxer isWritableStream opts =
     (if \<not> isWritableStream
      then Inl ''The provided 'writable' is not an instance of WritableStream.''
      else Inr \<lparr>bus = bus_on ''TRACK_CHUNK'' (Plain TrackListener) new_EventBus, log = new_logger,
                proc = new_StreamProcessor, options = opts, flvWriter = new_BinaryWriter False,
                sources = [], controller = None, readableHandler = None, pipe = None,
                written_out = [], closedFrames = []\<rparr>)"

subsection \<open>Bus handlers\<close>

definition controller_enqueue :: "nat \<Rightarrow> chunk \<Rightarrow> sys \<Rightarrow> sys \<times> js_error option" where
  "controller_enqueue k c w =
     (if k < length (sources w) \<and> \<not> srcClosed (sources w ! k)
      then (w\<lparr>sources := (sources w)[k := (sources w ! k)\<lparr>srcQueue := srcQueue (sources w ! k) @ [c]\<rparr>]\<rparr>, None)
      else (w, Some ''TypeError: Invalid state: Controller is already closed''))"

definition bus_env_of ::
  "(bus_handler \<Rightarrow> chunk \<Rightarrow> sys \<Rightarrow> sys \<times> js_error option)
     \<Rightarrow> (sys, string, bus_handler, chunk, js_error) bus_env"
where
  "bus_env_of f =
     \<lparr>getBus = bus, updBus = bus_update, call = f,
      logError = (\<lambda>e x w. w\<lparr>log := log_error (''Error in event handler for '' @ e @ '': '' @ x) (log w)\<rparr>)\<rparr>"

text \<open>
  Running a handler with a call stack of bounded depth. The listener of \<open>TRACK_CHUNK\<close> emits
  \<open>CHUNK_PUBLISH\<close> for every chunk the processor publishes; the handler of that event emits
  nothing, so a depth of two is enough.
\<close>

fun call_handler :: "nat \<Rightarrow> bus_handler \<Rightarrow> chunk \<Rightarrow> sys \<Rightarrow> sys \<times> js_error option" where
  "call_handler 0 h c w = (w, Some ''RangeError: Maximum call stack size exceeded'')"
| "call_handler (Suc d) TrackListener c w =
     (let (p, out) = handleTrackChunk c (proc w)
      in (fold (bus_emit (bus_env_of (call_handler d)) ''CHUNK_PUBLISH'') out (w\<lparr>proc := p\<rparr>), None))"
| "call_handler (Suc d) (ReadableHandler k) c w = controller_enqueue k c w"

definition emit_track_chunk :: "chunk \<Rightarrow> sys \<Rightarrow> sys" where
  "emit_track_chunk c w = bus_emit (bus_env_of (call_handler 2)) ''TRACK_CHUNK'' c w"

definition sys_env :: "track_kind \<Rightarrow> (sys, encoder_config) track_env" where
  "sys_env k =
     \<lparr>getTrack = (\<lambda>w. the (track_of k (proc w))),
      updTrack = (\<lambda>f w. w\<lparr>proc := upd_track k f (proc w)\<rparr>),
      getTrackState = (\<lambda>w. sharedState (proc w)),
      updTrackState = (\<lambda>f w. w\<lparr>proc := (proc w)\<lparr>sharedState := f (sharedState (proc w))\<rparr>\<rparr>),
      emitTrackChunk = emit_track_chunk,
      trackLogError = (\<lambda>e w. w\<lparr>log := log_error
         ((case k of AudioTrack \<Rightarrow> ''Failed to handle audio chunk: ''
                   | VideoTrack \<Rightarrow> ''Failed to handle video chunk: '') @ e) (log w)\<rparr>)\<rparr>"

definition encoder_output :: "track_kind \<Rightarrow> encoded_chunk \<Rightarrow> bytes option \<Rightarrow> sys \<Rightarrow> sys" where
  "encoder_output k ec description w =
     (case track_of k (proc w) of
        None \<Rightarrow> w
      | Some t \<Rightarrow> handleOutput (sys_env k) ec description w)"

subsection \<open>The methods of FlvMuxer\<close>

definition mux_addRawChunk :: "track_kind \<Rightarrow> js_error option \<Rightarrow> frame \<Rightarrow> sys \<Rightarrow> sys \<times> js_error option" where
  "mux_addRawChunk type refused frame w =
     (let (p, fs, e) = processor_addTrackChunk type refused frame (proc w)
      in (w\<lparr>proc := p, closedFrames := closedFrames w @ fs\<rparr>, e))"

definition configureAudio ::
  "(encoder_config \<Rightarrow> js_error option) \<Rightarrow> audio_config option \<Rightarrow> sys \<Rightarrow> sys \<times> js_error option"
where
  "configureAudio configure encoderConfig w =
     (case encoderConfig of
        None \<Rightarrow> (w, Some ''Audio encoder configuration cannot be empty'')
      | Some cfg \<Rightarrow>
          (let w = w\<lparr>options := (options w)\<lparr>audioOption := Some cfg\<rparr>\<rparr>
           in case new_AudioEncoderTrack configure (AudioConfig cfg) of
                Inl e \<Rightarrow> (w, Some e)
              | Inr t \<Rightarrow> (w\<lparr>proc := addAudioTrack t (proc w)\<rparr>, None)))"

definition configureVideo ::
  "(encoder_config \<Rightarrow> js_error option) \<Rightarrow> video_config option \<Rightarrow> rat option \<Rightarrow> sys \<Rightarrow> sys \<times> js_error option"
where
  "configureVideo configure encoderConfig interval w =
     (case encoderConfig of
        None \<Rightarrow> (w, Some ''Video encoder configuration cannot be empty'')
      | Some cfg \<Rightarrow>
          (let w = w\<lparr>options := (options w)\<lparr>videoOption := Some cfg\<rparr>\<rparr>
           in case new_VideoEncoderTrack configure (VideoConfig cfg) interval of
                Inl e \<Rightarrow> (w, Some e)
              | Inr t \<Rightarrow> (w\<lparr>proc := addVideoTrack t (proc w)\<rparr>, None)))"

text \<open>Constructing the source stream runs its \<open>start\<close> callback at once.\<close>

definition initSourceStream :: "sys \<Rightarrow> sys" where
  "initSourceStream w =
     (let k = length (sources w);
          w = w\<lparr>sources := sources w @ [\<lparr>srcQueue = [], srcClosed = False\<rparr>]\<rparr>;
          w = w\<lparr>controller := Some k\<rparr>;
          w = w\<lparr>readableHandler := Some k\<rparr>
      in w\<lparr>bus := bus_on ''CHUNK_PUBLISH'' (Plain (ReadableHandler k)) (bus w)\<rparr>)"

text \<open>
  The same holds of the transform: its \<open>start\<close> callback leaves the header and the metadata at
  the head of the transform's output (second result).
\<close>

definition initMuxStream :: "sys \<Rightarrow> sys \<times> bytes option list" where
  "initMuxStream w =
     (let (header, e) = encodeFlvHeader (videoOption (options w) \<noteq> None) (audioOption (options w) \<noteq> None)
                          (flvWriter w);
          (metadata, e) = encodeMetadata (options w) e
      in (w\<lparr>flvWriter := e\<rparr>, [Some header, Some metadata]))"

text \<open>
  \<open>start\<close>: piping to an output that another pipe still holds is refused, after the streams
  and the processor have been set up.
\<close>

definition mux_start :: "sys \<Rightarrow> sys \<times> js_error option" where
  "mux_start w =
     (if audioOption (options w) = None \<and> videoOption (options w) = None
      then (w, Some ''Muxer is not configured with audio or video tracks. Please call configureAudio() or configureVideo() first.'')
      else
        let w = initSourceStream w;
            (w, opening) = initMuxStream w;
            w = w\<lparr>proc := start_processor (proc w)\<rparr>
        in case pipe w of
             Some _ \<Rightarrow> (w, Some ''TypeError: Cannot pipe to a locked stream'')
           | None \<Rightarrow> (w\<lparr>pipe := controller w, written_out := written_out w @ opening\<rparr>, None))"

definition mux_pause :: "sys \<Rightarrow> sys" where
  "mux_pause w = w\<lparr>proc := pause_processor (proc w)\<rparr>"

definition mux_resume :: "sys \<Rightarrow> sys" where
  "mux_resume w = w\<lparr>proc := resume_processor (proc w)\<rparr>"

definition controller_close :: "nat \<Rightarrow> sys \<Rightarrow> sys \<times> js_error option" where
  "controller_close k w =
     (if k < length (sources w) \<and> \<not> srcClosed (sources w ! k)
      then (w\<lparr>sources := (sources w)[k := (sources w ! k)\<lparr>srcClosed := True\<rparr>]\<rparr>, None)
      else (w, Some ''TypeError: Invalid state: Controller is already closed''))"

definition mux_stop :: "sys \<Rightarrow> sys \<times> js_error option" where
  "mux_stop w =
     (let w = (case readableHandler w of
                 None \<Rightarrow> w
               | Some k \<Rightarrow> w\<lparr>bus := bus_off ''CHUNK_PUBLISH'' (Plain (ReadableHandler k)) (bus w)\<rparr>);
          (w, e) = (case controller w of None \<Rightarrow> (w, None) | Some k \<Rightarrow> controller_close k w)
      in case e of
           Some x \<Rightarrow> (w, Some x)
         | None \<Rightarrow> (w\<lparr>proc := stop_processor (proc w)\<rparr>, None))"

definition promise_settled :: "nat \<Rightarrow> bool \<Rightarrow> sys \<Rightarrow> sys" where
  "promise_settled i resolved w = w\<lparr>proc := settle i resolved (proc w)\<rparr>"

text \<open>One step of the pipe: the next chunk through \<open>transform\<close>, or the end of the source.\<close>

definition pump :: "sys \<Rightarrow> sys" where
  "pump w =
     (case pipe w of
        None \<Rightarrow> w
      | Some k \<Rightarrow>
          (case srcQueue (sources w ! k) of
             [] \<Rightarrow> if srcClosed (sources w ! k) then w\<lparr>pipe := None\<rparr> else w
           | c # cs \<Rightarrow>
               (let (tag, e) = muxChunk (Some c) (flvWriter w)
                in w\<lparr>flvWriter := e, written_out := written_out w @ [tag],
                     sources := (sources w)[k := (sources w ! k)\<lparr>srcQueue := cs\<rparr>]\<rparr>)))"

subsection \<open>The wiring\<close>

lemma emit_single: "handlers_of (getBus env w) e = [h] \<Longrightarrow> bus_emit env e a w = call_guarded env e a h w"
  by (auto simp: bus_emit_def handlers_of_def split: option.splits)

lemma emit_none: "handlers_of (getBus env w) e = [] \<Longrightarrow> bus_emit env e a w = w"
  by (auto simp: bus_emit_def handlers_of_def split: option.splits)

lemma bus_env_of_simps [simp]:
  "getBus (bus_env_of f) = bus" "call (bus_env_of f) = f"
  "logError (bus_env_of f) e x w
     = w\<lparr>log := log_error (''Error in event handler for '' @ e @ '': '' @ x) (log w)\<rparr>"
  by (simp_all add: bus_env_of_def)

definition push :: "nat \<Rightarrow> chunk list \<Rightarrow> sys \<Rightarrow> sys" where
  "push k cs w =
     w\<lparr>sources := (sources w)[k := (sources w ! k)\<lparr>srcQueue := srcQueue (sources w ! k) @ cs\<rparr>]\<rparr>"

definition wired_to :: "nat \<Rightarrow> sys \<Rightarrow> bool" where
  "wired_to k w \<longleftrightarrow>
     handlers_of (bus w) ''TRACK_CHUNK'' = [Plain TrackListener] \<and>
     handlers_of (bus w) ''CHUNK_PUBLISH'' = [Plain (ReadableHandler k)] \<and>
     k < length (sources w) \<and> \<not> srcClosed (sources w ! k)"

lemma wired_to_push [simp]: "wired_to k (push k cs w) \<longleftrightarrow> wired_to k w"
  by (auto simp: wired_to_def push_def nth_list_update)

lemma wired_to_proc [simp]: "wired_to k (w\<lparr>proc := p\<rparr>) \<longleftrightarrow> wired_to k w"
  by (simp add: wired_to_def)

lemma push_Nil [simp]: "push k [] w = w"
  by (simp add: push_def)

lemma push_push: "k < length (sources w) \<Longrightarrow> push k ds (push k cs w) = push k (cs @ ds) w"
  by (simp add: push_def)

lemma publish_wired:
  "wired_to k w \<Longrightarrow> bus_emit (bus_env_of (call_handler (Suc d))) ''CHUNK_PUBLISH'' c w = push k [c] w"
  by (simp add: wired_to_def emit_single call_guarded_def invoke_def controller_enqueue_def push_def)

lemma publish_all_wired:
  "wired_to k w \<Longrightarrow> fold (bus_emit (bus_env_of (call_handler (Suc d))) ''CHUNK_PUBLISH'') cs w = push k cs w"
proof (induction cs arbitrary: w)
  case Nil
  then show ?case by simp
next
  case (Cons c cs)
  then have "k < length (sources w)" by (simp add: wired_to_def)
  then show ?case using Cons by (simp add: publish_wired push_push)
qed

lemma emit_wired:
  assumes "wired_to k w"
  shows "emit_track_chunk c w
    = push k (snd (handleTrackChunk c (proc w))) (w\<lparr>proc := fst (handleTrackChunk c (proc w))\<rparr>)"
proof -
  have h: "handlers_of (bus w) ''TRACK_CHUNK'' = [Plain TrackListener]"
    using assms by (simp add: wired_to_def)
  have w: "wired_to k (w\<lparr>proc := fst (handleTrackChunk c (proc w))\<rparr>)" using assms by simp
  have 2: "call_handler 2 = call_handler (Suc (Suc 0))" by (simp add: numeral_2_eq_2)
  show ?thesis
    unfolding emit_track_chunk_def 2 using h publish_all_wired [OF w]
    by (simp add: emit_single call_guarded_def invoke_def split_beta)
qed

definition stream_of :: "nat \<Rightarrow> sys \<Rightarrow> encoder_config processor \<times> chunk list" where
  "stream_of k w = (proc w, srcQueue (sources w ! k))"

text \<open>
  The encoders' output callback on the bus refines the one that only records what is
  published; the second interpretation lets a recording start from what is already published.
\<close>

interpretation bus_wiring: track_refinement "sys_env kd" "direct_env kd" "stream_of k" "wired_to k" for kd k
  by unfold_locales
    (auto simp: sys_env_def stream_of_def wired_to_def emit_wired push_def nth_list_update)

interpretation prefix_wiring: track_refinement "direct_env kd" "direct_env kd" "\<lambda>(p, out). (p, pre @ out)"
  "\<lambda>_. True" for kd pre
  by unfold_locales (auto simp: split_beta direct_env_def)

lemma direct_prefix:
  "handleOutput (direct_env kd) ec desc (p, pre)
    = (let (p', cs) = handleOutput (direct_env kd) ec desc (p, []) in (p', pre @ cs))"
  using prefix_wiring.handleOutput_abs [where w = "(p, [])" and pre = pre and kd = kd and ec = ec and desc = desc] by (simp add: split_beta)

lemma encoder_output_wired:
  assumes "wired_to k w"
  shows "wired_to k (encoder_output kd ec desc w) \<and> stream_of k (encoder_output kd ec desc w)
    = (let (p, cs) = processor_output kd ec desc (proc w) in (p, srcQueue (sources w ! k) @ cs))"
proof (cases "track_of kd (proc w)")
  case None
  then show ?thesis using assms by (simp add: encoder_output_def processor_output_def stream_of_def)
next
  case (Some t)
  then show ?thesis
    using bus_wiring.handleOutput_abs [OF assms, where kd = kd and ec = ec and desc = desc]
      direct_prefix [of kd ec desc "proc w" "srcQueue (sources w ! k)"]
    by (simp add: encoder_output_def processor_output_def stream_of_def)
qed

subsection \<open>The bytes of a chunk\<close>

definition chunk_tag_type :: "chunk \<Rightarrow> tag_type" where
  "chunk_tag_type c = (case chunkType c of AAC_SE \<Rightarrow> AUDIO | AAC_RAW \<Rightarrow> AUDIO | _ \<Rightarrow> VIDEO)"

definition chunk_time :: "chunk \<Rightarrow> rat" where
  "chunk_time c = (case chunkType c of AAC_RAW \<Rightarrow> timestamp c | AVC_NALU \<Rightarrow> timestamp c | _ \<Rightarrow> 0)"

definition chunk_body :: "chunk \<Rightarrow> bytes" where
  "chunk_body c =
     (case chunkType c of
        AAC_SE \<Rightarrow> audio_header_bytes AAC kHz44 Sound16bit Stereo AACSequenceHeader
      | AAC_RAW \<Rightarrow> audio_header_bytes AAC kHz44 Sound16bit Stereo AACRaw
      | AVC_SE \<Rightarrow> video_header_bytes KeyFrame AVC SequenceHeader 0
      | AVC_NALU \<Rightarrow> video_header_bytes (if isKey c then KeyFrame else InterFrame) AVC NALU 0) @ chunkData c"

definition chunk_bytes :: "chunk \<Rightarrow> bytes" where
  "chunk_bytes c = flv_tag_bytes (chunk_tag_type c) (js_trunc (chunk_time c)) (chunk_body c)"

definition chunk_tag :: "chunk \<Rightarrow> flv_tag" where
  "chunk_tag c = \<lparr>tagType = nat (TagType (chunk_tag_type c)),
     tagTime = nat (js_trunc (chunk_time c) mod 2 ^ 32), tagBody = chunk_body c\<rparr>"

lemma length_chunk_body: "length (chunk_body c) \<le> length (chunkData c) + 5"
  by (simp add: chunk_body_def audio_header_bytes_def video_header_bytes_def split: chunk_type.split)

lemma muxChunk_bytes:
  assumes "be_ready w"
  shows "fst (muxChunk (Some c) w) = Some (chunk_bytes c)" and "be_ready (snd (muxChunk (Some c) w))"
proof -
  have t0: "js_trunc 0 = 0" by (simp add: js_trunc_def)
  show "fst (muxChunk (Some c) w) = Some (chunk_bytes c)"
    using encodeFlvTag_bytes(1) [OF assms] encodeVideoTag_bytes(1) [OF assms]
    by (cases "chunkType c") (simp_all add: muxChunk_def initStrategies_def AACSEStrategy_def
        AACRawStrategy_def AVCSEStrategy_def AVCNALUStrategy_def encodeAudioTag_eq chunk_bytes_def
        chunk_tag_type_def chunk_time_def chunk_body_def t0)
  show "be_ready (snd (muxChunk (Some c) w))"
    using encodeFlvTag_bytes(2) [OF assms] encodeVideoTag_bytes(2) [OF assms]
    by (cases "chunkType c") (simp_all add: muxChunk_def initStrategies_def AACSEStrategy_def
        AACRawStrategy_def AVCSEStrategy_def AVCNALUStrategy_def encodeAudioTag_eq)
qed

lemma read_chunk:
  assumes "length (chunkData c) + 5 < 2 ^ 24"
  shows "chunk_bytes c \<noteq> [] \<and> read_tag (chunk_bytes c @ r) = Some (chunk_tag c, r)"
proof -
  have "length (chunk_body c) < 2 ^ 24" using assms length_chunk_body [of c] by linarith
  from read_tag_bytes [OF this] show ?thesis
    by (simp add: chunk_bytes_def chunk_tag_def flv_tag_bytes_def)
qed

subsection \<open>A recording\<close>

datatype recording_event = Output track_kind encoded_chunk "bytes option" | Pump

fun record_step :: "recording_event \<Rightarrow> sys \<Rightarrow> sys" where
  "record_step (Output k ec desc) w = encoder_output k ec desc w"
| "record_step Pump w = pump w"

definition outputs_of :: "recording_event list \<Rightarrow> enc_output list" where
  "outputs_of evs = List.map_filter (\<lambda>e. case e of Output k ec desc \<Rightarrow> Some (k, ec, desc) | Pump \<Rightarrow> None) evs"

definition recording_stream :: "nat \<Rightarrow> encoder_config processor \<Rightarrow> bytes option list \<Rightarrow> enc_output list \<Rightarrow> sys \<Rightarrow> bool" where
  "recording_stream k p0 out0 xs w \<longleftrightarrow>
     wired_to k w \<and> pipe w = Some k \<and> be_ready (flvWriter w) \<and>
     (\<exists>muxed q. written_out w = out0 @ map (Some \<circ> chunk_bytes) muxed \<and>
        run_outputs xs p0 = (q, muxed @ srcQueue (sources w ! k)) \<and> calm q = calm (proc w))"

lemma encoder_output_frame:
  "pipe (encoder_output kd ec desc w) = pipe w \<and> flvWriter (encoder_output kd ec desc w) = flvWriter w \<and>
   written_out (encoder_output kd ec desc w) = written_out w" if "wired_to k w"
proof (cases "track_of kd (proc w)")
  case None
  then show ?thesis by (simp add: encoder_output_def)
next
  case (Some t)
  let ?Q = "\<lambda>v. wired_to k v \<and> pipe v = pipe w \<and> flvWriter v = flvWriter w \<and> written_out v = written_out w"
  have "?Q (handleOutput (sys_env kd) ec desc w)"
    by (rule handleOutput_keeps [of ?Q]) (use that in \<open>auto simp: sys_env_def emit_wired\<close>,
      auto simp: push_def wired_to_def)
  then show ?thesis using Some by (simp add: encoder_output_def)
qed

lemma recording_output:
  assumes "recording_stream k p0 out0 xs w"
  shows "recording_stream k p0 out0 (xs @ [(kd, ec, desc)]) (encoder_output kd ec desc w)"
proof -
  have w: "wired_to k w" using assms by (simp add: recording_stream_def)
  obtain muxed q where m: "written_out w = out0 @ map (Some \<circ> chunk_bytes) muxed"
    "run_outputs xs p0 = (q, muxed @ srcQueue (sources w ! k))" "calm q = calm (proc w)"
    using assms by (auto simp: recording_stream_def)
  let ?q = "fst (processor_output kd ec desc q)" and ?w = "encoder_output kd ec desc w"
  have "run_outputs (xs @ [(kd, ec, desc)]) p0 = (?q, muxed @ srcQueue (sources ?w ! k))" "calm ?q = calm (proc ?w)"
    using encoder_output_wired [OF w, of kd ec desc] m(2) calm_output [OF m(3), of kd ec desc]
    by (simp_all add: run_outputs_snoc stream_of_def split_beta)
  then show ?thesis
    using encoder_output_wired [OF w, of kd ec desc] encoder_output_frame [OF w, of kd ec desc] assms m(1)
    by (auto simp: recording_stream_def)
qed

lemma recording_pump:
  assumes "recording_stream k p0 out0 xs w"
  shows "recording_stream k p0 out0 xs (pump w)"
proof (cases "srcQueue (sources w ! k)")
  case Nil
  then show ?thesis using assms by (auto simp: recording_stream_def pump_def wired_to_def)
next
  case (Cons c cs)
  obtain muxed q where m: "written_out w = out0 @ map (Some \<circ> chunk_bytes) muxed"
    "run_outputs xs p0 = (q, (muxed @ [c]) @ cs)" "calm q = calm (proc w)"
    using assms Cons by (auto simp: recording_stream_def)
  have ready: "be_ready (flvWriter w)" and p: "pipe w = Some k" and wr: "wired_to k w"
    using assms by (simp_all add: recording_stream_def)
  have "written_out (pump w) = out0 @ map (Some \<circ> chunk_bytes) (muxed @ [c])"
    using Cons p m(1) muxChunk_bytes(1) [OF ready, of c] by (simp add: pump_def split_beta)
  moreover have "srcQueue (sources (pump w) ! k) = cs" "proc (pump w) = proc w" "wired_to k (pump w)"
    "pipe (pump w) = Some k" "be_ready (flvWriter (pump w))"
    using Cons p wr muxChunk_bytes(2) [OF ready, of c]
    by (auto simp: pump_def split_beta wired_to_def)
  ultimately show ?thesis unfolding recording_stream_def using m(2,3) by metis
qed

lemma recording_run:
  "recording_stream k p0 out0 xs w \<Longrightarrow>
   recording_stream k p0 out0 (xs @ outputs_of evs) (fold record_step evs w)"
proof (induction evs arbitrary: xs w)
  case Nil
  then show ?case by (simp add: outputs_of_def)
next
  case (Cons e evs)
  show ?case
  proof (cases e)
    case (Output kd ec desc)
    then show ?thesis
      using Cons.IH [OF recording_output [OF Cons.prems, of kd ec desc]] by (simp add: outputs_of_def)
  next
    case Pump
    then show ?thesis
      using Cons.IH [OF recording_pump [OF Cons.prems]] by (simp add: outputs_of_def)
  qed
qed

lemma pump_queue:
  assumes "recording_stream k p0 out0 xs w"
  shows "srcQueue (sources (pump w) ! k) = tl (srcQueue (sources w ! k))"
  using assms by (cases "srcQueue (sources w ! k)")
    (auto simp: recording_stream_def wired_to_def pump_def split_beta)

lemma pump_all:
  assumes "recording_stream k p0 out0 xs w"
  shows "recording_stream k p0 out0 xs ((pump ^^ n) w) \<and>
    srcQueue (sources ((pump ^^ n) w) ! k) = drop n (srcQueue (sources w ! k))"
  using assms
  by (induction n) (auto simp: recording_pump pump_queue drop_Suc tl_drop)

text \<open>What does not show in the calm processor does not show in the recording.\<close>

lemma recording_calm:
  assumes "recording_stream k p0 out0 xs w" and "calm p = calm (proc w)"
  shows "recording_stream k p0 out0 xs (w\<lparr>proc := p\<rparr>)" "recording_stream k p0 out0 xs (w\<lparr>proc := p, closedFrames := fs\<rparr>)"
  using assms by (simp_all add: recording_stream_def wired_to_def)

text \<open>A muxer between recordings.\<close>

definition idle :: "sys \<Rightarrow> bool" where
  "idle w \<longleftrightarrow> bus_ok (bus w) \<and> handlers_of (bus w) ''TRACK_CHUNK'' = [Plain TrackListener] \<and>
     handlers_of (bus w) ''CHUNK_PUBLISH'' = [] \<and> pipe w = None \<and> be_ready (flvWriter w)"

lemma idle_new: "new_FlvMuxer True opts = Inr w \<Longrightarrow> idle w"
  by (auto simp: new_FlvMuxer_def idle_def bus_ok_on handlers_of_on)

definition script_bytes :: "mux_options \<Rightarrow> bytes" where
  "script_bytes opts = flv_tag_bytes SCRIPT 0
     (amf_bytes (JString (js_of_ascii ''onMetaData'')) @ amf_bytes (JObject (metadata_of opts)))"

lemma start_recording:
  assumes "idle w" and start: "mux_start w = (w1, None)"
  shows "recording_stream (length (sources w)) (start_processor (proc w))
    (written_out w @ [Some (flv_header_bytes (videoOption (options w) \<noteq> None) (audioOption (options w) \<noteq> None)),
                      Some (script_bytes (options w))]) [] w1"
proof -
  have ready: "be_ready (flvWriter w)" using assms by (simp add: idle_def)
  note header = encodeFlvHeader_bytes [OF ready,
      of "videoOption (options w) \<noteq> None" "audioOption (options w) \<noteq> None"]
  note script = encodeScriptDataTag_bytes [OF header(2)]
  have bus: "handlers_of (bus_on ''CHUNK_PUBLISH'' (Plain (ReadableHandler k)) (bus w)) ''TRACK_CHUNK''
        = [Plain TrackListener]"
    "handlers_of (bus_on ''CHUNK_PUBLISH'' (Plain (ReadableHandler k)) (bus w)) ''CHUNK_PUBLISH''
        = [Plain (ReadableHandler k)]" for k
    using assms(1) by (simp_all add: idle_def handlers_of_on)
  have "recording_stream (length (sources w)) (start_processor (proc w))
      (written_out w @ snd (initMuxStream (initSourceStream w))) [] w1"
    using start assms(1) bus script(2)
    by (auto simp: mux_start_def recording_stream_def idle_def initSourceStream_def initMuxStream_def
        encodeMetadata_def wired_to_def run_outputs_def Let_def split_beta split: if_splits option.splits)
  moreover have "snd (initMuxStream (initSourceStream w))
      = [Some (flv_header_bytes (videoOption (options w) \<noteq> None) (audioOption (options w) \<noteq> None)),
         Some (script_bytes (options w))]"
    using header(1) script(1)
    by (simp add: initSourceStream_def initMuxStream_def encodeMetadata_def script_bytes_def Let_def split_beta)
  ultimately show ?thesis by simp
qed

definition metadata_fits :: "mux_options \<Rightarrow> bool" where
  "metadata_fits opts \<longleftrightarrow> amf_fits (JObject (metadata_of opts)) \<and>
     length (amf_bytes (JObject (metadata_of opts))) < 2 ^ 24 - 13"

lemma read_script:
  assumes "metadata_fits opts"
  shows "\<exists>t r'. (\<forall>r. read_tag (script_bytes opts @ r) = Some (t, r)) \<and> tagType t = 18 \<and> tagTime t = 0 \<and>
     read_amf (tagBody t) = Some (AString (text_encode (js_of_ascii ''onMetaData'')), r') \<and>
     read_amf r' = Some (amf_of (JObject (metadata_of opts)), [])"
proof -
  let ?v = "JObject (metadata_of opts)" and ?n = "JString (js_of_ascii ''onMetaData'')"
  have ascii: "length (amf_bytes ?n) = 13" "amf_fits ?n"
    using ascii_text(2) by (auto simp: amf_text_def short_text_def length_js_of_ascii)
  have len: "length (amf_bytes ?n @ amf_bytes ?v) < 2 ^ 24"
    using assms ascii(1) by (simp add: metadata_fits_def del: amf_bytes.simps)
  have v: "amf_fits ?v" using assms by (simp add: metadata_fits_def)
  have "read_amf (amf_bytes ?n @ amf_bytes ?v) = Some (amf_of ?n, amf_bytes ?v)"
    unfolding read_amf_def by (rule amf_roundtrip_fuel(1) [OF ascii(2)]) simp
  moreover have "read_amf (amf_bytes ?v) = Some (amf_of ?v, [])"
    using amf_roundtrip_fuel(1) [OF v, of "2 * length (amf_bytes ?v)" "[]"]
    unfolding read_amf_def by (simp del: amf_bytes.simps amf_of.simps)
  ultimately show ?thesis
    using read_tag_bytes [OF len, of SCRIPT 0] unfolding script_bytes_def
    by (intro exI [of _ "\<lparr>tagType = 18, tagTime = 0, tagBody = amf_bytes ?n @ amf_bytes ?v\<rparr>"]
        exI [of _ "amf_bytes ?v"]) (simp del: amf_bytes.simps add: amf_of.simps)
qed

lemma read_written:
  assumes m: "written_out v = (written_out w @ [Some (flv_header_bytes (videoOption (options w) \<noteq> None) (audioOption (options w) \<noteq> None)),
      Some (script_bytes (options w))]) @ map (Some \<circ> chunk_bytes) pub"
    and "metadata_fits (options w)" and "\<forall>c \<in> set pub. length (chunkData c) + 5 < 2 ^ 24"
  shows "\<exists>t r'. read_flv (concat (map the (drop (length (written_out w)) (written_out v))))
      = Some ((if audioOption (options w) \<noteq> None then 4 else 0) + (if videoOption (options w) \<noteq> None then 1 else 0),
              t # map chunk_tag pub)
    \<and> tagType t = 18 \<and> read_amf (tagBody t) = Some (AString (text_encode (js_of_ascii ''onMetaData'')), r')
    \<and> read_amf r' = Some (amf_of (JObject (metadata_of (options w))), [])"
proof -
  let ?v = "videoOption (options w) \<noteq> None" and ?a = "audioOption (options w) \<noteq> None"
  obtain t r' where t: "\<And>r. read_tag (script_bytes (options w) @ r) = Some (t, r)"
    "tagType t = 18" "read_amf (tagBody t) = Some (AString (text_encode (js_of_ascii ''onMetaData'')), r')"
    "read_amf r' = Some (amf_of (JObject (metadata_of (options w))), [])"
    using read_script [OF assms(2)] by blast
  let ?bytes = "script_bytes (options w) @ concat (map chunk_bytes pub)"
  have s: "script_bytes (options w) \<noteq> []" by (simp add: script_bytes_def flv_tag_bytes_def)
  have "read_tags n (concat (map chunk_bytes pub)) = Some (map chunk_tag pub)"
    if "length (concat (map chunk_bytes pub)) \<le> n" for n
    by (rule read_tags_concat [OF _ that]) (use assms(3) read_chunk in blast)
  moreover obtain l where l: "length ?bytes = Suc l" "length (concat (map chunk_bytes pub)) \<le> l"
    using s by (cases "script_bytes (options w)") auto
  moreover obtain b bs where b: "?bytes = b # bs" using s by (cases ?bytes) auto
  ultimately have "read_tags (length ?bytes) ?bytes = Some (t # map chunk_tag pub)"
    using t(1) by (metis (no_types, lifting) bind.bind_lunit old.prod.case read_tags.simps(3))
  from read_flv_bytes [OF this, of ?v ?a] show ?thesis
    using t m by (intro exI [of _ t] exI [of _ r']) (simp add: comp_def)
qed

lemma read_back_stream:
  assumes run: "recording_stream (length (sources w)) (start_processor (proc w))
      (written_out w @ [Some (flv_header_bytes (videoOption (options w) \<noteq> None) (audioOption (options w) \<noteq> None)),
                        Some (script_bytes (options w))]) xs v"
    and "run_outputs xs (start_processor (proc w)) = (q, pub)"
    and "w2 = (pump ^^ n) v" and "length pub \<le> n"
    and "metadata_fits (options w)" and "\<forall>c \<in> set pub. length (chunkData c) + 5 < 2 ^ 24"
  shows "\<exists>t r'. read_flv (concat (map the (drop (length (written_out w)) (written_out w2))))
      = Some ((if audioOption (options w) \<noteq> None then 4 else 0) + (if videoOption (options w) \<noteq> None then 1 else 0),
              t # map chunk_tag pub)
    \<and> tagType t = 18 \<and> read_amf (tagBody t) = Some (AString (text_encode (js_of_ascii ''onMetaData'')), r')
    \<and> read_amf r' = Some (amf_of (JObject (metadata_of (options w))), [])"
proof -
  let ?v = "videoOption (options w) \<noteq> None" and ?a = "audioOption (options w) \<noteq> None"
  let ?k = "length (sources w)"
  have "length (srcQueue (sources v ! ?k)) \<le> n"
    using run assms(2,4) by (auto simp: recording_stream_def)
  then have "srcQueue (sources w2 ! ?k) = []"
    using pump_all [OF run, of n] by (simp add: assms(3))
  then have m: "written_out w2 = (written_out w @ [Some (flv_header_bytes ?v ?a),
      Some (script_bytes (options w))]) @ map (Some \<circ> chunk_bytes) pub"
    using pump_all [OF run, of n] assms(2,3) by (auto simp: recording_stream_def)
  show ?thesis by (rule read_written [OF m assms(5,6)])
qed

lemma read_back_lemma:
  assumes "idle w" and "mux_start w = (w1, None)"
    and "run_outputs (outputs_of evs) (start_processor (proc w)) = (q, pub)"
    and "w2 = (pump ^^ n) (fold record_step evs w1)" and "length pub \<le> n"
    and "metadata_fits (options w)" and "\<forall>c \<in> set pub. length (chunkData c) + 5 < 2 ^ 24"
  shows "\<exists>t r'. read_flv (concat (map the (drop (length (written_out w)) (written_out w2))))
      = Some ((if audioOption (options w) \<noteq> None then 4 else 0) + (if videoOption (options w) \<noteq> None then 1 else 0),
              t # map chunk_tag pub)
    \<and> tagType t = 18 \<and> read_amf (tagBody t) = Some (AString (text_encode (js_of_ascii ''onMetaData'')), r')
    \<and> read_amf r' = Some (amf_of (JObject (metadata_of (options w))), [])"
  using read_back_stream [OF recording_run [OF start_recording [OF assms(1,2)], of evs, unfolded append_Nil] assms(3-7)] .

text \<open>
  A recording reads back as the FLV stream it should be. Start an idle muxer, let the
  encoders deliver any chunks and the pipe run in any interleaving, and then let the pipe run
  for at least as many steps as chunks were published: the bytes written since the start parse as an FLV header with the right stream flags, a
  script tag holding \<open>onMetaData\<close> and the metadata, and then exactly one tag per chunk the
  processor published, in that order, each with its type, time and payload.
\<close>

theorem recording_reads_back:
  assumes "idle w" and "mux_start w = (w1, None)"
    and "run_outputs (outputs_of evs) (start_processor (proc w)) = (q, pub)"
    and "w2 = (pump ^^ n) (fold record_step evs w1)" and "length pub \<le> n"
    and "metadata_fits (options w)" and "\<forall>c \<in> set pub. length (chunkData c) + 5 < 2 ^ 24"
  shows "\<exists>t r'. read_flv (concat (map the (drop (length (written_out w)) (written_out w2))))
      = Some ((if audioOption (options w) \<noteq> None then 4 else 0) + (if videoOption (options w) \<noteq> None then 1 else 0),
              t # map chunk_tag pub)
    \<and> tagType t = 18 \<and> read_amf (tagBody t) = Some (AString (text_encode (js_of_ascii ''onMetaData'')), r')
    \<and> read_amf r' = Some (amf_of (JObject (metadata_of (options w))), [])"
  by (rule read_back_lemma [OF assms])

definition demo_audio :: audio_config where
  "demo_audio = \<lparr>bitrate = Some 128000, numberOfChannels = 2, sampleRate = JNumber 0\<rparr>"

text \<open>A new muxer after \<open>configureAudio\<close>, and one encoded chunk with its configuration.\<close>

definition demo_sys :: sys where
  "demo_sys = fst (configureAudio (\<lambda>_. None) (Some demo_audio)
     (projr (new_FlvMuxer True \<lparr>audioOption = None, videoOption = None\<rparr>)))"

definition demo_events :: "recording_event list" where
  "demo_events = [Output AudioTrack \<lparr>ecTimestamp = 5000, ecKey = True, ecCopy = Inr [1, 2]\<rparr> (Some [18, 16]), Pump]"

lemma demo_sys_eq: "demo_sys = \<lparr>bus = bus_on ''TRACK_CHUNK'' (Plain TrackListener) new_EventBus, log = new_logger,
    proc = new_StreamProcessor\<lparr>audioEncoderTrack := Some \<lparr>kind = AudioTrack, config = AudioConfig demo_audio,
      queue = [], encoder = Some [Configure (AudioConfig demo_audio)], lastTimestamp = 0,
      decoderConfig = None, frameCount = 0, keyframeInterval = Some 90\<rparr>\<rparr>,
    options = \<lparr>audioOption = Some demo_audio, videoOption = None\<rparr>, flvWriter = new_BinaryWriter False,
    sources = [], controller = None, readableHandler = None, pipe = None,
    written_out = [], closedFrames = []\<rparr>"
  by (simp add: demo_sys_def configureAudio_def new_FlvMuxer_def new_AudioEncoderTrack_def
      new_BaseEncoderTrack_def initEncoder_def addAudioTrack_def)

lemma idle_demo: "idle demo_sys"
  by (simp add: demo_sys_eq idle_def bus_ok_on handlers_of_on)

lemma start_demo: "\<exists>w1. mux_start demo_sys = (w1, None)"
  by (simp add: mux_start_def initSourceStream_def initMuxStream_def demo_sys_eq Let_def split_beta)

lemma demo_published:
  "run_outputs (outputs_of demo_events) (start_processor (proc demo_sys)) =
     (fst (run_outputs (outputs_of demo_events) (start_processor (proc demo_sys))),
      [se_chunk AudioTrack [18, 16],
       \<lparr>chunkType = AAC_RAW, chunkData = [1, 2], timestamp = 0, isKey = True\<rparr>])"
  by (simp add: demo_events_def outputs_of_def run_outputs_def step_output_def processor_output_def
      demo_sys_eq track_of_def handleOutput_def set_decoderConfig_def start_processor_def
      new_StreamProcessor_def upd_track_def handleTrackChunk_def publishChunk_def calculateTimestamp_eq
      new_TrackState_def media_type_def Let_def)

lemma metadata_demo: "metadata_fits (options demo_sys)"
proof -
  have t: "length (text_encode (js_of_ascii s)) \<le> 3 * length s" for s
    using length_text_encode [of "js_of_ascii s"] by simp
  have "short_text (js_of_ascii s)" if "length s < 1000" for s
    using t [of s] that by (simp add: short_text_def)
  moreover have "length (amf_text (js_of_ascii s)) \<le> 2 + 3 * length s" for s
    using t [of s] by (simp add: amf_text_def)
  note this [of "''duration''"] this [of "''encoder''"] this [of "''flv-muxer.js''"]
    this [of "''audiocodecid''"] this [of "''audiodatarate''"] this [of "''stereo''"]
    this [of "''audiosamplerate''"]
  ultimately show ?thesis
    by (simp add: metadata_fits_def metadata_of_def demo_sys_eq demo_audio_def)
qed

theorem recording_reads_back_witness:
  "\<exists>t w1. mux_start demo_sys = (w1, None) \<and>
    read_flv (concat (map the (written_out ((pump ^^ 2) (fold record_step demo_events w1)))))
      = Some (4, [t, chunk_tag (se_chunk AudioTrack [18, 16]),
                  chunk_tag \<lparr>chunkType = AAC_RAW, chunkData = [1, 2], timestamp = 0, isKey = True\<rparr>])"
proof -
  obtain w1 where w1: "mux_start demo_sys = (w1, None)" using start_demo by blast
  show ?thesis
    using recording_reads_back [OF idle_demo w1 demo_published refl _ metadata_demo, of 2] w1
    by (auto simp: demo_sys_eq se_chunk_def)
qed

subsection \<open>Every reachable state\<close>

datatype mux_event =
    ConfigureAudio "encoder_config \<Rightarrow> js_error option" "audio_config option"
  | ConfigureVideo "encoder_config \<Rightarrow> js_error option" "video_config option" "rat option"
  | StartCall | PauseCall | ResumeCall | StopCall
  | RawChunk track_kind "js_error option" frame
  | PromiseSettled nat bool
  | Recording_event recording_event

fun mux_do :: "mux_event \<Rightarrow> sys \<Rightarrow> sys" where
  "mux_do (ConfigureAudio f cfg) w = fst (configureAudio f cfg w)"
| "mux_do (ConfigureVideo f cfg i) w = fst (configureVideo f cfg i w)"
| "mux_do StartCall w = fst (mux_start w)"
| "mux_do PauseCall w = mux_pause w"
| "mux_do ResumeCall w = mux_resume w"
| "mux_do StopCall w = fst (mux_stop w)"
| "mux_do (RawChunk k r f) w = fst (mux_addRawChunk k r f w)"
| "mux_do (PromiseSettled i ok) w = promise_settled i ok w"
| "mux_do (Recording_event e) w = record_step e w"

inductive reachable :: "sys \<Rightarrow> bool" where
  reach_new: "new_FlvMuxer True opts = Inr w \<Longrightarrow> reachable w"
| reach_step: "reachable w \<Longrightarrow> reachable (mux_do ev w)"

definition whole_item :: "bytes option \<Rightarrow> bool" where
  "whole_item x \<longleftrightarrow> (\<exists>v a. x = Some (flv_header_bytes v a)) \<or> (\<exists>ty ts body. x = Some (flv_tag_bytes ty ts body))"

lemma whole_item_intros [simp]:
  "whole_item (Some (flv_header_bytes v a))" "whole_item (Some (flv_tag_bytes ty ts body))"
  unfolding whole_item_def by blast+

definition sys_ok :: "sys \<Rightarrow> bool" where
  "sys_ok w \<longleftrightarrow> bus_ok (bus w) \<and> handlers_of (bus w) ''TRACK_CHUNK'' = [Plain TrackListener] \<and>
     (\<forall>h \<in> set (handlers_of (bus w) ''CHUNK_PUBLISH''). \<exists>j < length (sources w). h = Plain (ReadableHandler j)) \<and>
     be_ready (flvWriter w) \<and> (\<forall>x \<in> set (written_out w). whole_item x) \<and>
     (\<forall>j. controller w = Some j \<longrightarrow> j < length (sources w)) \<and>
     (\<forall>j. pipe w = Some j \<longrightarrow> j < length (sources w))"

lemma sys_ok_unaffected [simp]:
  "sys_ok (w\<lparr>proc := p\<rparr>) = sys_ok w" "sys_ok (w\<lparr>log := l\<rparr>) = sys_ok w"
  "sys_ok (w\<lparr>options := opts\<rparr>) = sys_ok w" "sys_ok (w\<lparr>closedFrames := fs\<rparr>) = sys_ok w"
  "sys_ok (w\<lparr>sources := (sources w)[k := s]\<rparr>) = sys_ok w"
  by (simp_all add: sys_ok_def)

lemma enqueue_keeps: "sys_ok w \<Longrightarrow> sys_ok (call_guarded (bus_env_of (call_handler (Suc d))) e c (Plain (ReadableHandler j)) w)"
  by (simp add: call_guarded_def invoke_def controller_enqueue_def)

lemma readable_quiet: "quiet (bus_env_of (call_handler (Suc d))) e c (Plain (ReadableHandler j))"
  by (simp add: quiet_def call_guarded_def invoke_def controller_enqueue_def)

lemma publish_keeps:
  assumes "sys_ok w"
  shows "sys_ok (bus_emit (bus_env_of (call_handler (Suc d))) ''CHUNK_PUBLISH'' c w)"
proof -
  let ?env = "bus_env_of (call_handler (Suc d))" and ?hs = "handlers_of (bus w) ''CHUNK_PUBLISH''"
  have h: "\<forall>h \<in> set ?hs. \<exists>j. h = Plain (ReadableHandler j)" using assms by (auto simp: sys_ok_def)
  have "sys_ok (fold (call_guarded ?env ''CHUNK_PUBLISH'' c) hs v)"
    if "sys_ok v" "\<forall>h \<in> set hs. \<exists>j. h = Plain (ReadableHandler j)" for hs v
    using that by (induction hs arbitrary: v) (auto intro: enqueue_keeps)
  moreover have "bus_emit ?env ''CHUNK_PUBLISH'' c w = fold (call_guarded ?env ''CHUNK_PUBLISH'' c) ?hs w"
    using emit_quiet [of ?env w "''CHUNK_PUBLISH''" c] h readable_quiet by fastforce
  ultimately show ?thesis using assms h by simp
qed

lemma emit_keeps: "sys_ok w \<Longrightarrow> sys_ok (emit_track_chunk c w)"
proof -
  assume ok: "sys_ok w"
  then have h: "handlers_of (bus w) ''TRACK_CHUNK'' = [Plain TrackListener]" by (simp add: sys_ok_def)
  have "sys_ok (fold (bus_emit (bus_env_of (call_handler (Suc 0))) ''CHUNK_PUBLISH'') cs v)" if "sys_ok v" for cs v
    using that by (induction cs arbitrary: v) (auto intro: publish_keeps)
  moreover have 2: "call_handler 2 = call_handler (Suc (Suc 0))" by (simp add: numeral_2_eq_2)
  ultimately show ?thesis
    unfolding emit_track_chunk_def 2 using ok h
    by (simp add: emit_single call_guarded_def invoke_def split_beta)
qed

lemma output_keeps: "sys_ok w \<Longrightarrow> sys_ok (encoder_output k ec desc w)"
  unfolding encoder_output_def
  by (auto simp: sys_env_def emit_keeps split: option.split
      intro: handleOutput_keeps [of sys_ok "sys_env k", unfolded sys_env_def])

lemma pump_keeps:
  assumes "sys_ok w"
  shows "sys_ok (pump w)"
proof -
  have "whole_item (fst (muxChunk (Some c) (flvWriter w)))" "be_ready (snd (muxChunk (Some c) (flvWriter w)))" for c
    using assms muxChunk_bytes [of "flvWriter w" c] by (auto simp: sys_ok_def chunk_bytes_def)
  then show ?thesis
    using assms by (auto simp: pump_def sys_ok_def Let_def split_beta split: option.split list.split)
qed

lemma start_keeps:
  assumes "sys_ok w"
  shows "sys_ok (fst (mux_start w))"
proof -
  let ?w = "initSourceStream w"
  have 1: "sys_ok ?w"
    using assms by (auto simp: sys_ok_def initSourceStream_def Let_def bus_ok_on handlers_of_on less_Suc_eq)
  have ready: "be_ready (flvWriter ?w)" using 1 by (simp add: sys_ok_def)
  note header = encodeFlvHeader_bytes [OF ready,
      of "videoOption (options ?w) \<noteq> None" "audioOption (options ?w) \<noteq> None"]
  note script = encodeScriptDataTag_bytes [OF header(2), of "JObject (metadata_of (options ?w))"]
  have 2: "sys_ok (fst (initMuxStream ?w))" "\<forall>x \<in> set (snd (initMuxStream ?w)). whole_item x"
    using 1 script header(1)
    by (auto simp: initMuxStream_def encodeMetadata_def sys_ok_def Let_def split_beta)
  have 3: "controller (fst (initMuxStream ?w)) = Some (length (sources w))"
    "length (sources (fst (initMuxStream ?w))) = Suc (length (sources w))"
    by (simp_all add: initMuxStream_def initSourceStream_def Let_def split_beta)
  show ?thesis
    using assms 2 3 by (auto simp: mux_start_def sys_ok_def Let_def split_beta split: option.split)
qed

lemma stop_keeps: "sys_ok w \<Longrightarrow> sys_ok (fst (mux_stop w))"
proof -
  assume ok: "sys_ok w"
  have "sys_ok (w\<lparr>bus := bus_off ''CHUNK_PUBLISH'' h (bus w)\<rparr>)" for h
    using ok by (auto simp: sys_ok_def bus_ok_off handlers_of_off dest: notin_set_remove1)
  then show ?thesis
    using ok by (auto simp: mux_stop_def controller_close_def Let_def split_beta split: option.split)
qed

lemma sys_ok_step: "sys_ok w \<Longrightarrow> sys_ok (mux_do ev w)"
proof (cases ev)
  case (Recording_event e)
  then show "sys_ok w \<Longrightarrow> ?thesis" by (cases e) (simp_all add: output_keeps pump_keeps)
qed (auto simp: start_keeps stop_keeps configureAudio_def configureVideo_def mux_pause_def mux_resume_def
    mux_addRawChunk_def promise_settled_def Let_def split_beta split: option.split sum.split)

lemma reachable_ok: "reachable w \<Longrightarrow> sys_ok w"
proof (induction rule: reachable.induct)
  case (reach_new opts w)
  then show ?case by (auto simp: new_FlvMuxer_def sys_ok_def bus_ok_on handlers_of_on)
next
  case (reach_step w ev)
  then show ?case by (simp add: sys_ok_step)
qed

text \<open>
  Whatever calls, encoder outputs, settled promises and pipe steps happen in whatever
  order, the system stays well formed: the processor's listener is the only one for
  \<open>TRACK_CHUNK\<close>, every handler of \<open>CHUNK_PUBLISH\<close> belongs to a stream that exists, and every
  value ever written to the output is a whole FLV header or a whole FLV tag, never
  \<open>undefined\<close> and never part of a tag.
\<close>

theorem reachable_states_are_well_formed:
  assumes "reachable w"
  shows "handlers_of (bus w) ''TRACK_CHUNK'' = [Plain TrackListener] \<and>
    (\<forall>h \<in> set (handlers_of (bus w) ''CHUNK_PUBLISH''). \<exists>j < length (sources w). h = Plain (ReadableHandler j)) \<and>
    (\<forall>x \<in> set (written_out w). (\<exists>v a. x = Some (flv_header_bytes v a)) \<or>
       (\<exists>ty ts body. x = Some (flv_tag_bytes ty ts body)))"
  using reachable_ok [OF assms] by (simp add: sys_ok_def whole_item_def)

theorem reachable_states_are_well_formed_witness:
  "None \<notin> set (written_out (mux_do StartCall demo_sys))"
proof -
  let ?new = "projr (new_FlvMuxer True \<lparr>audioOption = None, videoOption = None\<rparr>)"
  have "reachable ?new" by (rule reach_new) (simp add: new_FlvMuxer_def)
  then have "reachable (mux_do StartCall (mux_do (ConfigureAudio (\<lambda>_. None) (Some demo_audio)) ?new))"
    by (intro reach_step)
  then have "reachable (mux_do StartCall demo_sys)" by (simp add: demo_sys_def)
  then show ?thesis using reachable_states_are_well_formed by blast
qed

subsection \<open>Stopping\<close>

text \<open>The muxer after a stop: nobody listens to \<open>CHUNK_PUBLISH\<close> any more.\<close>

definition deaf :: "sys \<Rightarrow> bool" where
  "deaf w \<longleftrightarrow> handlers_of (bus w) ''TRACK_CHUNK'' = [Plain TrackListener] \<and>
     handlers_of (bus w) ''CHUNK_PUBLISH'' = []"

lemma emit_deaf:
  assumes "deaf w"
  shows "emit_track_chunk c w = w\<lparr>proc := fst (handleTrackChunk c (proc w))\<rparr>"
proof -
  have "fold (bus_emit (bus_env_of (call_handler (Suc 0))) ''CHUNK_PUBLISH'') cs v = v" if "deaf v" for cs v
    using that by (induction cs) (simp_all add: deaf_def emit_none)
  moreover have "deaf (w\<lparr>proc := p\<rparr>)" for p using assms by (simp add: deaf_def)
  moreover have 2: "call_handler 2 = call_handler (Suc (Suc 0))" by (simp add: numeral_2_eq_2)
  ultimately show ?thesis
    unfolding emit_track_chunk_def 2 using assms
    by (simp add: deaf_def emit_single call_guarded_def invoke_def split_beta)
qed

lemma output_deaf:
  assumes "deaf w"
  shows "deaf (encoder_output k ec desc w) \<and> sources (encoder_output k ec desc w) = sources w
    \<and> written_out (encoder_output k ec desc w) = written_out w"
proof (cases "track_of k (proc w)")
  case (Some t)
  let ?Q = "\<lambda>v. deaf v \<and> sources v = sources w \<and> written_out v = written_out w"
  have "?Q (handleOutput (sys_env k) ec desc w)"
    by (rule handleOutput_keeps [of ?Q]) (use assms in \<open>auto simp: sys_env_def emit_deaf\<close>, auto simp: deaf_def)
  then show ?thesis using Some by (simp add: encoder_output_def)
qed (use assms in \<open>simp add: encoder_output_def\<close>)

text \<open>
  C39. \<open>stop\<close> drops what it flushes. It takes the handler off the bus and closes the source
  before it asks the processor to flush, so every chunk the encoders deliver from then on, in
  particular everything the flush itself brings out, reaches neither the source stream nor
  the output.
\<close>

theorem stop_drops_flushed_chunks:
  assumes "wired_to k w" and "bus_ok (bus w)" and "readableHandler w = Some k" and "controller w = Some k"
  shows "\<exists>w1. mux_stop w = (w1, None) \<and> proc w1 = stop_processor (proc w) \<and>
    sources (fold (\<lambda>(k, ec, desc). encoder_output k ec desc) outputs w1) = sources w1 \<and>
    written_out (fold (\<lambda>(k, ec, desc). encoder_output k ec desc) outputs w1) = written_out w"
proof -
  define w1 where "w1 = fst (mux_stop w)"
  have s: "mux_stop w = (w1, None)" "proc w1 = stop_processor (proc w)" "written_out w1 = written_out w"
    using assms by (simp_all add: w1_def mux_stop_def controller_close_def wired_to_def Let_def)
  have "deaf w1"
    using assms by (simp add: w1_def mux_stop_def controller_close_def wired_to_def deaf_def Let_def handlers_of_off)
  then have "sources (fold (\<lambda>(k, ec, desc). encoder_output k ec desc) outputs w1) = sources w1 \<and>
    written_out (fold (\<lambda>(k, ec, desc). encoder_output k ec desc) outputs w1) = written_out w1"
  proof (induction outputs arbitrary: w1)
    case (Cons x xs)
    obtain k ec desc where "x = (k, ec, desc)" by (metis prod_cases3)
    then show ?case using Cons.IH output_deaf [OF Cons.prems, of k ec desc] by simp
  qed simp
  then show ?thesis using s by auto
qed

theorem stop_drops_flushed_chunks_witness:
  "\<exists>w w1. mux_start demo_sys = (w, None) \<and> mux_stop w = (w1, None) \<and>
     written_out (encoder_output AudioTrack \<lparr>ecTimestamp = 5000, ecKey = True, ecCopy = Inr [1]\<rparr> (Some [2]) w1)
       = written_out w"
proof -
  obtain w where w: "mux_start demo_sys = (w, None)" using start_demo by blast
  have wired: "wired_to 0 w"
    using start_recording [OF idle_demo w] by (simp add: recording_stream_def demo_sys_eq)
  have r: "bus_ok (bus w)" "readableHandler w = Some 0" "controller w = Some 0"
    using w by (auto simp: mux_start_def initSourceStream_def initMuxStream_def demo_sys_eq Let_def split_beta bus_ok_on)
  show ?thesis
    using stop_drops_flushed_chunks [OF wired r,
        of "[(AudioTrack, \<lparr>ecTimestamp = 5000, ecKey = True, ecCopy = Inr [1]\<rparr>, Some [2])]"] w by auto
qed

text \<open>
  Stopping while paused leaves the muxer stuck. The processor's \<open>stop\<close> returns without
  effect unless it is recording, so it stays paused; the next \<open>start\<close> opens a new stream and
  writes a new header, but the processor, not being inactive, does not begin to record, and
  every raw frame is closed and dropped without reaching an encoder.
\<close>

theorem stop_while_paused_blocks_the_next_recording:
  assumes "procState (proc w) = Paused" and "mux_stop w = (w1, None)" and "mux_start w1 = (w2, e)"
  shows "procState (proc w2) = Paused \<and> proc (fst (mux_addRawChunk k r f w2)) = proc w \<and>
    f \<in> set (closedFrames (fst (mux_addRawChunk k r f w2)))"
proof -
  have "proc w1 = proc w"
    using assms(1,2) by (auto simp: mux_stop_def stop_processor_def controller_close_def Let_def split_beta
        split: option.splits if_splits)
  moreover have "proc (initSourceStream w1) = proc w1" "proc (fst (initMuxStream v)) = proc v" for v
    by (simp_all add: initSourceStream_def initMuxStream_def Let_def split_beta)
  ultimately have "proc w2 = proc w"
    using assms(1,3) by (auto simp: mux_start_def start_processor_def Let_def split_beta
        split: if_splits option.splits)
  then show ?thesis
    using assms(1) by (simp add: mux_addRawChunk_def processor_addTrackChunk_def)
qed

theorem stop_while_paused_blocks_the_next_recording_witness:
  "let w = demo_sys\<lparr>proc := (proc demo_sys)\<lparr>procState := Paused\<rparr>\<rparr>;
       w2 = fst (mux_start (fst (mux_stop w)))
   in procState (proc w2) = Paused \<and> 7 \<in> set (closedFrames (fst (mux_addRawChunk AudioTrack None 7 w2)))"
proof -
  let ?w = "demo_sys\<lparr>proc := (proc demo_sys)\<lparr>procState := Paused\<rparr>\<rparr>"
  have p: "procState (proc ?w) = Paused" by simp
  have s: "mux_stop ?w = (fst (mux_stop ?w), None)" by (simp add: mux_stop_def demo_sys_eq)
  show ?thesis
    using stop_while_paused_blocks_the_next_recording [OF p s prod.collapse [symmetric], where f = 7 and k = AudioTrack and r = None]
    unfolding Let_def by blast
qed

end
