(* ===== verification/Recording_Calls.thy ===== *)
theory Recording_Calls
  imports Flv_Muxer
begin

section \<open>A recording from start to stop\<close>

text \<open>
  What the calls of \<open>FlvMuxer\<close> do to a running recording, in any order and interleaved with the encoders and
  the pipe, and what is left of them once it has been stopped. The invariant of the first part is
  \<open>recording_stream\<close>, that of the second \<open>draining\<close>: the source is closed, nobody listens, and the pipe takes
  the chunks that are left.
\<close>

subsection \<open>Calls while recording\<close>

text \<open>The calls of a recording that is paused, resumed and fed but not stopped, and what the encoders deliver in it.\<close>

fun recording_call :: "mux_event \<Rightarrow> bool" where
  "recording_call PauseCall = True" | "recording_call ResumeCall = True" | "recording_call (RawChunk k r f) = True"
| "recording_call (PromiseSettled i ok) = True" | "recording_call (Recording_event e) = True" | "recording_call ev = False"

fun delivered :: "mux_event list \<Rightarrow> enc_output list" where
  "delivered [] = []"
| "delivered (Recording_event (Output k ec desc) # evs) = (k, ec, desc) # delivered evs"
| "delivered (ev # evs) = delivered evs"

lemma proc_pump [simp]: "proc (pump w) = proc w"
  by (auto simp: pump_def Let_def split_beta split: option.splits list.splits)

lemma delivered_Cons: "delivered (ev # evs) = delivered [ev] @ delivered evs"
  by (cases "[ev]" rule: delivered.cases) simp_all

lemma recording_call_run:
  assumes r: "recording_stream k p0 out0 xs w" and o: "only_pauses (proc w)" and "recording_call ev"
  shows "recording_stream k p0 out0 (xs @ delivered [ev]) (mux_do ev w) \<and> only_pauses (proc (mux_do ev w))"
proof (cases ev)
  case PauseCall
  then show ?thesis using recording_calm(1) [OF r calm_pause(1)] only_pauses_steps(1) [OF o] by (simp add: mux_pause_def)
next
  case ResumeCall
  then show ?thesis using recording_calm(1) [OF r calm_pause(2)] only_pauses_steps(2) [OF o] by (simp add: mux_resume_def)
next
  case (RawChunk kd refused f)
  then show ?thesis
    using recording_calm(2) [OF r calm_raw] only_pauses_steps(3) [OF o] by (simp add: mux_addRawChunk_def split_beta)
next
  case (PromiseSettled i ok)
  then show ?thesis
    using recording_calm(1) [OF r calm_settle [OF o]] only_pauses_steps(4) [OF o] by (simp add: promise_settled_def)
next
  case (Recording_event e)
  show ?thesis
  proof (cases e)
    case (Output kd ec desc)
    have w: "wired_to k w" using r by (simp add: recording_stream_def)
    have "proc (encoder_output kd ec desc w) = fst (processor_output kd ec desc (proc w))"
      using encoder_output_wired [OF w, of kd ec desc] by (auto simp: stream_of_def split_beta)
    then have "only_pauses (proc (encoder_output kd ec desc w))" using o by (simp add: only_pauses_def)
    then show ?thesis using recording_output [OF r, of kd ec desc] Recording_event Output by simp
  next
    case Pump
    then show ?thesis using recording_pump [OF r] o Recording_event by simp
  qed
qed (use assms(3) in simp_all)

lemma start_only_pauses:
  assumes "mux_start w = (w1, None)" and "only_pauses (proc w)"
  shows "only_pauses (proc w1)"
proof -
  have "proc w1 = start_processor (proc w)"
    using assms(1) by (auto simp: mux_start_def initSourceStream_def initMuxStream_def Let_def split_beta split: if_splits option.splits)
  then show ?thesis using assms(2) by (simp add: only_pauses_def start_processor_def)
qed

lemma recording_calls_run:
  "recording_stream k p0 out0 xs w \<Longrightarrow> only_pauses (proc w) \<Longrightarrow> list_all recording_call evs \<Longrightarrow>
   recording_stream k p0 out0 (xs @ delivered evs) (fold mux_do evs w)"
proof (induction evs arbitrary: xs w)
  case (Cons ev evs)
  then show ?case
    using recording_call_run [OF Cons.prems(1,2), of ev] delivered_Cons [of ev evs] Cons.IH [of "xs @ delivered [ev]" "mux_do ev w"] Cons.prems(3) by simp
qed simp

subsection \<open>Stopping\<close>

lemma output_wired_frame:
  assumes "wired_to k w"
  shows "bus (encoder_output kd ec desc w) = bus w \<and> controller (encoder_output kd ec desc w) = controller w \<and>
    readableHandler (encoder_output kd ec desc w) = readableHandler w"
proof (cases "track_of kd (proc w)")
  case (Some t)
  let ?Q = "\<lambda>v. wired_to k v \<and> bus v = bus w \<and> controller v = controller w \<and> readableHandler v = readableHandler w"
  have "?Q (handleOutput (sys_env kd) ec desc w)"
    by (rule handleOutput_keeps [of ?Q]) (use assms in \<open>auto simp: sys_env_def emit_wired\<close>, auto simp: push_def wired_to_def)
  then show ?thesis using Some by (simp add: encoder_output_def)
qed (simp add: encoder_output_def)

lemma pump_frame [simp]:
  "bus (pump w) = bus w" "controller (pump w) = controller w" "readableHandler (pump w) = readableHandler w"
  by (auto simp: pump_def Let_def split_beta split: option.splits list.splits)

text \<open>The source \<open>k\<close> is the one that \<open>stop\<close> will close.\<close>

definition own_source :: "nat \<Rightarrow> sys \<Rightarrow> bool" where
  "own_source k w \<longleftrightarrow> bus_ok (bus w) \<and> controller w = Some k \<and> readableHandler w = Some k"

lemma own_source_call:
  assumes "wired_to k w" and "own_source k w" and "recording_call ev"
  shows "own_source k (mux_do ev w)"
  using assms(2,3) output_wired_frame [OF assms(1)]
  by (cases ev; cases "case ev of Recording_event e \<Rightarrow> e | _ \<Rightarrow> Pump")
    (auto simp: own_source_def mux_pause_def mux_resume_def promise_settled_def mux_addRawChunk_def split_beta)

lemma own_source_calls:
  "recording_stream k p0 out0 xs w \<Longrightarrow> only_pauses (proc w) \<Longrightarrow> own_source k w \<Longrightarrow> list_all recording_call evs \<Longrightarrow>
   own_source k (fold mux_do evs w)"
proof (induction evs arbitrary: xs w)
  case (Cons ev evs)
  have "own_source k (mux_do ev w)" using own_source_call [of k w ev] Cons.prems by (simp add: recording_stream_def)
  then show ?case using recording_call_run [OF Cons.prems(1,2), of ev] Cons.IH [of "xs @ delivered [ev]" "mux_do ev w"] Cons.prems(4) by simp
qed simp

lemma start_own_source:
  assumes "idle w" and "mux_start w = (w1, None)"
  shows "own_source (length (sources w)) w1"
  using assms by (auto simp: own_source_def idle_def mux_start_def initSourceStream_def initMuxStream_def Let_def split_beta bus_ok_on
      split: if_splits option.splits)

definition draining :: "nat \<Rightarrow> bytes option list \<Rightarrow> chunk list \<Rightarrow> sys \<Rightarrow> bool" where
  "draining k out0 pub w \<longleftrightarrow> deaf w \<and> bus_ok (bus w) \<and> be_ready (flvWriter w) \<and> k < length (sources w) \<and> srcClosed (sources w ! k) \<and>
     (pipe w = Some k \<or> pipe w = None \<and> srcQueue (sources w ! k) = []) \<and>
     (\<exists>muxed. written_out w = out0 @ map (Some \<circ> chunk_bytes) muxed \<and> pub = muxed @ srcQueue (sources w ! k))"

text \<open>The steps the pipe still needs.\<close>

definition steps_left :: "nat \<Rightarrow> sys \<Rightarrow> nat" where
  "steps_left k w = (if pipe w = None then 0 else Suc (length (srcQueue (sources w ! k))))"

lemma stop_draining:
  assumes r: "recording_stream k p0 out0 xs w" and o: "own_source k w" and p: "run_outputs xs p0 = (q, pub)"
  shows "snd (mux_stop w) = None \<and> draining k out0 pub (fst (mux_stop w)) \<and> steps_left k (fst (mux_stop w)) \<le> Suc (length pub)"
  using assms
  by (auto simp: recording_stream_def own_source_def mux_stop_def controller_close_def wired_to_def draining_def deaf_def
      steps_left_def Let_def handlers_of_off bus_ok_off)

lemma draining_proc:
  "draining k out0 pub (w\<lparr>proc := p\<rparr>) = draining k out0 pub w" "draining k out0 pub (w\<lparr>proc := p, closedFrames := fs\<rparr>) = draining k out0 pub w"
  "steps_left k (w\<lparr>proc := p\<rparr>) = steps_left k w" "steps_left k (w\<lparr>proc := p, closedFrames := fs\<rparr>) = steps_left k w"
  by (simp_all add: draining_def deaf_def steps_left_def)

lemma draining_pump:
  assumes "draining k out0 pub w"
  shows "draining k out0 pub (pump w) \<and> steps_left k (pump w) = steps_left k w - 1"
proof (cases "pipe w")
  case None
  then show ?thesis using assms by (simp add: pump_def steps_left_def)
next
  case (Some k')
  then have k: "pipe w = Some k" using assms by (auto simp: draining_def)
  show ?thesis
  proof (cases "srcQueue (sources w ! k)")
    case Nil
    then show ?thesis using assms k by (auto simp: draining_def deaf_def pump_def steps_left_def)
  next
    case (Cons c cs)
    obtain muxed where m: "written_out w = out0 @ map (Some \<circ> chunk_bytes) muxed" "pub = (muxed @ [c]) @ cs"
      using assms Cons by (auto simp: draining_def)
    have ready: "be_ready (flvWriter w)" using assms by (simp add: draining_def)
    have "written_out (pump w) = out0 @ map (Some \<circ> chunk_bytes) (muxed @ [c])"
      using Cons k m(1) muxChunk_bytes(1) [OF ready, of c] by (simp add: pump_def split_beta)
    then show ?thesis
      using assms Cons k m(2) muxChunk_bytes(2) [OF ready, of c]
      by (auto simp: draining_def deaf_def pump_def steps_left_def split_beta intro: exI [of _ "muxed @ [c]"])
  qed
qed

lemma draining_output:
  assumes "draining k out0 pub w"
  shows "draining k out0 pub (encoder_output kd ec desc w) \<and> steps_left k (encoder_output kd ec desc w) = steps_left k w"
proof (cases "track_of kd (proc w)")
  case (Some t)
  let ?Q = "\<lambda>v. deaf v \<and> bus v = bus w \<and> sources v = sources w \<and> written_out v = written_out w \<and> pipe v = pipe w \<and> flvWriter v = flvWriter w"
  have "?Q (handleOutput (sys_env kd) ec desc w)"
    by (rule handleOutput_keeps [of ?Q]) (use assms in \<open>auto simp: sys_env_def emit_deaf draining_def\<close>, auto simp: deaf_def)
  then show ?thesis using Some assms by (simp add: encoder_output_def draining_def steps_left_def)
qed (use assms in \<open>simp add: encoder_output_def\<close>)

definition pumps :: "mux_event list \<Rightarrow> nat" where
  "pumps evs = length (filter (\<lambda>ev. ev = Recording_event Pump) evs)"

lemma draining_call:
  assumes "draining k out0 pub w" and "recording_call ev"
  shows "draining k out0 pub (mux_do ev w) \<and> steps_left k (mux_do ev w) = steps_left k w - pumps [ev]"
proof (cases ev)
  case (Recording_event e)
  then show ?thesis using draining_pump [OF assms(1)] draining_output [OF assms(1)] by (cases e) (simp_all add: pumps_def)
qed (use assms in \<open>simp_all add: draining_proc pumps_def mux_pause_def mux_resume_def promise_settled_def mux_addRawChunk_def split_beta\<close>)

lemma draining_calls:
  "draining k out0 pub w \<Longrightarrow> list_all recording_call evs \<Longrightarrow>
   draining k out0 pub (fold mux_do evs w) \<and> steps_left k (fold mux_do evs w) = steps_left k w - pumps evs"
proof (induction evs arbitrary: w)
  case (Cons ev evs)
  have "pumps (ev # evs) = pumps [ev] + pumps evs" by (simp add: pumps_def)
  then show ?case using draining_call [OF Cons.prems(1), of ev] Cons.IH [of "mux_do ev w"] Cons.prems(2) by simp
qed (simp add: pumps_def)

lemma drained:
  assumes "draining k out0 pub w" and "steps_left k w = 0"
  shows "idle w" "written_out w = out0 @ map (Some \<circ> chunk_bytes) pub"
  using assms by (auto simp: draining_def deaf_def idle_def steps_left_def split: if_splits)

lemma stopped_writes:
  assumes "idle w" and "only_pauses (proc w)" and "mux_start w = (w1, None)"
    and "list_all recording_call evs" and "list_all recording_call late"
    and "run_outputs (delivered evs) (start_processor (proc w)) = (q, pub)" and "length pub < pumps late"
    and "w2 = fold mux_do evs w1" and "w3 = fold mux_do (StopCall # late) w2"
  shows "snd (mux_stop w2) = None" "idle w3"
    "written_out w3 = (written_out w @ [Some (flv_header_bytes (videoOption (options w) \<noteq> None) (audioOption (options w) \<noteq> None)),
      Some (script_bytes (options w))]) @ map (Some \<circ> chunk_bytes) pub"
proof -
  note start = start_recording [OF assms(1,3)] and pauses = start_only_pauses [OF assms(3,2)]
  note run = recording_calls_run [OF start pauses assms(4), unfolded append_Nil, folded assms(8)]
    and own = own_source_calls [OF start pauses start_own_source [OF assms(1,3)] assms(4), folded assms(8)]
  note s = stop_draining [OF run own assms(6)]
  then have z: "steps_left (length (sources w)) w3 = 0"
    and d: "draining (length (sources w)) (written_out w @ [Some (flv_header_bytes (videoOption (options w) \<noteq> None) (audioOption (options w) \<noteq> None)),
                      Some (script_bytes (options w))]) pub w3"
    using draining_calls [OF conjunct1 [OF conjunct2 [OF s]] assms(5)] assms(7) by (simp_all add: assms(9))
  show "snd (mux_stop w2) = None" "idle w3" using s drained [OF d z] by blast+
  show "written_out w3 = (written_out w @ [Some (flv_header_bytes (videoOption (options w) \<noteq> None) (audioOption (options w) \<noteq> None)),
      Some (script_bytes (options w))]) @ map (Some \<circ> chunk_bytes) pub" using drained [OF d z] by blast
qed


text \<open>The recording of the muxer's own example, paused and resumed, and its flush.\<close>

definition demo_calls :: "mux_event list" where
  "demo_calls = [Recording_event (Output AudioTrack \<lparr>ecTimestamp = 5000, ecKey = True, ecCopy = Inr [1, 2]\<rparr> (Some [18, 16])), PauseCall,
     PromiseSettled 0 True, Recording_event Pump, RawChunk AudioTrack None 3, ResumeCall]"

definition demo_late :: "mux_event list" where
  "demo_late = [Recording_event Pump, Recording_event (Output AudioTrack \<lparr>ecTimestamp = 6000, ecKey = True, ecCopy = Inr [3]\<rparr> None),
     PromiseSettled 0 True, Recording_event Pump, Recording_event Pump]"


end
