(* ===== verification/Amf_Reader.thy ===== *)
theory Amf_Reader
  imports Script_Encoder "HOL-Library.AList"
begin

section \<open>The server's AMF0 decoder\<close>

text \<open>
  The method \<open>Unmarshal\<close> of \<open>plugin/rtmp/pkg/amf.go\<close>, with which the server reads the metadata that
  \<open>ScriptEncoder\<close> writes. A result of type \<open>any\<close> is a \<open>go_value\<close>; maps are association lists without
  duplicate keys. On an error the method puts the buffer back, so the bytes that are left are part of a
  result only when there is a value. \<open>Panic\<close> is a read that runs past the end of the buffer unchecked.
\<close>

datatype go_value =
    GNumber f64 | GBool bool | GString bytes | GNil | GUndefined | GObjectEnd
  | GMap "(bytes \<times> go_value) list" | GEcma "(bytes \<times> go_value) list" | GList "go_value list"

datatype amf_error = UnexpectedEOF | UnsupportedType byte | Panic | OutOfFuel

text \<open>\<open>CanReadN\<close> and \<open>ReadN\<close>, or an error.\<close>

definition read_n :: "amf_error \<Rightarrow> nat \<Rightarrow> bytes \<Rightarrow> amf_error + bytes \<times> bytes" where
  "read_n e n bs = (if length bs < n then Inl e else Inr (take n bs, drop n bs))"

text \<open>Go on with a value, or return the error.\<close>

definition go_on :: "'e + 'a \<Rightarrow> ('a \<Rightarrow> 'e + 'b) \<Rightarrow> 'e + 'b" where
  "go_on x f = (case x of Inl e \<Rightarrow> Inl e | Inr y \<Rightarrow> f y)"

lemma go_on_simps [simp]: "go_on (Inl e) f = Inl e" "go_on (Inr y) f = f y"
  by (simp_all add: go_on_def)

lemma go_on_eq:
  "go_on x f = Inr z \<longleftrightarrow> (\<exists>y. x = Inr y \<and> f y = Inr z)"
  "go_on x f = Inl e \<longleftrightarrow> x = Inl e \<or> (\<exists>y. x = Inr y \<and> f y = Inl e)"
  by (cases x; simp)+

definition readKey :: "bytes \<Rightarrow> amf_error + bytes \<times> bytes" where
  "readKey bs = go_on (read_n UnexpectedEOF 2 bs) (\<lambda>(l, r). read_n UnexpectedEOF (be_val l) r)"

text \<open>
  \<open>ObjectEnd\<close> and \<open>Undefined\<close> are pointers to variables of size zero. Go leaves open whether such pointers are
  equal; \<open>same\<close> says whether they are.
\<close>

definition is_object_end :: "bool \<Rightarrow> go_value \<Rightarrow> bool" where
  "is_object_end same v \<longleftrightarrow> v = GObjectEnd \<or> same \<and> v = GUndefined"

text \<open>
  \<open>Unmarshal\<close>, the loop over \<open>readProperty\<close> and the loop of a strict array. The fuel counts nested calls;
  \<open>unmarshal_ends\<close> shows how much is enough.
\<close>

fun unmarshal :: "bool \<Rightarrow> nat \<Rightarrow> bytes \<Rightarrow> amf_error + go_value \<times> bytes"
  and read_properties :: "bool \<Rightarrow> nat \<Rightarrow> (bytes \<times> go_value) list \<Rightarrow> bytes \<Rightarrow> amf_error + (bytes \<times> go_value) list \<times> bytes"
  and read_elements :: "bool \<Rightarrow> nat \<Rightarrow> nat \<Rightarrow> bytes \<Rightarrow> amf_error + go_value list \<times> bytes"
where
  "unmarshal same 0 bs = Inl OutOfFuel"
| "unmarshal same (Suc n) [] = Inl UnexpectedEOF"
| "unmarshal same (Suc n) (t # bs) =
     (if t = 0 then go_on (read_n UnexpectedEOF 8 bs) (\<lambda>(x, r). Inr (GNumber (word_of_nat (be_val x)), r))
      else if t = 1 then go_on (read_n UnexpectedEOF 1 bs) (\<lambda>(x, r). Inr (GBool (x = [1]), r))
      else if t = 2 then go_on (readKey bs) (\<lambda>(s, r). Inr (GString s, r))
      else if t = 3 then go_on (read_properties same n [] bs) (\<lambda>(m, r). Inr (GMap m, r))
      else if t = 5 then Inr (GNil, bs)
      else if t = 6 then Inr (GUndefined, bs)
      else if t = 8 then go_on (read_n Panic 4 bs) (\<lambda>(_, r). go_on (read_properties same n [] r) (\<lambda>(m, r). Inr (GEcma m, r)))
      else if t = 9 then Inr (GObjectEnd, bs)
      else if t = 10 then
        go_on (read_n Panic 4 bs) (\<lambda>(l, r). go_on (read_elements same n (be_val l) r) (\<lambda>(xs, r). Inr (GList xs, r)))
      else if t = 11 then go_on (read_n UnexpectedEOF 10 bs) (\<lambda>(x, r). Inr (GNumber (word_of_nat (be_val (take 8 x))), r))
      else if t = 12 \<or> t = 15 then
        go_on (read_n UnexpectedEOF 4 bs) (\<lambda>(l, r). go_on (read_n UnexpectedEOF (be_val l) r) (\<lambda>(s, r). Inr (GString s, r)))
      else Inl (UnsupportedType t))"
| "read_properties same 0 m bs = Inl OutOfFuel"
| "read_properties same (Suc n) m bs =
     go_on (readKey bs) (\<lambda>(k, r). go_on (unmarshal same n r) (\<lambda>(v, r).
       if k = [] \<and> is_object_end same v then Inr (m, r) else read_properties same n (AList.update k v m) r))"
| "read_elements same 0 k bs = Inl OutOfFuel"
| "read_elements same (Suc n) 0 bs = Inr ([], bs)"
| "read_elements same (Suc n) (Suc k) bs =
     go_on (unmarshal same n bs) (\<lambda>(v, r). go_on (read_elements same n k r) (\<lambda>(vs, r). Inr (v # vs, r)))"

definition Unmarshal :: "bool \<Rightarrow> bytes \<Rightarrow> amf_error + go_value \<times> bytes" where
  "Unmarshal same bs = unmarshal same (2 * length bs + 1) bs"

subsection \<open>The decoder ends\<close>

lemma read_n_ok: "read_n e n bs = Inr (x, r) \<Longrightarrow> length bs = n + length r \<and> length x = n"
  by (auto simp: read_n_def split: if_splits)

lemma readKey_ok: "readKey bs = Inr (x, r) \<Longrightarrow> length r + 2 \<le> length bs"
  by (auto simp: readKey_def go_on_eq dest!: read_n_ok)

lemma read_n_no_fuel [simp]: "read_n e n bs = Inl OutOfFuel \<longleftrightarrow> length bs < n \<and> e = OutOfFuel"
  by (simp add: read_n_def)

lemma readKey_no_fuel [simp]: "readKey bs \<noteq> Inl OutOfFuel"
  by (auto simp: readKey_def go_on_eq)

lemma unmarshal_consumes:
  shows "unmarshal same n bs = Inr (v, r) \<Longrightarrow> length r < length bs"
    and "read_properties same n m bs = Inr (ps, r) \<Longrightarrow> length r < length bs"
    and "read_elements same n k bs = Inr (vs, r) \<Longrightarrow> length r \<le> length bs"
proof (induction n arbitrary: bs v r m ps k vs)
  case (Suc n)
  {
    case 1
    then show ?case
      by (cases bs) (auto simp: go_on_eq split: if_splits dest!: read_n_ok readKey_ok Suc.IH(2,3))
  next
    case 2
    then show ?case by (auto simp: go_on_eq split: if_splits dest!: readKey_ok Suc.IH(1,2))
  next
    case 3
    then show ?case by (cases k) (auto simp: go_on_eq dest!: Suc.IH(1,3))
  }
qed simp_all

lemma enough_fuel:
  shows "2 * length bs < n \<Longrightarrow> unmarshal same n bs \<noteq> Inl OutOfFuel"
    and "2 * length bs < n \<Longrightarrow> read_properties same n m bs \<noteq> Inl OutOfFuel"
    and "2 * length bs + 1 < n \<Longrightarrow> read_elements same n k bs \<noteq> Inl OutOfFuel"
proof (induction n arbitrary: bs m k)
  case (Suc n)
  {
    case 1
    show ?case
    proof (cases bs)
      case (Cons t bs')
      have q: "read_properties same n m bs' \<noteq> Inl OutOfFuel" for m using 1 Cons by (intro Suc.IH(2)) simp
      have l: "2 * length r + 1 < n" if "read_n Panic 4 bs' = Inr (x, r)" for x r using read_n_ok [OF that] 1 Cons by simp
      have q2: "read_properties same n m r \<noteq> Inl OutOfFuel" if "read_n Panic 4 bs' = Inr (x, r)" for x r m
        using l [OF that] by (intro Suc.IH(2)) simp
      have q3: "read_elements same n k r \<noteq> Inl OutOfFuel" if "read_n Panic 4 bs' = Inr (x, r)" for x r k
        using l [OF that] by (intro Suc.IH(3))
      show ?thesis unfolding Cons unmarshal.simps by (simp add: go_on_eq q q2 q3 split_paired_all)
    qed simp
  next
    case 2
    have q: "unmarshal same n r \<noteq> Inl OutOfFuel" if "readKey bs = Inr (key, r)" for key r
      using 2 readKey_ok [OF that] by (intro Suc.IH(1)) simp
    have "read_properties same n m' r' \<noteq> Inl OutOfFuel"
      if "readKey bs = Inr (key, r)" "unmarshal same n r = Inr (v, r')" for key r v r' m'
      using 2 readKey_ok [OF that(1)] unmarshal_consumes(1) [OF that(2)] by (intro Suc.IH(2)) simp
    with q show ?case by (auto simp: go_on_eq split_paired_all)
  next
    case 3
    have q: "unmarshal same n bs \<noteq> Inl OutOfFuel" using 3 by (intro Suc.IH(1)) simp
    have "read_elements same n k' r \<noteq> Inl OutOfFuel" if "unmarshal same n bs = Inr (v, r)" for v r k'
      using 3 unmarshal_consumes(1) [OF that] by (intro Suc.IH(3)) simp
    with q show ?case by (cases k) (auto simp: go_on_eq split_paired_all)
  }
qed simp_all

lemma more_fuel:
  shows "n \<le> n' \<Longrightarrow> unmarshal same n bs \<noteq> Inl OutOfFuel \<Longrightarrow> unmarshal same n' bs = unmarshal same n bs"
    and "n \<le> n' \<Longrightarrow> read_properties same n m bs \<noteq> Inl OutOfFuel \<Longrightarrow> read_properties same n' m bs = read_properties same n m bs"
    and "n \<le> n' \<Longrightarrow> read_elements same n k bs \<noteq> Inl OutOfFuel \<Longrightarrow> read_elements same n' k bs = read_elements same n k bs"
proof (induction n arbitrary: n' bs m k)
  case (Suc n)
  {
    case 1
    then obtain l where l: "n' = Suc l" "n \<le> l" by (cases n') auto
    show ?case
    proof (cases bs)
      case (Cons t bs')
      show ?thesis
        using 1(2) Suc.IH(2,3) [OF l(2)] unfolding Cons l(1) unmarshal.simps
        by (cases "read_n Panic 4 bs'") (auto simp: go_on_eq split_paired_all)
    qed (simp add: l)
  next
    case 2
    then obtain l where l: "n' = Suc l" "n \<le> l" by (cases n') auto
    show ?case
      using 2(2) Suc.IH(1,2) [OF l(2)] unfolding l(1) read_properties.simps
      by (cases "readKey bs"; cases "unmarshal same n (snd (projr (readKey bs)))") (auto simp: split: if_splits)
  next
    case 3
    then obtain l where l: "n' = Suc l" "n \<le> l" by (cases n') auto
    show ?case
      using 3(2) Suc.IH(1,3) [OF l(2)] unfolding l(1)
      by (cases k; cases "unmarshal same n bs") (auto simp: go_on_eq)
  }
qed simp_all

lemma Unmarshal_eq:
  assumes "unmarshal same n bs = x" and "x \<noteq> Inl OutOfFuel"
  shows "Unmarshal same bs = x"
proof -
  have e: "unmarshal same (2 * length bs + 1) bs \<noteq> Inl OutOfFuel" by (rule enough_fuel(1)) simp
  show ?thesis
    using assms more_fuel(1) [OF _ e, of n] more_fuel(1) [of n "2 * length bs + 1" same bs]
    unfolding Unmarshal_def by (cases "n \<le> 2 * length bs + 1") auto
qed

subsection \<open>What the client's encoder writes\<close>

definition go_merge :: "(bytes \<times> go_value) list \<Rightarrow> (bytes \<times> go_value) list \<Rightarrow> (bytes \<times> go_value) list" where
  "go_merge m ps = fold (\<lambda>(k, v). AList.update k v) ps m"

text \<open>The value a JavaScript value is to arrive as; of properties with the same name the last one counts.\<close>

fun go_of :: "js_value \<Rightarrow> go_value" where
  "go_of JNull = GNil"
| "go_of JUndefined = GUndefined"
| "go_of (JBoolean b) = GBool b"
| "go_of (JNumber x) = GNumber x"
| "go_of (JString s) = GString (text_encode s)"
| "go_of (JDate t) = GNumber t"
| "go_of (JArray xs) = GList (map go_of xs)"
| "go_of (JObject ps) = GEcma (go_merge [] (map (\<lambda>p. (text_encode (fst p), go_of (snd p))) ps))"
| "go_of JOther = GUndefined"

text \<open>No property with an empty name is undefined.\<close>

fun clear_ends :: "js_value \<Rightarrow> bool" where
  "clear_ends (JArray xs) \<longleftrightarrow> (\<forall>x \<in> set xs. clear_ends x)"
| "clear_ends (JObject ps) \<longleftrightarrow>
     (\<forall>p \<in> set ps. (text_encode (fst p) \<noteq> [] \<or> snd p \<noteq> JUndefined) \<and> clear_ends (snd p))"
| "clear_ends _ \<longleftrightarrow> True"

lemma go_of_ends: "amf_fits v \<Longrightarrow> is_object_end same (go_of v) \<longleftrightarrow> same \<and> v = JUndefined"
  by (cases v) (auto simp: is_object_end_def)

lemma read_n_append [simp]: "length x = n \<Longrightarrow> read_n e n (x @ r) = Inr (x, r)"
  by (simp add: read_n_def)

lemma readKey_text: "short_text s \<Longrightarrow> readKey (amf_text s @ r) = Inr (text_encode s, r)"
  by (simp add: readKey_def amf_text_def short_text_def be_val_be_bytes_nat)

lemma readKey_empty: "readKey (0 # 0 # r) = Inr ([], r)"
  by (simp add: readKey_def read_n_def be_val_def numeral_2_eq_2)

lemma be_val_f64: "be_val (be_bytes 8 (uint (x :: f64))) = unat x"
  using be_val_be_bytes_nat [of "unat x" 8] unsigned_less [of x, where 'a = nat] by simp

lemma unmarshal_bytes:
  shows "amf_fits v \<Longrightarrow> clear_ends v \<Longrightarrow> 2 * length (amf_bytes v) \<le> n \<Longrightarrow>
      unmarshal same n (amf_bytes v @ r) = Inr (go_of v, r)"
    and "(\<forall>p \<in> set ps. short_text (fst p) \<and> amf_fits (snd p) \<and> (text_encode (fst p) \<noteq> [] \<or> snd p \<noteq> JUndefined) \<and> clear_ends (snd p)) \<Longrightarrow>
      2 * length (amf_entries ps) + 2 \<le> n \<Longrightarrow>
      read_properties same n m (amf_entries ps @ [0, 0, 9] @ r)
        = Inr (go_merge m (map (\<lambda>p. (text_encode (fst p), go_of (snd p))) ps), r)"
    and "(\<forall>x \<in> set xs. amf_fits x \<and> clear_ends x) \<Longrightarrow> 2 * length (amf_elements xs) + 1 \<le> n \<Longrightarrow>
      read_elements same n (length xs) (amf_elements xs @ r) = Inr (map go_of xs, r)"
proof (induction v and ps and xs arbitrary: n r and n m r and n r
    rule: amf_bytes_amf_entries_amf_elements.induct)
  case 1
  then show ?case by (cases n) simp_all
next
  case 2
  then show ?case by (cases n) simp_all
next
  case (3 b)
  then show ?case by (cases n) (simp_all add: read_n_def)
next
  case (4 x)
  then show ?case by (cases n) (simp_all add: be_val_f64)
next
  case (5 s)
  then show ?case
    by (cases n) (auto simp: readKey_text amf_long_text_def be_val_be_bytes_nat split: if_splits)
next
  case (6 t)
  have "read_n UnexpectedEOF 10 ((be_bytes 8 (uint t) @ [0, 0]) @ r) = Inr (be_bytes 8 (uint t) @ [0, 0], r)"
    by (rule read_n_append) simp
  then show ?case using 6 by (cases n) (simp_all add: be_val_f64)
next
  case (7 xs)
  then obtain l where l: "n = Suc l" by (cases n) auto
  have "read_elements same l (length xs) (amf_elements xs @ r) = Inr (map go_of xs, r)"
    using 7 l by (intro "7.IH") auto
  then show ?case using 7 l by (simp add: be_val_be_bytes_nat)
next
  case (8 ps)
  then obtain l where l: "n = Suc l" by (cases n) auto
  have "read_properties same l [] (amf_entries ps @ [0, 0, 9] @ r)
      = Inr (go_merge [] (map (\<lambda>p. (text_encode (fst p), go_of (snd p))) ps), r)"
    using 8 l by (intro "8.IH") auto
  then show ?case using 8 l by simp
next
  case 9
  then show ?case by simp
next
  case 10
  then obtain l where l: "n = Suc (Suc l)" by (cases n; cases "n - 1") auto
  then show ?case by (simp add: readKey_empty go_merge_def is_object_end_def)
next
  case (11 k v ps)
  then obtain l where l: "n = Suc l" by (cases n) auto
  have v: "unmarshal same l (amf_bytes v @ amf_entries ps @ [0, 0, 9] @ r) = Inr (go_of v, amf_entries ps @ [0, 0, 9] @ r)"
    using 11 l by (intro "11.IH") auto
  have e: "read_properties same l (AList.update (text_encode k) (go_of v) m) (amf_entries ps @ [0, 0, 9] @ r)
      = Inr (go_merge (AList.update (text_encode k) (go_of v) m) (map (\<lambda>p. (text_encode (fst p), go_of (snd p))) ps), r)"
    using 11 l amf_bytes_head [of v] by (intro "11.IH") auto
  have "\<not> (text_encode k = [] \<and> is_object_end same (go_of v))" using 11 go_of_ends [of v same] by auto
  then show ?case using 11 l v e by (simp add: readKey_text go_merge_def)
next
  case 12
  then show ?case by (cases n) simp_all
next
  case (13 x xs)
  then obtain l where l: "n = Suc l" by (cases n) auto
  obtain b bs where h: "amf_bytes x = b # bs" using 13 amf_bytes_head [of x] by auto
  have "unmarshal same l (amf_bytes x @ amf_elements xs @ r) = Inr (go_of x, amf_elements xs @ r)"
    using 13 l by (intro "13.IH") auto
  moreover have "read_elements same l (length xs) (amf_elements xs @ r) = Inr (map go_of xs, r)"
    using 13 l h by (intro "13.IH") auto
  ultimately show ?case using l by simp
qed

lemma Unmarshal_bytes: "amf_fits v \<Longrightarrow> clear_ends v \<Longrightarrow> Unmarshal same (amf_bytes v @ r) = Inr (go_of v, r)"
  unfolding Unmarshal_def by (intro unmarshal_bytes(1)) auto

subsection \<open>Properties\<close>

text \<open>
  C12. The server decodes what the client encodes. Every value whose sizes fit, written by \<open>ScriptEncoder\<close>
  after a reset, is decoded by \<open>Unmarshal\<close> without an error to the value it stands for, with no byte left
  over, whether or not pointers to empty variables are equal. Excluded is only an object with an undefined
  property whose name is empty.
\<close>

theorem server_decodes_the_metadata:
  assumes "be_ready w" and "amf_fits v" and "clear_ends v"
  shows "Unmarshal same (getBytes (writeScriptDataValue v (reset w))) = Inr (go_of v, [])"
  using assms append_from_reset [OF wvalue.append_op_axioms, of w v] Unmarshal_bytes [of v same "[]"] by simp

theorem server_decodes_the_metadata_witness:
  "Unmarshal True (getBytes (writeScriptDataValue
     (JObject [(js_of_ascii ''a'', JArray [JNull, JUndefined]), (js_of_ascii ''b'', JNumber 7), (js_of_ascii ''a'', JBoolean True)])
     (reset (new_BinaryWriter False))))
   = Inr (GEcma [([97], GBool True), ([98], GNumber 7)], [])"
proof -
  let ?v = "JObject [(js_of_ascii ''a'', JArray [JNull, JUndefined]), (js_of_ascii ''b'', JNumber 7), (js_of_ascii ''a'', JBoolean True)]"
  have t: "text_encode (js_of_ascii ''a'') = [97]" "text_encode (js_of_ascii ''b'') = [98]"
    by (simp_all add: text_encode_def js_of_ascii_def lone_unit_def is_lead_def is_trail_def utf8_char_def byte_of_def)
  then have "amf_fits ?v" "clear_ends ?v" by (simp_all add: short_text_def)
  then show ?thesis using server_decodes_the_metadata [of "new_BinaryWriter False" ?v True] t by (simp add: go_merge_def)
qed

text \<open>
  C31. The decoder ends on every input. Whatever bytes it is given, \<open>Unmarshal\<close> returns: the nesting is
  bounded by the bytes, more fuel than \<open>2 n + 1\<close> for \<open>n\<close> bytes changes nothing, and a value takes at
  least one byte, so the loops over properties and elements end as well.
\<close>

theorem unmarshal_ends:
  "Unmarshal same bs \<noteq> Inl OutOfFuel \<and>
   unmarshal same (2 * length bs + 1 + extra) bs = Unmarshal same bs \<and>
   (case Unmarshal same bs of Inl e \<Rightarrow> True | Inr (v, r) \<Rightarrow> length r < length bs)"
proof -
  have "Unmarshal same bs \<noteq> Inl OutOfFuel" unfolding Unmarshal_def by (rule enough_fuel(1)) simp
  moreover from this have "unmarshal same (2 * length bs + 1 + extra) bs = Unmarshal same bs"
    unfolding Unmarshal_def by (intro more_fuel(1)) simp_all
  moreover have "case Unmarshal same bs of Inl e \<Rightarrow> True | Inr (v, r) \<Rightarrow> length r < length bs"
    unfolding Unmarshal_def by (auto split: sum.split dest: unmarshal_consumes(1))
  ultimately show ?thesis by blast
qed

text \<open>
  C40. A truncated count is a crash. \<open>Unmarshal\<close> checks the length before every read but that of the count of
  an array: metadata that end within it, in a map of any depth, panic instead of giving an error.
\<close>

theorem truncated_count_panics:
  assumes "t \<in> {8, 10}" and "length x < 4" and "list_all short_text ks"
  shows "Unmarshal same (concat (map (\<lambda>k. 3 # amf_text k) ks) @ t # x) = Inl Panic"
proof (rule Unmarshal_eq)
  show "unmarshal same (2 * length ks + 1) (concat (map (\<lambda>k. 3 # amf_text k) ks) @ t # x) = Inl Panic"
    using assms(3)
  proof (induction ks)
    case Nil
    then show ?case using assms(1,2) by (auto simp: read_n_def)
  next
    case (Cons k ks)
    then show ?case by (simp add: readKey_text)
  qed
qed simp

theorem truncated_count_panics_witness:
  "Unmarshal True [8, 0, 0] = Inl Panic \<and> Unmarshal False [3, 0, 0, 10] = Inl Panic"
  using truncated_count_panics [of 8 "[0, 0]" "[]" True] truncated_count_panics [of 10 "[]" "[[]]" False]
  by (simp add: short_text_def amf_text_def numeral_2_eq_2)

text \<open>
  An undefined property with an empty name may end its object. If pointers to empty variables are equal, the decoder
  takes it for the end of the object; what follows is left in the buffer.
\<close>

theorem empty_undefined_ends_the_object:
  "Unmarshal True (amf_bytes (JObject (([], JUndefined) # ps))) = Inr (GEcma [], amf_entries ps @ [0, 0, 9])"
proof (rule Unmarshal_eq)
  have "readKey (amf_text [] @ r) = Inr ([], r)" for r using readKey_text [of "[]"] by (simp add: short_text_def)
  then show "unmarshal True 3 (amf_bytes (JObject (([], JUndefined) # ps))) = Inr (GEcma [], amf_entries ps @ [0, 0, 9])"
    by (simp add: is_object_end_def numeral_3_eq_3)
qed simp

end
