(* ===== verification/Flv_Server.thy ===== *)
theory Flv_Server
  imports Flv_Encoder Amf_Reader
begin

section \<open>The server's FLV writer and reader\<close>

text \<open>
  What the server does with FLV: \<open>FlvWriter\<close> of \<open>plugin/flv/pkg/flv.go\<close>, which writes headers and tags, and
  \<open>Puller.Run\<close> of \<open>plugin/flv/pkg/pull-httpfile.go\<close>, which \<open>handlePush\<close> of \<open>plugin/webtransport/index.go\<close>
  runs on what the recorder sends. The stream is a list of bytes (a \<open>BufReader\<close> reads on until it has what
  is asked for or the stream ends). What the publisher answers to a frame and after how many tags the task is stopped are
  parameters. Allocation, steps of the pull job and the log are left out.
\<close>

subsection \<open>FlvWriter\<close>

definition PutBE :: "nat \<Rightarrow> 32 word \<Rightarrow> bytes" where
  "PutBE n num = map (\<lambda>i. ucast (drop_bit (8 * (n - i - 1)) num)) [0..<n]"

definition WriteHeader :: "bool \<Rightarrow> bool \<Rightarrow> bytes" where
  "WriteHeader hasAudio hasVideo =
     (let flags = (0 :: byte);
          flags = (if hasAudio then flags OR 4 else flags);
          flags = (if hasVideo then flags OR 1 else flags)
      in [0x46, 0x4C, 0x56, 1, flags, 0, 0, 0, 9, 0, 0, 0, 0])"

definition PutFlvTimestamp :: "32 word \<Rightarrow> bytes \<Rightarrow> bytes" where
  "PutFlvTimestamp ts header =
     header[4 := ucast (drop_bit 16 ts), 5 := ucast (drop_bit 8 ts), 6 := ucast ts, 7 := ucast (drop_bit 24 ts)]"

definition WriteFLVTagHead :: "byte \<Rightarrow> 32 word \<Rightarrow> 32 word \<Rightarrow> bytes \<Rightarrow> bytes" where
  "WriteFLVTagHead t ts dataSize b =
     PutFlvTimestamp ts (b[0 := t, 1 := ucast (drop_bit 16 dataSize), 2 := ucast (drop_bit 8 dataSize), 3 := ucast dataSize])"

text \<open>The buffer of 15 bytes is the writer's state; the result is what is written and the buffer.\<close>

definition WriteTag :: "byte \<Rightarrow> 32 word \<Rightarrow> 32 word \<Rightarrow> bytes list \<Rightarrow> bytes \<Rightarrow> bytes \<times> bytes" where
  "WriteTag t ts dataSize payload buf =
     (let buf = WriteFLVTagHead t ts dataSize buf;
          tail = PutBE 4 (dataSize + 11);
          buf = take 11 buf @ tail
      in (take 11 buf @ concat payload @ tail, buf))"

definition NewFlvWriter :: bytes where
  "NewFlvWriter = replicate 15 0"

text \<open>The stream number is never written.\<close>

definition buf_ok :: "bytes \<Rightarrow> bool" where
  "buf_ok buf \<longleftrightarrow> (\<exists>a b c d e f g h tail. buf = [a, b, c, d, e, f, g, h, 0, 0, 0] @ tail \<and> length tail = 4)"

lemma buf_ok_new: "buf_ok NewFlvWriter"
  by (auto simp: buf_ok_def NewFlvWriter_def numeral_eq_Suc)

lemma byte_of_int_drop: "ucast (drop_bit k (word_of_int v :: 32 word)) = (word_of_int (v div 2 ^ k) :: byte)" if "k \<le> 24"
  using that by (intro bit_word_eqI) (auto simp: bit_simps ac_simps simp flip: drop_bit_eq_div)

lemma PutBE_bytes: "n \<le> 4 \<Longrightarrow> PutBE n (word_of_int v) = be_bytes n v"
proof -
  have "\<forall>n \<in> {0, 1, 2, 3, 4}. PutBE n (word_of_int v) = be_bytes n v"
    using byte_of_int_drop [of 0 v] byte_of_int_drop [of 8 v] byte_of_int_drop [of 16 v] byte_of_int_drop [of 24 v]
    by (simp add: PutBE_def numeral_eq_Suc upt_rec zdiv_zmult2_eq [symmetric])
  moreover assume "n \<le> 4"
  then have "n \<in> {0, 1, 2, 3, 4}" by auto
  ultimately show ?thesis by blast
qed

lemma WriteTag_bytes:
  assumes "buf_ok buf"
  shows "fst (WriteTag t (word_of_int ts) (word_of_int n) payload buf) =
      [t] @ be_bytes 3 n @ be_bytes 3 ts @ [word_of_int (ts div 2 ^ 24)] @ be_bytes 3 0 @ concat payload @ be_bytes 4 (11 + n)"
    and "buf_ok (snd (WriteTag t (word_of_int ts) (word_of_int n) payload buf))"
proof -
  obtain a b c d e f g h tail where buf: "buf = [a, b, c, d, e, f, g, h, 0, 0, 0] @ tail" "length tail = 4"
    using assms by (auto simp: buf_ok_def)
  have s: "word_of_int n + 11 = (word_of_int (11 + n) :: 32 word)" by simp
  have head: "take 11 (WriteFLVTagHead t (word_of_int ts) (word_of_int n) buf) =
      [t, word_of_int (n div 2 ^ 16), word_of_int (n div 2 ^ 8), word_of_int n,
       word_of_int (ts div 2 ^ 16), word_of_int (ts div 2 ^ 8), word_of_int ts, word_of_int (ts div 2 ^ 24), 0, 0, 0]"
    using byte_of_int_drop [of 0 n] byte_of_int_drop [of 8 n] byte_of_int_drop [of 16 n]
      byte_of_int_drop [of 0 ts] byte_of_int_drop [of 8 ts] byte_of_int_drop [of 16 ts] byte_of_int_drop [of 24 ts]
    by (simp add: buf WriteFLVTagHead_def PutFlvTimestamp_def)
  have b3: "be_bytes 3 v = [word_of_int (v div 2 ^ 16), word_of_int (v div 2 ^ 8), word_of_int v]" for v
    by (simp add: numeral_3_eq_3 zdiv_zmult2_eq [symmetric])
  have t: "PutBE 4 (word_of_int n + 11) = be_bytes 4 (11 + n)" unfolding s by (rule PutBE_bytes) simp
  show "fst (WriteTag t (word_of_int ts) (word_of_int n) payload buf) =
      [t] @ be_bytes 3 n @ be_bytes 3 ts @ [word_of_int (ts div 2 ^ 24)] @ be_bytes 3 0 @ concat payload @ be_bytes 4 (11 + n)"
    unfolding WriteTag_def Let_def t head b3 by simp
  show "buf_ok (snd (WriteTag t (word_of_int ts) (word_of_int n) payload buf))"
    unfolding WriteTag_def Let_def t head snd_conv buf_ok_def by simp
qed

text \<open>
  C14. Client and server write the same FLV. What the client's encoder produces for the header and for a tag
  is, byte by byte, what the server's \<open>FlvWriter\<close> writes for the same fields, whatever the writer wrote
  before: also for times beyond 32 bits, negative ones and bodies whose size does not fit its field.
\<close>

theorem client_and_server_write_the_same:
  assumes "be_ready w" and "buf_ok buf"
  shows "fst (encodeFlvHeader hasVideo hasAudio w) = WriteHeader hasAudio hasVideo \<and>
    fst (encodeFlvTag type header ts data w)
      = fst (WriteTag (word_of_int (TagType type)) (to_int32 ts) (of_nat (length header + length data)) [header, data] buf)"
proof
  show "fst (encodeFlvHeader hasVideo hasAudio w) = WriteHeader hasAudio hasVideo"
    unfolding encodeFlvHeader_bytes(1) [OF assms(1)]
    by (cases hasVideo; cases hasAudio) (simp_all add: flv_header_bytes_def WriteHeader_def numeral_eq_Suc)
  show "fst (encodeFlvTag type header ts data w)
      = fst (WriteTag (word_of_int (TagType type)) (to_int32 ts) (of_nat (length header + length data)) [header, data] buf)"
    unfolding encodeFlvTag_bytes(1) [OF assms(1)] to_int32_def
    using WriteTag_bytes(1) [OF assms(2), of "word_of_int (TagType type)" "js_trunc ts" "int (length header + length data)" "[header, data]"]
    by (simp add: flv_tag_bytes_def)
qed

theorem client_and_server_write_the_same_witness:
  "fst (encodeFlvTag AUDIO [1] (2 ^ 32 + 7) [2, 3] (new_BinaryWriter False))
    = fst (WriteTag 8 7 3 [[1], [2, 3]] NewFlvWriter)"
proof -
  have "to_int32 (2 ^ 32 + 7) = 7"
    using js_trunc_int [of "2 ^ 32 + 7"] by (simp add: to_int32_def)
  then show ?thesis
    using client_and_server_write_the_same [of "new_BinaryWriter False" NewFlvWriter _ _ AUDIO "[1]" "2 ^ 32 + 7" "[2, 3]"]
    by (simp add: buf_ok_new)
qed

subsection \<open>Puller\<close>

datatype av = AudioFrame | VideoFrame

record pulled =
  avKind :: av
  avTime :: "32 word"
  avData :: bytes

datatype pull_end = EndOfStream | NotFlv | ScriptError amf_error | PublisherError string | TaskStopped

text \<open>\<open>ReadBE32\<close>: the loop over the bytes.\<close>

fun ReadBE32 :: "nat \<Rightarrow> bytes \<Rightarrow> (32 word \<times> bytes) option" where
  "ReadBE32 0 bs = Some (0, bs)"
| "ReadBE32 (Suc n) [] = None"
| "ReadBE32 (Suc n) (b # bs) = do { (num, r) \<leftarrow> ReadBE32 n bs; Some (push_bit (8 * n) (ucast b) + num, r) }"

text \<open>Type, size and time of the next tag; the stream number is read and dropped.\<close>

definition read_tag_head :: "bytes \<Rightarrow> (byte \<times> nat \<times> 32 word \<times> bytes) option" where
  "read_tag_head bs =
     (case bs of [] \<Rightarrow> None
      | t # r \<Rightarrow>
          do { (dataSize, r) \<leftarrow> ReadBE32 3 r; (timestamp, r) \<leftarrow> ReadBE32 3 r;
               (h, r) \<leftarrow> take_bytes 1 r;
               (_, r) \<leftarrow> take_bytes 3 r;
               Some (t, unat dataSize, timestamp OR push_bit 24 (ucast (h ! 0)), r) })"

text \<open>The metadata: a name and a value.\<close>

definition read_metadata :: "bool \<Rightarrow> bytes \<Rightarrow> amf_error option" where
  "read_metadata same amf =
     (case Unmarshal same amf of Inl e \<Rightarrow> Some e
      | Inr (name, amf) \<Rightarrow> (case Unmarshal same amf of Inl e \<Rightarrow> Some e | Inr (metaData, amf) \<Rightarrow> None))"

text \<open>
  The loop over the tags; \<open>n\<close> is how many tags are read before the task is stopped, \<open>sink\<close> the publisher's answer. A body
  of an unknown type is not skipped. The result lists the frames handed to the publisher.
\<close>

fun pull_tags :: "(pulled \<Rightarrow> string option) \<Rightarrow> bool \<Rightarrow> bool \<Rightarrow> bool \<Rightarrow> nat \<Rightarrow> 32 word \<Rightarrow> bytes \<Rightarrow> pulled list \<times> pull_end" where
  "pull_tags sink same pubAudio pubVideo 0 startTs bs = ([], TaskStopped)"
| "pull_tags sink same pubAudio pubVideo (Suc n) startTs bs =
     (case read_tag_head bs of
        None \<Rightarrow> ([], EndOfStream)
      | Some (t, ds, timestamp, r) \<Rightarrow>
          let startTs = (if startTs = 0 then timestamp else startTs);
              absTS = timestamp - startTs;
              next_tag = (\<lambda>r. case take_bytes 4 r of None \<Rightarrow> ([], EndOfStream)
                                | Some (_, r) \<Rightarrow> pull_tags sink same pubAudio pubVideo n startTs r);
              frame = (\<lambda>k. case take_bytes ds r of None \<Rightarrow> ([], EndOfStream)
                             | Some (body, r) \<Rightarrow>
                                 let f = \<lparr>avKind = k, avTime = absTS, avData = body\<rparr>
                                 in case sink f of Some e \<Rightarrow> ([f], PublisherError e)
                                    | None \<Rightarrow> let (fs, e) = next_tag r in (f # fs, e))
          in if t = 8 then (if pubAudio then frame AudioFrame else next_tag (drop ds r))
             else if t = 9 then (if pubVideo then frame VideoFrame else next_tag (drop ds r))
             else if t = 18 then
               (case take_bytes ds r of None \<Rightarrow> ([], EndOfStream)
                | Some (amf, r) \<Rightarrow> (case read_metadata same amf of Some e \<Rightarrow> ([], ScriptError e) | None \<Rightarrow> next_tag r))
             else next_tag r)"

definition pull :: "(pulled \<Rightarrow> string option) \<Rightarrow> bool \<Rightarrow> bool \<Rightarrow> bool \<Rightarrow> nat \<Rightarrow> bytes \<Rightarrow> pulled list \<times> pull_end" where
  "pull sink same pubAudio pubVideo n bs =
     (case take_bytes 13 bs of
        None \<Rightarrow> ([], EndOfStream)
      | Some (head, r) \<Rightarrow>
          if take 3 head \<noteq> [0x46, 0x4C, 0x56] then ([], NotFlv)
          else let hasAudio = (head ! 4 AND 4 \<noteq> 0); hasVideo = (head ! 4 AND 1 \<noteq> 0)
               in pull_tags sink same (pubAudio \<and> hasAudio) (pubVideo \<and> hasVideo) n 0 r)"

subsection \<open>Reading a tag\<close>

lemma be_val_Cons: "be_val (b # y) = unat b * 256 ^ length y + be_val y"
proof (induction y rule: rev_induct)
  case Nil
  then show ?case by (simp add: be_val_def)
next
  case (snoc x y)
  then show ?case using be_val_snoc [of "b # y" x] by simp
qed

lemma ReadBE32_append: "length x = n \<Longrightarrow> ReadBE32 n (x @ r) = Some (word_of_nat (be_val x), r)"
proof (induction n arbitrary: x)
  case (Suc n)
  obtain b y where x: "x = b # y" "length y = n" using Suc.prems by (cases x) auto
  have "(ucast b :: 32 word) = of_nat (unat b)" by simp
  then have "push_bit (8 * n) (ucast b) = (of_nat (unat b * 256 ^ n) :: 32 word)"
    by (simp add: push_bit_eq_mult power_mult)
  then show ?case using Suc.IH [OF x(2)] x by (simp add: be_val_Cons)
qed simp

lemma ReadBE32_be: "n \<le> 3 \<Longrightarrow> ReadBE32 n (be_bytes n v @ r) = Some (word_of_int (v mod 256 ^ n), r)"
  using ReadBE32_append [of "be_bytes n v" n r] be_val_be_bytes [of n v] by (metis length_be_bytes of_int_of_nat_eq)

text \<open>The time of a tag is put together again from its two fields.\<close>

lemma tag_time: "word_of_int (v mod 256 ^ 3) OR push_bit 24 (ucast (word_of_int (v div 2 ^ 24) :: byte)) = (word_of_int v :: 32 word)"
proof (rule bit_word_eqI)
  fix n assume "n < LENGTH(32)"
  have m: "v mod 256 ^ 3 = take_bit 24 v" by (simp add: take_bit_eq_mod)
  have d: "v div 2 ^ 24 = drop_bit 24 v" by (simp add: drop_bit_eq_div)
  show "bit (word_of_int (v mod 256 ^ 3) OR push_bit 24 (ucast (word_of_int (v div 2 ^ 24) :: byte)) :: 32 word) n = bit (word_of_int v :: 32 word) n"
    using \<open>n < LENGTH(32)\<close> unfolding m d by (cases "n < 24") (auto simp: bit_simps)
qed

lemma read_tag_head_bytes:
  assumes "length body < 2 ^ 24"
  shows "read_tag_head (flv_tag_bytes type ts body @ r)
    = Some (word_of_int (TagType type), length body, word_of_int ts, body @ be_bytes 4 (11 + int (length body)) @ r)"
proof -
  let ?n = "int (length body)"
  have n: "?n mod 256 ^ 3 = ?n" using assms by simp
  have u: "unat (word_of_int ?n :: 32 word) = length body"
    using assms by (simp add: unat_of_nat)
  have t: "take_bytes (Suc 0) (x # s) = Some ([x], s)" for x s by (simp add: take_bytes_def)
  show ?thesis
    unfolding flv_tag_bytes_def read_tag_head_def
    using tag_time [of ts] u by (simp add: ReadBE32_be n t del: power_numeral)
qed

text \<open>Tags as their fields, and the frames they are to become.\<close>

type_synonym fields = "tag_type \<times> int \<times> bytes"

definition tag_bytes :: "fields \<Rightarrow> bytes" where
  "tag_bytes = (\<lambda>(type, ts, body). flv_tag_bytes type ts body)"

fun frame_of :: "bool \<Rightarrow> bool \<Rightarrow> 32 word \<Rightarrow> tag_type \<Rightarrow> bytes \<Rightarrow> pulled list" where
  "frame_of pubAudio pubVideo t AUDIO body = (if pubAudio then [\<lparr>avKind = AudioFrame, avTime = t, avData = body\<rparr>] else [])"
| "frame_of pubAudio pubVideo t VIDEO body = (if pubVideo then [\<lparr>avKind = VideoFrame, avTime = t, avData = body\<rparr>] else [])"
| "frame_of pubAudio pubVideo t SCRIPT body = []"

fun go_frames :: "bool \<Rightarrow> bool \<Rightarrow> 32 word \<Rightarrow> fields list \<Rightarrow> pulled list" where
  "go_frames pubAudio pubVideo startTs [] = []"
| "go_frames pubAudio pubVideo startTs ((type, ts, body) # xs) =
     (let startTs = (if startTs = 0 then word_of_int ts else startTs)
      in frame_of pubAudio pubVideo (word_of_int ts - startTs) type body @ go_frames pubAudio pubVideo startTs xs)"

definition tag_fits :: "bool \<Rightarrow> fields \<Rightarrow> bool" where
  "tag_fits same = (\<lambda>(type, ts, body). length body < 2 ^ 24 \<and> (type = SCRIPT \<longrightarrow> read_metadata same body = None))"

lemma pull_tags_bytes:
  assumes "list_all (tag_fits same) xs" and "\<And>f. sink f = None"
  shows "pull_tags sink same pubAudio pubVideo (length xs + n) startTs (concat (map tag_bytes xs) @ r)
    = (let (fs, e) = pull_tags sink same pubAudio pubVideo n (fold (\<lambda>(_, ts, _) s. if s = 0 then word_of_int ts else s) xs startTs) r
       in (go_frames pubAudio pubVideo startTs xs @ fs, e))"
  using assms(1)
proof (induction xs arbitrary: startTs)
  case Nil
  then show ?case by simp
next
  case (Cons x xs)
  obtain type ts body where x: "x = (type, ts, body)" by (metis prod_cases3)
  have fits: "length body < 2 ^ 24" "type = SCRIPT \<Longrightarrow> read_metadata same body = None"
    using Cons.prems by (simp_all add: x tag_fits_def)
  let ?r = "concat (map tag_bytes xs) @ r" and ?p = "be_bytes 4 (11 + int (length body))"
  have b: "concat (map tag_bytes (x # xs)) @ r = flv_tag_bytes type ts body @ ?r" by (simp add: x tag_bytes_def)
  have t: "take_bytes (length body) (body @ ?p @ ?r) = Some (body, ?p @ ?r)" "take_bytes 4 (?p @ ?r) = Some (?p, ?r)"
    "drop (length body) (body @ ?p @ ?r) = ?p @ ?r"
    by simp_all
  note h = read_tag_head_bytes [OF fits(1)]
  show ?case
    using Cons.IH Cons.prems fits(2) unfolding b
    by (cases pubAudio; cases pubVideo; cases type) (simp_all add: h t assms(2) x Let_def split_beta)
qed

lemma header_flags:
  "flv_header_bytes hasVideo hasAudio ! 4 AND 4 \<noteq> 0 \<longleftrightarrow> hasAudio" "flv_header_bytes hasVideo hasAudio ! 4 AND 1 \<noteq> 0 \<longleftrightarrow> hasVideo"
  "take 3 (flv_header_bytes hasVideo hasAudio) = [0x46, 0x4C, 0x56]"
  by (cases hasVideo; cases hasAudio; simp add: flv_header_bytes_def)+

lemma pull_file:
  assumes "list_all (tag_fits same) xs" and "\<And>f. sink f = None" and "length xs < n"
  shows "pull sink same pubAudio pubVideo n (flv_header_bytes hasVideo hasAudio @ concat (map tag_bytes xs))
    = (go_frames (pubAudio \<and> hasAudio) (pubVideo \<and> hasVideo) 0 xs, EndOfStream)"
proof -
  obtain m where m: "n = length xs + Suc m" using assms(3) less_iff_Suc_add by auto
  have e: "pull_tags sink same a v (Suc m) s [] = ([], EndOfStream)" for a v s by (simp add: read_tag_head_def)
  have h: "take_bytes 13 (flv_header_bytes hasVideo hasAudio @ r) = Some (flv_header_bytes hasVideo hasAudio, r)" for r
    by (rule take_bytes_append) (simp add: flv_header_bytes_def)
  show ?thesis
    using pull_tags_bytes [OF assms(1,2), where pubAudio = "pubAudio \<and> hasAudio" and pubVideo = "pubVideo \<and> hasVideo" and n = "Suc m" and startTs = 0 and r = "[]"]
    by (simp add: pull_def h header_flags m e del: pull_tags.simps)
qed

subsection \<open>The times of the frames\<close>

text \<open>
  \<open>startTs\<close> is the first time that is not 0, because 0 stands for a start that is not known yet.
\<close>

definition start_time :: "int list \<Rightarrow> int" where
  "start_time ts = (case filter (\<lambda>t. t \<noteq> 0) ts of [] \<Rightarrow> 0 | t # _ \<Rightarrow> t)"

lemma start_time_nonneg:
  assumes "\<forall>t \<in> set ts. 0 \<le> t"
  shows "0 \<le> start_time ts"
proof (cases "filter (\<lambda>t. t \<noteq> 0) ts")
  case (Cons t r)
  then have "t \<in> set ts" using filter_is_subset [of "\<lambda>t. t \<noteq> 0" ts] by auto
  then show ?thesis using assms Cons by (simp add: start_time_def)
qed (simp add: start_time_def)

definition frames_from :: "bool \<Rightarrow> bool \<Rightarrow> int \<Rightarrow> fields list \<Rightarrow> pulled list" where
  "frames_from pubAudio pubVideo start xs =
     concat (map (\<lambda>(type, ts, body). frame_of pubAudio pubVideo (word_of_int (max 0 (ts - start))) type body) xs)"

definition times :: "fields list \<Rightarrow> int list" where
  "times xs = map (\<lambda>(type, ts, body). ts) xs"

lemma times_simps [simp]: "times [] = []" "times ((type, ts, body) # xs) = ts # times xs"
  by (simp_all add: times_def)

lemma word_zero_iff: "0 \<le> t \<Longrightarrow> t < 2 ^ 32 \<Longrightarrow> (word_of_int t :: 32 word) = 0 \<longleftrightarrow> t = 0"
  by (simp add: word_of_int_eq_0_iff zdvd_not_zless dvd_imp_le) (auto dest: zdvd_imp_le)

lemma go_frames_started:
  "(word_of_int s :: 32 word) \<noteq> 0 \<Longrightarrow> \<forall>t \<in> set (times xs). s \<le> t \<Longrightarrow>
   go_frames pubAudio pubVideo (word_of_int s) xs = frames_from pubAudio pubVideo s xs"
  by (induction xs) (auto simp: frames_from_def Let_def)

lemma go_frames_sorted:
  "sorted (times xs) \<Longrightarrow> \<forall>t \<in> set (times xs). 0 \<le> t \<and> t < 2 ^ 32 \<Longrightarrow>
   go_frames pubAudio pubVideo 0 xs = frames_from pubAudio pubVideo (start_time (times xs)) xs"
proof (induction xs)
  case Nil
  then show ?case by (simp add: frames_from_def)
next
  case (Cons x xs)
  obtain type ts body where x: "x = (type, ts, body)" by (metis prod_cases3)
  have b: "0 \<le> ts" "ts < 2 ^ 32" "\<forall>t \<in> set (times xs). ts \<le> t" "sorted (times xs)" using Cons.prems by (auto simp: x)
  show ?case
  proof (cases "ts = 0")
    case True
    have "0 \<le> start_time (times xs)"
      using b(3) True by (intro start_time_nonneg) simp
    then show ?thesis using Cons True b by (simp add: x Let_def frames_from_def start_time_def)
  next
    case False
    then have nz: "(word_of_int ts :: 32 word) \<noteq> 0" using word_zero_iff b by simp
    show ?thesis using go_frames_started [OF nz b(3)] False nz by (simp add: x Let_def frames_from_def start_time_def)
  qed
qed

lemma unat_of_int32: "0 \<le> v \<Longrightarrow> v < 2 ^ 32 \<Longrightarrow> unat (word_of_int v :: 32 word) = nat v"
  by (simp add: uint_word_of_int flip: nat_uint_eq)

lemma frames_in_order:
  assumes "sorted (times xs)" and "\<forall>t \<in> set (times xs). t < 2 ^ 32" and "0 \<le> start"
  shows "sorted (map (\<lambda>f. unat (avTime f)) (frames_from pubAudio pubVideo start xs))"
  using assms(1,2)
proof (induction xs)
  case Nil
  then show ?case by (simp add: frames_from_def)
next
  case (Cons x xs)
  obtain type ts body where x: "x = (type, ts, body)" by (metis prod_cases3)
  have u: "unat (word_of_int (max 0 (t - start)) :: 32 word) = nat (max 0 (t - start))" if "t < 2 ^ 32" for t
    using that assms(3) by (intro unat_of_int32) auto
  have in_rest: "\<exists>t \<in> set (times xs). avTime f = word_of_int (max 0 (t - start))" if "f \<in> set (frames_from pubAudio pubVideo start xs)" for f
  proof -
    obtain type' t body' where y: "(type', t, body') \<in> set xs" "f \<in> set (frame_of pubAudio pubVideo (word_of_int (max 0 (t - start))) type' body')"
      using \<open>f \<in> _\<close> by (auto simp: frames_from_def)
    then show ?thesis by (cases type') (force simp: times_def split: if_splits)+
  qed
  have "unat (word_of_int (max 0 (ts - start)) :: 32 word) \<le> unat (avTime f)" if f: "f \<in> set (frames_from pubAudio pubVideo start xs)" for f
    using in_rest [OF f] u Cons.prems by (fastforce simp: x)
  then show ?case
    using Cons by (cases type) (auto simp: x frames_from_def)
qed

subsection \<open>Any input\<close>

lemma take_bytes_ok: "take_bytes n bs = Some (x, r) \<Longrightarrow> length bs = n + length r \<and> length x = n"
  by (auto simp: take_bytes_def split: if_splits)

lemma ReadBE32_ok: "ReadBE32 n bs = Some (x, r) \<Longrightarrow> length bs = n + length r"
  by (induction n bs arbitrary: x r rule: ReadBE32.induct) (auto simp: bind_eq_Some_conv)

lemma read_tag_head_ok: "read_tag_head bs = Some (t, ds, ts, r) \<Longrightarrow> length bs = 11 + length r"
  by (auto simp: read_tag_head_def bind_eq_Some_conv split: list.splits dest!: ReadBE32_ok take_bytes_ok)

definition pulled_size :: "pulled list \<Rightarrow> nat" where
  "pulled_size fs = sum_list (map (\<lambda>f. 11 + length (avData f)) fs)"

lemma pull_tags_any:
  "pulled_size (fst (pull_tags sink same pubAudio pubVideo n startTs bs)) \<le> length bs \<and>
   (length bs < n \<longrightarrow> snd (pull_tags sink same pubAudio pubVideo n startTs bs) \<noteq> TaskStopped)"
proof (induction n arbitrary: startTs bs)
  case 0
  then show ?case by (simp add: pulled_size_def)
next
  case (Suc n)
  show ?case
  proof (cases "read_tag_head bs")
    case None
    then show ?thesis by (simp add: pulled_size_def)
  next
    case (Some h)
    obtain t ds ts r where h: "h = (t, ds, ts, r)" by (metis prod_cases4)
    have l: "length bs = 11 + length r" using read_tag_head_ok Some h by blast
    have IH: "pulled_size (fst (pull_tags sink same pubAudio pubVideo n s r')) \<le> length r'"
      "length r' < n \<Longrightarrow> snd (pull_tags sink same pubAudio pubVideo n s r') \<noteq> TaskStopped" for s r'
      using Suc.IH by blast+
    let ?s = "if startTs = 0 then ts else startTs"
    define next_tag where "next_tag r' = (case take_bytes 4 r' of None \<Rightarrow> ([], EndOfStream)
      | Some (_, r) \<Rightarrow> pull_tags sink same pubAudio pubVideo n ?s r)" for r'
    have nt: "pulled_size (fst (next_tag r')) \<le> length r' \<and> (length r' < n \<longrightarrow> snd (next_tag r') \<noteq> TaskStopped)" for r'
    proof (cases "take_bytes 4 r'")
      case (Some y)
      then obtain x r2 where y: "take_bytes 4 r' = Some (x, r2)" by (cases y) auto
      then show ?thesis using IH [where s = ?s and r' = r2] take_bytes_ok [OF y] by (auto simp: next_tag_def simp del: pull_tags.simps)
    qed (simp add: next_tag_def pulled_size_def)
    define frame where "frame k = (case take_bytes ds r of None \<Rightarrow> ([], EndOfStream)
      | Some (body, r) \<Rightarrow> let f = \<lparr>avKind = k, avTime = ts - ?s, avData = body\<rparr>
          in case sink f of Some e \<Rightarrow> ([f], PublisherError e) | None \<Rightarrow> let (fs, e) = next_tag r in (f # fs, e))" for k
    have fr: "pulled_size (fst (frame k)) \<le> length bs \<and> (length r < n \<longrightarrow> snd (frame k) \<noteq> TaskStopped)" for k
      using nt l by (auto simp: frame_def pulled_size_def Let_def split_beta dest!: take_bytes_ok split: option.split intro: order_trans)
    have e: "pull_tags sink same pubAudio pubVideo (Suc n) startTs bs =
      (if t = 8 then (if pubAudio then frame AudioFrame else next_tag (drop ds r))
       else if t = 9 then (if pubVideo then frame VideoFrame else next_tag (drop ds r))
       else if t = 18 then
         (case take_bytes ds r of None \<Rightarrow> ([], EndOfStream)
          | Some (amf, r) \<Rightarrow> (case read_metadata same amf of Some e \<Rightarrow> ([], ScriptError e) | None \<Rightarrow> next_tag r))
       else next_tag r)"
      unfolding pull_tags.simps Some h Let_def frame_def next_tag_def by simp
    have d: "pulled_size (fst (next_tag (drop ds r))) \<le> length bs" "pulled_size (fst (next_tag r)) \<le> length bs"
      "length r < n \<Longrightarrow> snd (next_tag (drop ds r)) \<noteq> TaskStopped" "length r < n \<Longrightarrow> snd (next_tag r) \<noteq> TaskStopped"
      using nt [of "drop ds r"] nt [of r] l by auto
    have sc: "take_bytes ds r = Some (amf, r') \<Longrightarrow> pulled_size (fst (next_tag r')) \<le> length bs \<and> (length r < n \<longrightarrow> snd (next_tag r') \<noteq> TaskStopped)" for amf r'
      using nt [of r'] l by (auto dest!: take_bytes_ok)
    show ?thesis
      unfolding e using fr d sc l by (auto simp: pulled_size_def split: option.split)
  qed
qed

text \<open>
  C29. The reader ends and is bounded on every input. Whatever bytes arrive, if the task is not stopped before
  it has read as many tags as there are bytes, the loop ends by itself, and the frames it has handed
  to the publisher, with eleven bytes of header each, are no more than the bytes that arrived.
\<close>

theorem reader_is_bounded:
  "snd (pull sink same pubAudio pubVideo (Suc (length bs) + n) bs) \<noteq> TaskStopped \<and>
   sum_list (map (\<lambda>f. 11 + length (avData f)) (fst (pull sink same pubAudio pubVideo k bs))) \<le> length bs"
proof -
  have t: "snd (pull_tags sink same a v (Suc (length bs) + n) 0 r) \<noteq> TaskStopped"
    "pulled_size (fst (pull_tags sink same a v k 0 r)) \<le> length bs" if "take_bytes 13 bs = Some (x, r)" for x r a v
  proof -
    have r: "length bs = 13 + length r" using take_bytes_ok [OF that] by simp
    show "snd (pull_tags sink same a v (Suc (length bs) + n) 0 r) \<noteq> TaskStopped"
      using pull_tags_any [of sink same a v "Suc (length bs) + n" 0 r] r by (simp del: pull_tags.simps)
    show "pulled_size (fst (pull_tags sink same a v k 0 r)) \<le> length bs"
      using pull_tags_any [of sink same a v k 0 r] r by simp
  qed
  show ?thesis unfolding pulled_size_def [symmetric]
    using t by (auto simp: pull_def Let_def pulled_size_def [of "[]"] simp del: pull_tags.simps split: option.split)
qed

text \<open>
  C37. The first interval of a stream is lost. The reader takes 0 for a start that it does not know yet:
  a stream that begins at 0, as the recorder's does, starts for it at the next time \<open>d\<close>, so that the frame at \<open>d\<close> has
  the time 0 again and every later frame is early by \<open>d\<close>.
\<close>

theorem first_interval_is_lost:
  assumes "list_all (tag_fits same) (zs @ (type, d, body) # xs)" and "\<And>f. sink f = None" and "length (zs @ (type, d, body) # xs) < n"
    and "list_all (\<lambda>(_, t, _). t = 0) zs" and "0 < d" and "d < 2 ^ 32" and "list_all (\<lambda>(_, t, _). d \<le> t) xs"
  shows "pull sink same True True n (flv_header_bytes True True @ concat (map tag_bytes (zs @ (type, d, body) # xs)))
    = (frames_from True True 0 zs @ frame_of True True 0 type body @ frames_from True True d xs, EndOfStream)"
proof -
  have nz: "(word_of_int d :: 32 word) \<noteq> 0" using assms(5,6) word_zero_iff [of d] by simp
  have "go_frames True True 0 (zs @ (type, d, body) # xs) = frames_from True True 0 zs @ go_frames True True 0 ((type, d, body) # xs)"
    using assms(4) by (induction zs) (auto simp: frames_from_def Let_def)
  moreover have "go_frames True True (word_of_int d) xs = frames_from True True d xs"
    using assms(7) by (intro go_frames_started nz) (auto simp: times_def list_all_iff)
  ultimately show ?thesis using pull_file [OF assms(1-3), where pubAudio = True and pubVideo = True and hasAudio = True and hasVideo = True] nz by (simp add: Let_def)
qed

theorem first_interval_is_lost_witness:
  "map (\<lambda>f. avTime f) (fst (pull (\<lambda>_. None) True True True 4
      (flv_header_bytes True True @ concat (map tag_bytes [(VIDEO, 0, [1]), (VIDEO, 40, [2]), (VIDEO, 80, [3])])))) = [0, 0, 40]"
  using first_interval_is_lost [of True "[(VIDEO, 0, [1])]" VIDEO 40 "[2]" "[(VIDEO, 80, [3])]" "\<lambda>_. None" 4]
  by (simp add: tag_fits_def frames_from_def)

lemma read_header_as_tag:
  "read_tag_head (flv_header_bytes hasVideo hasAudio @ r)
    = Some (0x46, 0x4C5601, push_bit 16 ((if hasAudio then 4 else 0) + (if hasVideo then 1 else 0)), 0 # 0 # r)"
proof -
  have z: "be_bytes 4 9 = [0, 0, 0, 9]" "be_bytes 4 0 = [0, 0, 0, 0]" by (simp_all add: numeral_eq_Suc)
  have r3: "ReadBE32 3 (a # b # c # s) = Some (push_bit 16 (ucast a) + (push_bit 8 (ucast b) + ucast c), s)" for a b c s
    by (simp add: numeral_3_eq_3)
  have t: "take_bytes (Suc 0) (x # s) = Some ([x], s)" "take_bytes 3 (x # y # z # s) = Some ([x, y, z], s)" for x y z s
    by (simp_all add: take_bytes_def)
  show ?thesis
    unfolding read_tag_head_def flv_header_bytes_def z
    by (cases hasVideo; cases hasAudio) (simp_all add: r3 t)
qed

text \<open>
  C36. A second recording on the same connection is misread. The recorder writes a new header when it is
  started again; the server, in the middle of its loop, takes it for a tag of an unknown type,
  whose body it does not skip, and goes on inside the metadata tag, as if its size field were the beginning of a tag.
\<close>

theorem second_recording_is_misread:
  assumes "list_all (tag_fits same) xs" and "\<And>f. sink f = None"
    and "start = fold (\<lambda>(_, ts, _) s. if s = 0 then word_of_int ts else s) xs 0"
    and "start2 = (if start = 0 then push_bit 16 ((if hasAudio then 4 else 0) + (if hasVideo then 1 else 0)) else start)"
  shows "pull sink same pubAudio pubVideo (length xs + Suc n)
      ((flv_header_bytes hasVideo hasAudio @ concat (map tag_bytes xs)) @ (flv_header_bytes hasVideo hasAudio @ flv_tag_bytes SCRIPT 0 body @ r))
    = (let (fs, e) = pull_tags sink same (pubAudio \<and> hasAudio) (pubVideo \<and> hasVideo) n start2
             (be_bytes 2 (int (length body)) @ replicate 7 0 @ body @ be_bytes 4 (11 + int (length body)) @ r)
       in (go_frames (pubAudio \<and> hasAudio) (pubVideo \<and> hasVideo) 0 xs @ fs, e))"
proof -
  let ?a = "pubAudio \<and> hasAudio" and ?v = "pubVideo \<and> hasVideo" and ?L = "int (length body)"
  let ?r = "be_bytes 2 ?L @ replicate 7 0 @ body @ be_bytes 4 (11 + ?L) @ r"
  have "be_bytes 3 ?L = word_of_int (?L div 2 ^ 16) # be_bytes 2 ?L"
    by (simp add: numeral_3_eq_3 numeral_2_eq_2 zdiv_zmult2_eq [symmetric])
  moreover have "be_bytes 3 0 = [0, 0, 0]" "replicate 7 (0 :: byte) = [0, 0, 0, 0, 0, 0, 0]" by (simp_all add: numeral_eq_Suc)
  ultimately have b: "flv_tag_bytes SCRIPT 0 body @ r = 18 # word_of_int (?L div 2 ^ 16) # ?r"
    by (simp add: flv_tag_bytes_def)
  have t: "take_bytes 4 (0 # 0 # 18 # x # s) = Some ([0, 0, 18, x], s)" for x :: byte and s by (simp add: take_bytes_def)
  have "pull_tags sink same ?a ?v (Suc n) start (flv_header_bytes hasVideo hasAudio @ flv_tag_bytes SCRIPT 0 body @ r)
    = pull_tags sink same ?a ?v n start2 ?r"
    unfolding pull_tags.simps read_header_as_tag option.case prod.case Let_def b t assms(4) by simp
  moreover have h: "take_bytes 13 (flv_header_bytes hasVideo hasAudio @ r) = Some (flv_header_bytes hasVideo hasAudio, r)" for r
    by (rule take_bytes_append) (simp add: flv_header_bytes_def)
  moreover note header_flags
  ultimately show ?thesis
    using pull_tags_bytes [OF assms(1,2), where pubAudio = ?a and pubVideo = ?v and n = "Suc n" and startTs = 0
        and r = "flv_header_bytes hasVideo hasAudio @ flv_tag_bytes SCRIPT 0 body @ r"]
    by (simp add: pull_def assms(3) del: pull_tags.simps)
qed

text \<open>Two recordings of one frame each: of the second nothing arrives.\<close>

definition demo_meta :: bytes where
  "demo_meta = amf_bytes (JString (js_of_ascii ''onMetaData'')) @ amf_bytes (JObject [(js_of_ascii ''duration'', JNumber 0)])"

lemma demo_texts:
  "text_encode (js_of_ascii ''duration'') = [100, 117, 114, 97, 116, 105, 111, 110]"
  "text_encode (js_of_ascii ''onMetaData'') = [111, 110, 77, 101, 116, 97, 68, 97, 116, 97]"
  by (subst text_encode_ascii; auto simp: js_of_ascii_def)+

lemma demo_meta_bytes:
  "demo_meta = [2, 0, 10, 111, 110, 77, 101, 116, 97, 68, 97, 116, 97, 8, 0, 0, 0, 1, 0, 8, 100, 117, 114, 97, 116, 105, 111, 110,
     0, 0, 0, 0, 0, 0, 0, 0, 0, 0, 0, 9]"
proof -
  have "be_bytes 2 10 = [0, 10]" "be_bytes 2 8 = [0, 8]" "be_bytes 4 1 = [0, 0, 0, 1]" "be_bytes 8 0 = [0, 0, 0, 0, 0, 0, 0, 0]"
    by (simp_all add: numeral_eq_Suc)
  then show ?thesis by (simp add: demo_meta_def amf_text_def demo_texts length_js_of_ascii)
qed

lemma demo_meta_reads: "read_metadata same demo_meta = None"
proof -
  have f: "amf_fits (JString (js_of_ascii ''onMetaData''))" "amf_fits (JObject [(js_of_ascii ''duration'', JNumber 0)])"
    "clear_ends (JObject [(js_of_ascii ''duration'', JNumber 0)])" "clear_ends (JString (js_of_ascii ''onMetaData''))"
    by (simp_all add: short_text_def demo_texts length_js_of_ascii)
  show ?thesis
    using Unmarshal_bytes [OF f(1,4), of same "amf_bytes (JObject [(js_of_ascii ''duration'', JNumber 0)])"]
      Unmarshal_bytes [OF f(2,3), of same "[]"]
    by (simp add: read_metadata_def demo_meta_def del: amf_bytes.simps)
qed

lemma pull_tags_unknown:
  "t \<noteq> 8 \<Longrightarrow> t \<noteq> 9 \<Longrightarrow> t \<noteq> 18 \<Longrightarrow>
   pull_tags sink same a v (Suc n) s (t # b1 # b2 # b3 # b4 # b5 # b6 # b7 # b8 # b9 # b10 # p1 # p2 # p3 # p4 # r)
    = pull_tags sink same a v n
        (if s = 0 then (push_bit 16 (ucast b4) + (push_bit 8 (ucast b5) + ucast b6)) OR push_bit 24 (ucast b7) else s) r"
  by (simp add: read_tag_head_def numeral_3_eq_3 take_bytes_def Let_def)

theorem second_recording_is_misread_witness:
  "let file = flv_header_bytes False True @ concat (map tag_bytes [(SCRIPT, 0, demo_meta), (AUDIO, 0, [175, 1, 33])])
   in pull (\<lambda>_. None) True True True 40 (file @ file) = ([\<lparr>avKind = AudioFrame, avTime = 0, avData = [175, 1, 33]\<rparr>], EndOfStream)"
proof -
  let ?xs = "[(SCRIPT, 0, demo_meta), (AUDIO, 0, [175, 1, 33])]" and ?f = "(AUDIO, 0, [175, 1, 33]) :: fields"
  have fits: "list_all (tag_fits True) ?xs" by (simp add: tag_fits_def demo_meta_reads) (simp add: demo_meta_bytes)
  have b: "be_bytes 2 40 = [0, 40]" "be_bytes 4 51 = [0, 0, 0, 51]" "replicate 7 (0 :: byte) = [0, 0, 0, 0, 0, 0, 0]"
    "tag_bytes ?f = [8, 0, 0, 3, 0, 0, 0, 0, 0, 0, 0, 175, 1, 33, 0, 0, 0, 14]"
    by (simp_all add: numeral_eq_Suc tag_bytes_def flv_tag_bytes_def)
  have e: "pull_tags (\<lambda>_. None) True a v (Suc (Suc (Suc (Suc (Suc n))))) s
      (be_bytes 2 (int (length demo_meta)) @ replicate 7 0 @ demo_meta @ be_bytes 4 (11 + int (length demo_meta)) @ tag_bytes ?f)
    = ([], EndOfStream)" for a v n s
  proof -
    have "pull_tags (\<lambda>_. None) True a v (Suc n) s [0, 0, 0, 0, 175, 1, 33, 0, 0, 0, 14] = ([], EndOfStream)" for s n
      by (simp add: read_tag_head_def numeral_3_eq_3 take_bytes_def)
    then show ?thesis unfolding demo_meta_bytes by (simp add: b pull_tags_unknown del: pull_tags.simps)
  qed
  have n: "(37 :: nat) = Suc (Suc (Suc (Suc (Suc 32))))" by simp
  have t: "tag_bytes (SCRIPT, 0, demo_meta) = flv_tag_bytes SCRIPT 0 demo_meta" by (simp add: tag_bytes_def)
  show ?thesis
    using second_recording_is_misread [OF fits, where sink = "\<lambda>_. None" and pubAudio = True and pubVideo = True
        and hasAudio = True and hasVideo = False and n = 37 and r = "tag_bytes ?f", OF _ refl refl] e [of _ _ 32, folded n]
    by (simp add: t Let_def)
qed

end
