(* ===== verification/Recording_Server.thy ===== *)
theory Recording_Server
  imports Recording_Calls Flv_Server
begin

section \<open>What the server makes of a recording\<close>

text \<open>
  The bytes that the recorder has written since its start, read by the server's \<open>Puller\<close>: the metadata are
  decoded, and every chunk becomes a frame with the body of its tag.
\<close>

definition chunk_fields :: "chunk \<Rightarrow> fields" where
  "chunk_fields c = (chunk_tag_type c, js_trunc (chunk_time c), chunk_body c)"

definition script_fields :: "mux_options \<Rightarrow> fields" where
  "script_fields opts = (SCRIPT, 0, amf_bytes (JString (js_of_ascii ''onMetaData'')) @ amf_bytes (JObject (metadata_of opts)))"

lemma recording_bytes: "tag_bytes (chunk_fields c) = chunk_bytes c" "tag_bytes (script_fields opts) = script_bytes opts"
  by (simp_all add: tag_bytes_def chunk_fields_def chunk_bytes_def script_fields_def script_bytes_def del: amf_bytes.simps)

lemma chunk_fits:
  assumes "length (chunkData c) + 5 < 2 ^ 24"
  shows "tag_fits same (chunk_fields c)"
  using assms length_chunk_body [of c]
  by (auto simp: tag_fits_def chunk_fields_def chunk_tag_type_def split: chunk_type.split)

lemma script_fits:
  assumes "metadata_fits opts" and "clear_ends (JObject (metadata_of opts))"
  shows "tag_fits same (script_fields opts)"
proof -
  let ?v = "JObject (metadata_of opts)" and ?n = "JString (js_of_ascii ''onMetaData'')"
  have n: "length (amf_bytes ?n) = 13" "amf_fits ?n" "clear_ends ?n"
    using ascii_text(2) by (auto simp: amf_text_def short_text_def length_js_of_ascii)
  have len: "length (amf_bytes ?n @ amf_bytes ?v) < 2 ^ 24"
    using assms(1) n(1) by (simp add: metadata_fits_def del: amf_bytes.simps)
  have "amf_fits ?v" using assms(1) by (simp add: metadata_fits_def)
  then have "read_metadata same (amf_bytes ?n @ amf_bytes ?v) = None"
    using Unmarshal_bytes [OF n(2,3), of same "amf_bytes ?v"] Unmarshal_bytes [OF _ assms(2), of same "[]"]
    unfolding read_metadata_def by (simp del: amf_bytes.simps go_of.simps)
  then show ?thesis using len unfolding tag_fits_def script_fields_def by (simp del: amf_bytes.simps)
qed

lemma server_pulls:
  assumes written: "written_out v = (written_out w @ [Some (flv_header_bytes (videoOption (options w) \<noteq> None) (audioOption (options w) \<noteq> None)),
      Some (script_bytes (options w))]) @ map (Some \<circ> chunk_bytes) pub"
    and "metadata_fits (options w)" and "clear_ends (JObject (metadata_of (options w)))"
    and "\<forall>c \<in> set pub. length (chunkData c) + 5 < 2 ^ 24"
    and "\<And>f. sink f = None" and "length pub + 1 < n"
    and "sorted (map (js_trunc \<circ> chunk_time) pub)" and "\<forall>c \<in> set pub. 0 \<le> js_trunc (chunk_time c) \<and> js_trunc (chunk_time c) < 2 ^ 32"
  shows "pull sink same pubAudio pubVideo n (concat (map the (drop (length (written_out w)) (written_out v))))
    = (frames_from (pubAudio \<and> audioOption (options w) \<noteq> None) (pubVideo \<and> videoOption (options w) \<noteq> None)
         (start_time (map (js_trunc \<circ> chunk_time) pub)) (map chunk_fields pub), EndOfStream)"
proof -
  let ?xs = "script_fields (options w) # map chunk_fields pub"
  let ?v = "videoOption (options w) \<noteq> None" and ?a = "audioOption (options w) \<noteq> None"
  have t: "times (map chunk_fields pub) = map (js_trunc \<circ> chunk_time) pub" by (simp add: times_def chunk_fields_def comp_def)
  have b: "concat (map the (drop (length (written_out w)) (written_out v))) = flv_header_bytes ?v ?a @ concat (map tag_bytes ?xs)"
    using written by (simp add: recording_bytes comp_def)
  have fits: "list_all (tag_fits same) ?xs"
    using script_fits [OF assms(2,3)] chunk_fits assms(4) by (simp add: list_all_iff)
  have "go_frames a b 0 ?xs = frames_from a b (start_time (map (js_trunc \<circ> chunk_time) pub)) (map chunk_fields pub)" for a b
    using go_frames_sorted [of "map chunk_fields pub" a b] assms(7,8) by (simp add: t script_fields_def)
  then show ?thesis unfolding b using pull_file [OF fits assms(5)] assms(6) by simp
qed

end
