(* ===== verification/Flame_Graph.thy ===== *)
theory Flame_Graph
  imports Prelude
begin

section \<open>The flame graph viewer\<close>

text \<open>
  The function \<open>stackViewer\<close> of \<open>plugin/debug/pkg/internal/driver/html/stacks.js\<close>: grouping of
  stack slots, layout of the boxes, pivots and drawing; the handlers and the page state are in
  \<open>Stack_Viewer\<close>. The stacks come from the server (\<open>report.StackSet\<close>); a property that needs
  their indices to be valid says so. Profile values are integers and pixel coordinates exact rationals: the rounding of
  JavaScript's arithmetic on fractions of a pixel is not modelled. A place is a slot of a
  stack; \<open>direction\<close> is \<open>+1\<close> (callees, drawn downwards) or \<open>-1\<close> (callers).
\<close>

subsection \<open>Data\<close>

record place =
  pStack :: nat
  pPos :: nat

record stack =
  stValue :: int
  stSources :: "nat list"

record source_info =
  FullName :: string
  FileName :: string
  UniqueName :: string
  Inlined :: bool
  Display :: "string list"
  Places :: "place list"

record stack_set =
  Total :: int
  Scale :: rat
  Unit :: string
  Stacks :: "stack list"
  Sources :: "source_info list"

record group =
  gname :: string
  gsrc :: nat
  gself :: int
  sumpos :: int
  sumneg :: int
  gplaces :: "place list"

record box =
  bx :: rat
  byy :: rat
  bwidth :: rat
  bsrc :: nat
  bpos :: int
  bneg :: int
  bself :: int

definition ROW :: rat where "ROW = 20"
definition PADDING :: rat where "PADDING = 2"
definition MIN_WIDTH :: rat where "MIN_WIDTH = 4"
definition MIN_TEXT_WIDTH :: rat where "MIN_TEXT_WIDTH = 16"
definition TEXT_MARGIN :: rat where "TEXT_MARGIN = 2"
definition FONT_SIZE :: rat where "FONT_SIZE = 12"
definition MIN_FONT_SIZE :: rat where "MIN_FONT_SIZE = 8"

definition stack_at :: "stack_set \<Rightarrow> place \<Rightarrow> stack" where
  "stack_at ss p = Stacks ss ! pStack p"

definition is_diff :: "stack_set \<Rightarrow> bool" where
  "is_diff ss \<longleftrightarrow> (\<exists>st \<in> set (Stacks ss). stValue st < 0)"

subsection \<open>Totals\<close>

fun totalValue_from :: "stack_set \<Rightarrow> nat set \<Rightarrow> int \<Rightarrow> int \<Rightarrow> place list \<Rightarrow> int \<times> int" where
  "totalValue_from ss seen pos neg [] = (pos, neg)"
| "totalValue_from ss seen pos neg (p # ps) =
     (if pStack p \<in> seen then totalValue_from ss seen pos neg ps
      else let v = stValue (stack_at ss p)
           in if v < 0 then totalValue_from ss (insert (pStack p) seen) pos (neg + - v) ps
              else totalValue_from ss (insert (pStack p) seen) (pos + v) neg ps)"

definition totalValue :: "stack_set \<Rightarrow> place list \<Rightarrow> int \<times> int" where
  "totalValue ss ps = totalValue_from ss {} 0 0 ps"

subsection \<open>Grouping\<close>

text \<open>
  The outer-most slot per stack. The test \<open>prevSlot && prevSlot <= place.Pos\<close> takes a recorded
  slot 0 for no slot.
\<close>

fun outer_slots :: "(nat \<Rightarrow> nat option) \<Rightarrow> place list \<Rightarrow> nat \<Rightarrow> nat option" where
  "outer_slots m [] = m"
| "outer_slots m (p # ps) =
     (case m (pStack p) of
        Some prev \<Rightarrow> if prev \<noteq> 0 \<and> prev \<le> pPos p then outer_slots m ps
                     else outer_slots (m(pStack p \<mapsto> pPos p)) ps
      | None \<Rightarrow> outer_slots (m(pStack p \<mapsto> pPos p)) ps)"

definition add_to_group :: "stack_set \<Rightarrow> place \<Rightarrow> group \<Rightarrow> group" where
  "add_to_group ss p g =
     (let st = stack_at ss p; v = stValue st;
          g = (if v < 0 then g\<lparr>sumneg := sumneg g + - v\<rparr> else g\<lparr>sumpos := sumpos g + v\<rparr>);
          g = g\<lparr>gself := gself g + (if int (pPos p) = int (length (stSources st)) - 1 then v else 0)\<rparr>
      in g\<lparr>gplaces := gplaces g @ [p]\<rparr>)"

definition new_group :: "stack_set \<Rightarrow> nat \<Rightarrow> group" where
  "new_group ss src = \<lparr>gname = FullName (Sources ss ! src), gsrc = src, gself = 0, sumpos = 0, sumneg = 0,
                       gplaces = []\<rparr>"

text \<open>\<open>groupMap\<close> finds the group of a source; \<open>groups\<close> keeps them in order of creation.\<close>

fun insert_place :: "stack_set \<Rightarrow> nat \<Rightarrow> place \<Rightarrow> group list \<Rightarrow> group list" where
  "insert_place ss src p [] = [add_to_group ss p (new_group ss src)]"
| "insert_place ss src p (g # gs) =
     (if gsrc g = src then add_to_group ss p g # gs else g # insert_place ss src p gs)"

definition place_src :: "stack_set \<Rightarrow> place \<Rightarrow> nat" where
  "place_src ss p = stSources (stack_at ss p) ! pPos p"

definition kept_places :: "place list \<Rightarrow> place list" where
  "kept_places ps = filter (\<lambda>p. outer_slots Map.empty ps (pStack p) = Some (pPos p)) ps"

definition cost :: "group \<Rightarrow> int" where
  "cost g = sumpos g + sumneg g"

definition partitionPlaces :: "stack_set \<Rightarrow> place list \<Rightarrow> group list" where
  "partitionPlaces ss ps =
     sort_key (\<lambda>g. - cost g) (foldl (\<lambda>gs p. insert_place ss (place_src ss p) p gs) [] (kept_places ps))"

subsection \<open>Layout\<close>

definition groupWidth :: "rat \<Rightarrow> group \<Rightarrow> rat" where
  "groupWidth xscale g = xscale * of_int (sumpos g + sumneg g)"

definition next_places :: "stack_set \<Rightarrow> bool \<Rightarrow> place list \<Rightarrow> place list" where
  "next_places ss down ps =
     List.map_filter (\<lambda>p.
       let nextSlot = int (pPos p) + (if down then 1 else - 1)
       in if 0 \<le> nextSlot \<and> nextSlot < int (length (stSources (stack_at ss p)))
          then Some \<lparr>pStack = pStack p, pPos = nat nextSlot\<rparr> else None) ps"

definition group_box :: "rat \<Rightarrow> rat \<Rightarrow> rat \<Rightarrow> group \<Rightarrow> box" where
  "group_box xscale x y g =
     \<lparr>bx = x, byy = y, bwidth = groupWidth xscale g, bsrc = gsrc g, bpos = sumpos g, bneg = sumneg g,
      bself = gself g\<rparr>"

definition room :: "stack_set \<Rightarrow> bool \<Rightarrow> place \<Rightarrow> nat" where
  "room ss down p = (if down then length (stSources (stack_at ss p)) - pPos p else Suc (pPos p))"

definition rooms :: "stack_set \<Rightarrow> bool \<Rightarrow> place list \<Rightarrow> nat" where
  "rooms ss down ps = foldr (\<lambda>p n. max (room ss down p) n) ps 0"

lemma rooms_le: "rooms ss down ps \<le> n \<longleftrightarrow> (\<forall>p \<in> set ps. room ss down p \<le> n)"
  by (induction ps) (auto simp: rooms_def)

lemma rooms_mono: "set ps \<subseteq> set qs \<Longrightarrow> rooms ss down ps \<le> rooms ss down qs"
  unfolding rooms_le using rooms_le [of ss down qs] by blast

lemma next_places_set:
  "q \<in> set (next_places ss down ps) \<Longrightarrow>
   \<exists>p \<in> set ps. pStack q = pStack p \<and> int (pPos q) = int (pPos p) + (if down then 1 else - 1) \<and>
     pPos q < length (stSources (stack_at ss p))"
  by (auto simp: next_places_def List.map_filter_def Let_def split: if_splits)

lemma rooms_next:
  assumes "next_places ss down ps \<noteq> []"
  shows "rooms ss down (next_places ss down ps) < rooms ss down ps"
proof -
  have r: "Suc (room ss down q) \<le> rooms ss down ps" if q: "q \<in> set (next_places ss down ps)" for q
  proof -
    obtain p where p: "p \<in> set ps" "pStack q = pStack p" "int (pPos q) = int (pPos p) + (if down then 1 else - 1)"
      "pPos q < length (stSources (stack_at ss p))"
      using next_places_set [OF q] by blast
    have "Suc (room ss down q) \<le> room ss down p"
      using p(2-) by (cases down) (auto simp: room_def stack_at_def)
    also have "\<dots> \<le> rooms ss down ps" using p(1) rooms_le by blast
    finally show ?thesis .
  qed
  obtain q where q: "q \<in> set (next_places ss down ps)" using assms by (meson last_in_set)
  have "rooms ss down (next_places ss down ps) \<le> rooms ss down ps - 1"
    unfolding rooms_le using r by fastforce
  moreover have "0 < rooms ss down ps" using r [OF q] by simp
  ultimately show ?thesis by linarith
qed

lemma add_to_group_places [simp]:
  "gplaces (add_to_group ss p g) = gplaces g @ [p]" "gsrc (add_to_group ss p g) = gsrc g"
  by (simp_all add: add_to_group_def Let_def)

lemma insert_place_places:
  "set (concat (map gplaces (insert_place ss src p gs))) = insert p (set (concat (map gplaces gs)))"
  by (induction gs) (auto simp: new_group_def)

lemma partition_places:
  "set (concat (map gplaces (partitionPlaces ss ps))) = set (kept_places ps)"
proof -
  have "set (concat (map gplaces (foldl (\<lambda>gs p. insert_place ss (place_src ss p) p gs) gs0 qs)))
      = set (concat (map gplaces gs0)) \<union> set qs" for gs0 qs
    by (induction qs arbitrary: gs0) (auto simp: insert_place_places simp del: set_concat)
  from this [of "[]" "kept_places ps"] show ?thesis
    by (simp add: partitionPlaces_def)
qed

text \<open>
  \<open>renderStacks\<close> is the loop over the groups of a list of places; \<open>renderGroup\<close> draws one
  group and what is below (or above) it. The result is what is pushed onto \<open>displayList\<close>.
\<close>

function (sequential)
      renderGroups :: "stack_set \<Rightarrow> nat \<Rightarrow> rat \<Rightarrow> rat \<Rightarrow> rat \<Rightarrow> group list \<Rightarrow> bool \<Rightarrow> box list"
  and renderGroup :: "stack_set \<Rightarrow> nat \<Rightarrow> rat \<Rightarrow> rat \<Rightarrow> rat \<Rightarrow> group \<Rightarrow> bool \<Rightarrow> box list"
where
  "renderGroups ss depth xscale x y [] down = []"
| "renderGroups ss depth xscale x y (g # gs) down =
     renderGroup ss depth xscale x y g down
     @ renderGroups ss depth xscale (x + groupWidth xscale g) y gs down"
| "renderGroup ss depth xscale x y g down =
     (if groupWidth xscale g < MIN_WIDTH then []
      else
        let drawn = (if depth \<noteq> 0 \<or> down then [group_box xscale x y g] else []);
            x' = (if (depth \<noteq> 0 \<or> down) \<and> down then x + xscale * \<bar>of_int (gself g)\<bar> else x);
            y' = y + (if down then 1 else - 1) * ROW
        in drawn @ renderGroups ss (depth + 1) xscale x' y'
                     (partitionPlaces ss (next_places ss down (gplaces g))) down)"
  by pat_completeness auto
termination
proof (relation "inv_image (less_than <*lex*> less_than) (\<lambda>q. case q of
      Inl (ss, depth, xscale, x, y, gs, down) \<Rightarrow> (rooms ss down (concat (map gplaces gs)), 2 * length gs)
    | Inr (ss, depth, xscale, x, y, g, down) \<Rightarrow> (rooms ss down (gplaces g), 1))", goal_cases)
  case 1
  show ?case by (intro wf_inv_image wf_lex_prod wf_less_than)
next
  case (2 ss depth xscale x y g gs down)
  have "rooms ss down (gplaces g) \<le> rooms ss down (concat (map gplaces (g # gs)))"
    by (rule rooms_mono) auto
  then show ?case by auto
next
  case (3 ss depth xscale x y g gs down)
  have "rooms ss down (concat (map gplaces gs)) \<le> rooms ss down (concat (map gplaces (g # gs)))"
    by (rule rooms_mono) auto
  then show ?case by auto
next
  case (4 ss depth xscale x y g down drawn x' y')
  let ?next = "next_places ss down (gplaces g)"
  show ?case
  proof (cases "?next = []")
    case True
    then show ?thesis by (auto simp: partitionPlaces_def kept_places_def rooms_def)
  next
    case False
    have "rooms ss down (concat (map gplaces (partitionPlaces ss ?next))) \<le> rooms ss down ?next"
      by (rule rooms_mono) (auto simp del: set_concat simp: partition_places kept_places_def)
    also have "\<dots> < rooms ss down (gplaces g)" by (rule rooms_next [OF False])
    finally show ?thesis by simp
  qed
qed

declare renderGroup.simps [simp del]

definition renderStacks :: "stack_set \<Rightarrow> nat \<Rightarrow> rat \<Rightarrow> rat \<Rightarrow> rat \<Rightarrow> place list \<Rightarrow> bool \<Rightarrow> box list" where
  "renderStacks ss depth xscale x y ps down =
     renderGroups ss depth xscale x y (partitionPlaces ss ps) down"

subsection \<open>Pivots and rendering\<close>

text \<open>
  \<open>compile\<close> stands for the constructor \<open>RegExp\<close>: None if the expression is rejected, else the
  test. \<open>val\<close> is the URL parameter \<open>p\<close>.
\<close>

definition urlPivots :: "stack_set \<Rightarrow> (string \<Rightarrow> (string \<Rightarrow> bool) option) \<Rightarrow> string option \<Rightarrow> nat list" where
  "urlPivots ss compile val =
     (let pivots = (case val of
                      None \<Rightarrow> []
                    | Some v \<Rightarrow>
                        if v = [] then []
                        else (case compile v of
                                None \<Rightarrow> []
                              | Some re \<Rightarrow> filter (\<lambda>i. re (UniqueName (Sources ss ! i)) \<or> re (FileName (Sources ss ! i)))
                                             [0..<length (Sources ss)]))
      in if pivots = [] then [0] else pivots)"

text \<open>
  \<open>render\<close>: the value shown, whether the pivot summary is drawn, and the boxes. When the total
  is 0 the scale is not a finite number and there is no layout (None).
\<close>

definition render_places :: "stack_set \<Rightarrow> nat list \<Rightarrow> place list" where
  "render_places ss pivots = concat (map (\<lambda>i. Places (Sources ss ! i)) pivots)"

definition render_scale :: "stack_set \<Rightarrow> rat \<Rightarrow> nat list \<Rightarrow> rat option" where
  "render_scale ss chartWidth pivots =
     (let (pos, neg) = totalValue ss (render_places ss pivots)
      in if pos + neg = 0 then None else Some ((chartWidth - 2 * PADDING) / of_int (pos + neg)))"

definition render :: "stack_set \<Rightarrow> rat \<Rightarrow> nat list \<Rightarrow> (int \<times> bool \<times> box list) option" where
  "render ss chartWidth pivots =
     (let places = render_places ss pivots;
          (pos, neg) = totalValue ss places;
          showPivotSummary = (\<not> (length pivots = 1 \<and> hd pivots = 0))
      in case render_scale ss chartWidth pivots of
           None \<Rightarrow> None
         | Some xscale \<Rightarrow>
             Some (pos + neg, showPivotSummary,
                   renderStacks ss 0 xscale PADDING 0 places True
                   @ renderStacks ss 0 xscale PADDING (0 - ROW) places False))"

text \<open>
  \<open>display\<close>: the boxes in order of \<open>y\<close>, then \<open>x\<close>, moved so that the first is at the top; where
  the separator goes; the height of the chart. The two stable sorts are the comparator's order.
\<close>

definition display :: "box list \<Rightarrow> box list \<times> rat \<times> rat" where
  "display list =
     (let list = sort_key byy (sort_key bx list);
          adjust = (if list \<noteq> [] then byy (hd list) else 0);
          list = map (\<lambda>b. b\<lparr>byy := byy b - adjust\<rparr>) list;
          h = (if list \<noteq> [] then byy (last list) else 0) + 4 * ROW
      in (list, - adjust - ROW, h))"

record drawn =
  dLeft :: rat
  dTop :: rat
  dWidth :: rat
  dHeight :: rat
  dInlined :: bool
  dIndicator :: "(bool \<times> rat) option" \<comment> \<open>negative?, width\<close>
  dText :: "(string \<times> rat option) option" \<comment> \<open>text, font size if reduced\<close>

text \<open>\<open>textWidth\<close> is the width the canvas gives a text at the normal font size.\<close>

fun first_fit :: "(string \<Rightarrow> rat) \<Rightarrow> rat \<Rightarrow> rat \<Rightarrow> string list \<Rightarrow> string option \<times> rat" where
  "first_fit textWidth avail width [] = (None, width)"
| "first_fit textWidth avail width (t # ts) =
     (let width = textWidth t in if width \<le> avail then (Some t, width) else first_fit textWidth avail width ts)"

text \<open>The entry before the length of an array, as a text: \<open>undefined\<close> if there is none.\<close>

definition last_text :: "string list \<Rightarrow> string" where
  "last_text ts = (if ts = [] then ''undefined'' else last ts)"

definition fitText :: "(string \<Rightarrow> rat) \<Rightarrow> rat \<Rightarrow> string list \<Rightarrow> string \<times> rat option" where
  "fitText textWidth avail textList =
     (case first_fit textWidth avail avail textList of
        (Some t, _) \<Rightarrow> (t, None)
      | (None, width) \<Rightarrow> (last_text textList, Some (max MIN_FONT_SIZE (FONT_SIZE * (avail / width)))))"

definition drawBox :: "stack_set \<Rightarrow> (string \<Rightarrow> rat) \<Rightarrow> rat \<Rightarrow> box \<Rightarrow> drawn" where
  "drawBox ss textWidth xscale b =
     (let src = Sources ss ! bsrc b;
          delta = bpos b - bneg b;
          partWidth = xscale * of_int \<bar>delta\<bar>
      in \<lparr>dLeft = bx b, dTop = byy b, dWidth = bwidth b - 1, dHeight = ROW, dInlined = Inlined src,
          dIndicator = (if is_diff ss \<and> MIN_WIDTH \<le> partWidth then Some (delta < 0, partWidth) else None),
          dText = (if MIN_TEXT_WIDTH \<le> bwidth b
                   then Some (fitText textWidth (bwidth b - 2 * TEXT_MARGIN) (Display src)) else None)\<rparr>)"

text \<open>A click counts only if the mouse stayed within three pixels.\<close>

definition click_accepted :: "rat \<times> rat \<Rightarrow> rat \<times> rat \<Rightarrow> bool" where
  "click_accepted down up \<longleftrightarrow> \<bar>fst up - fst down\<bar> \<le> 3 \<and> \<bar>snd up - snd down\<bar> \<le> 3"

subsection \<open>What a group sums up\<close>

definition value_of :: "stack_set \<Rightarrow> place \<Rightarrow> int" where
  "value_of ss p = stValue (stack_at ss p)"

definition is_leaf :: "stack_set \<Rightarrow> place \<Rightarrow> bool" where
  "is_leaf ss p \<longleftrightarrow> int (pPos p) = int (length (stSources (stack_at ss p))) - 1"

definition group_ok :: "stack_set \<Rightarrow> group \<Rightarrow> bool" where
  "group_ok ss g \<longleftrightarrow>
     sumpos g = (\<Sum>p\<leftarrow>gplaces g. max 0 (value_of ss p)) \<and> sumneg g = (\<Sum>p\<leftarrow>gplaces g. max 0 (- value_of ss p)) \<and>
     gself g = (\<Sum>p\<leftarrow>gplaces g. if is_leaf ss p then value_of ss p else 0) \<and>
     (\<forall>p \<in> set (gplaces g). place_src ss p = gsrc g)"

lemma group_ok_new: "group_ok ss (new_group ss src)"
  by (simp add: group_ok_def new_group_def)

lemma group_ok_add: "group_ok ss g \<Longrightarrow> place_src ss p = gsrc g \<Longrightarrow> group_ok ss (add_to_group ss p g)"
  by (auto simp: group_ok_def add_to_group_def Let_def value_of_def is_leaf_def)

lemma insert_place_ok:
  "\<forall>g \<in> set gs. group_ok ss g \<Longrightarrow> place_src ss p = src \<Longrightarrow> g \<in> set (insert_place ss src p gs) \<Longrightarrow> group_ok ss g"
proof (induction gs)
  case Nil
  then show ?case using group_ok_add [OF group_ok_new, of ss p src] by (simp add: new_group_def)
next
  case (Cons h gs)
  then show ?case by (auto intro: group_ok_add split: if_splits)
qed

lemma insert_place_srcs:
  "map gsrc (insert_place ss src p gs) = (if src \<in> gsrc ` set gs then map gsrc gs else map gsrc gs @ [src])"
  by (induction gs) (auto simp: new_group_def)

lemma insert_place_mset:
  "mset (concat (map gplaces (insert_place ss src p gs))) = add_mset p (mset (concat (map gplaces gs)))"
  by (induction gs) (auto simp: new_group_def)

lemma groups_fold:
  "(\<forall>g \<in> set gs0. group_ok ss g) \<Longrightarrow> distinct (map gsrc gs0) \<Longrightarrow>
   (let gs = foldl (\<lambda>gs p. insert_place ss (place_src ss p) p gs) gs0 qs in
      (\<forall>g \<in> set gs. group_ok ss g) \<and> distinct (map gsrc gs) \<and>
      mset (concat (map gplaces gs)) = mset (concat (map gplaces gs0)) + mset qs)"
proof (induction qs arbitrary: gs0)
  case Nil
  then show ?case by simp
next
  case (Cons p qs)
  let ?gs = "insert_place ss (place_src ss p) p gs0"
  have "\<forall>g \<in> set ?gs. group_ok ss g" using Cons.prems insert_place_ok by blast
  moreover have "distinct (map gsrc ?gs)" using Cons.prems by (auto simp: insert_place_srcs)
  ultimately show ?case
    using Cons.IH [of ?gs] by (simp add: Let_def insert_place_mset)
qed

lemma sum_list_mset_eq:
  fixes f :: "'a \<Rightarrow> 'b :: comm_monoid_add"
  assumes "mset xs = mset ys"
  shows "(\<Sum>x\<leftarrow>xs. f x) = (\<Sum>x\<leftarrow>ys. f x)"
  using arg_cong [OF assms, of "image_mset f"] by (simp flip: sum_mset_sum_list)

lemma partition_spec:
  shows "\<forall>g \<in> set (partitionPlaces ss ps). group_ok ss g"
    and "distinct (map gsrc (partitionPlaces ss ps))"
    and "mset (concat (map gplaces (partitionPlaces ss ps))) = mset (kept_places ps)"
    and "sorted_wrt (\<lambda>g h. cost h \<le> cost g) (partitionPlaces ss ps)"
proof -
  let ?gs = "foldl (\<lambda>gs p. insert_place ss (place_src ss p) p gs) [] (kept_places ps)"
  have g: "\<forall>g \<in> set ?gs. group_ok ss g" "distinct (map gsrc ?gs)"
    "mset (concat (map gplaces ?gs)) = mset (kept_places ps)"
    using groups_fold [of "[]" ss "kept_places ps"] by (simp_all add: Let_def)
  show "\<forall>g \<in> set (partitionPlaces ss ps). group_ok ss g" using g(1) by (simp add: partitionPlaces_def)
  have m: "mset (partitionPlaces ss ps) = mset ?gs" by (simp add: partitionPlaces_def)
  then show "distinct (map gsrc (partitionPlaces ss ps))"
    using g(2) mset_eq_imp_distinct_iff [of "map gsrc (partitionPlaces ss ps)" "map gsrc ?gs"] by simp
  show "mset (concat (map gplaces (partitionPlaces ss ps))) = mset (kept_places ps)"
    using g(3) sum_list_mset_eq [OF m, of "\<lambda>g. mset (gplaces g)"] by (simp add: mset_concat comp_def)
  have "sorted (map (\<lambda>g. - cost g) (partitionPlaces ss ps))" by (simp add: partitionPlaces_def)
  then show "sorted_wrt (\<lambda>g h. cost h \<le> cost g) (partitionPlaces ss ps)" by (simp add: sorted_map)
qed

lemma cost_places: "group_ok ss g \<Longrightarrow> cost g = (\<Sum>p\<leftarrow>gplaces g. \<bar>value_of ss p\<bar>)"
proof -
  have "(\<Sum>p\<leftarrow>ps. max 0 (value_of ss p)) + (\<Sum>p\<leftarrow>ps. max 0 (- value_of ss p)) = (\<Sum>p\<leftarrow>ps. \<bar>value_of ss p\<bar>)" for ps
    by (induction ps) auto
  then show "group_ok ss g \<Longrightarrow> ?thesis" by (simp add: cost_def group_ok_def)
qed

lemma cost_nonneg: "group_ok ss g \<Longrightarrow> 0 \<le> cost g"
proof -
  assume ok: "group_ok ss g"
  show "0 \<le> cost g" unfolding cost_places [OF ok] by (rule sum_list_nonneg) auto
qed

lemma sum_list_concat_map: "(\<Sum>g\<leftarrow>gs. \<Sum>p\<leftarrow>h g. f p) = (\<Sum>p\<leftarrow>concat (map h gs). f p :: int)"
  by (induction gs) simp_all

lemma partition_cost:
  "(\<Sum>g\<leftarrow>partitionPlaces ss ps. cost g) = (\<Sum>p\<leftarrow>kept_places ps. \<bar>value_of ss p\<bar>)"
proof -
  have "(\<Sum>g\<leftarrow>partitionPlaces ss ps. cost g) = (\<Sum>g\<leftarrow>partitionPlaces ss ps. \<Sum>p\<leftarrow>gplaces g. \<bar>value_of ss p\<bar>)"
    using partition_spec(1) [of ss ps] by (intro arg_cong [of _ _ sum_list] map_cong) (auto simp: cost_places)
  then show ?thesis
    by (simp add: sum_list_concat_map sum_list_mset_eq [OF partition_spec(3)])
qed

lemma kept_le: "(\<Sum>p\<leftarrow>kept_places ps. \<bar>value_of ss p\<bar>) \<le> (\<Sum>p\<leftarrow>ps. \<bar>value_of ss p\<bar>)"
proof -
  have "(\<Sum>p\<leftarrow>filter P ps. \<bar>value_of ss p\<bar>) \<le> (\<Sum>p\<leftarrow>ps. \<bar>value_of ss p\<bar>)" for P
    by (induction ps) auto
  then show ?thesis by (simp add: kept_places_def)
qed

text \<open>A stack that goes on below a group does not end in it: children and self share the width.\<close>

lemma next_places_Cons:
  "\<exists>qs. next_places ss down (p # ps) = qs @ next_places ss down ps \<and>
     (qs = [] \<or> (\<exists>q. qs = [q] \<and> value_of ss q = value_of ss p \<and> (down \<longrightarrow> \<not> is_leaf ss p)))"
  by (auto simp: next_places_def map_filter_simps Let_def value_of_def is_leaf_def stack_at_def)

lemma next_cost:
  "(\<Sum>q\<leftarrow>next_places ss down ps. \<bar>value_of ss q\<bar>) + (if down then \<bar>\<Sum>p\<leftarrow>ps. if is_leaf ss p then value_of ss p else 0\<bar> else 0)
     \<le> (\<Sum>p\<leftarrow>ps. \<bar>value_of ss p\<bar>)"
proof (induction ps)
  case Nil
  then show ?case by (simp add: next_places_def map_filter_simps)
next
  case (Cons p ps)
  obtain qs where qs: "next_places ss down (p # ps) = qs @ next_places ss down ps"
    "qs = [] \<or> (\<exists>q. qs = [q] \<and> value_of ss q = value_of ss p \<and> (down \<longrightarrow> \<not> is_leaf ss p))"
    using next_places_Cons by blast
  have "(\<Sum>q\<leftarrow>qs. \<bar>value_of ss q\<bar>) + (if down \<and> is_leaf ss p then \<bar>value_of ss p\<bar> else 0) \<le> \<bar>value_of ss p\<bar>"
    using qs(2) by auto
  then show ?case using Cons.IH unfolding qs(1) by (auto split: if_splits)
qed

lemma children_cost:
  assumes "group_ok ss g"
  shows "(\<Sum>h\<leftarrow>partitionPlaces ss (next_places ss down (gplaces g)). cost h) + (if down then \<bar>gself g\<bar> else 0) \<le> cost g"
  using kept_le [of ss "next_places ss down (gplaces g)"] next_cost [of ss down "gplaces g"] assms
  unfolding partition_cost cost_places [OF assms] by (auto simp: group_ok_def)

subsection \<open>Boxes stay inside their parents and never overlap\<close>

definition apart :: "box \<Rightarrow> box \<Rightarrow> bool" where
  "apart a b \<longleftrightarrow> byy a \<noteq> byy b \<or> bx a + bwidth a \<le> bx b \<or> bx b + bwidth b \<le> bx a"

definition inside :: "rat \<Rightarrow> rat \<Rightarrow> rat \<Rightarrow> bool \<Rightarrow> box \<Rightarrow> bool" where
  "inside lo hi y down b \<longleftrightarrow> lo \<le> bx b \<and> bx b + bwidth b \<le> hi \<and> 0 \<le> bwidth b \<and>
     (if down then y \<le> byy b else byy b \<le> y)"

definition laid_out :: "rat \<Rightarrow> rat \<Rightarrow> rat \<Rightarrow> bool \<Rightarrow> box list \<Rightarrow> bool" where
  "laid_out lo hi y down bs \<longleftrightarrow> (\<forall>b \<in> set bs. inside lo hi y down b) \<and> sorted_wrt apart bs"

lemma apart_sym: "apart a b \<longleftrightarrow> apart b a"
  by (auto simp: apart_def)

lemma laid_out_append:
  assumes "laid_out lo mid y down as" "laid_out mid hi y down bs" "lo \<le> mid" "mid \<le> hi"
  shows "laid_out lo hi y down (as @ bs)"
  using assms by (fastforce simp: laid_out_def inside_def sorted_wrt_append apart_def)

lemma laid_out_below:
  assumes "laid_out lo' hi' (y + (if down then 1 else - 1) * ROW) down bs" "lo \<le> lo'" "hi' \<le> hi"
  shows "laid_out lo hi y down bs" "byy b = y \<Longrightarrow> c \<in> set bs \<Longrightarrow> apart b c"
  using assms by (force simp: laid_out_def inside_def apart_def ROW_def split: if_splits)+

definition groups_width :: "rat \<Rightarrow> group list \<Rightarrow> rat" where
  "groups_width xscale gs = (\<Sum>g\<leftarrow>gs. groupWidth xscale g)"

lemma groups_width_eq: "groups_width xscale gs = xscale * of_int (\<Sum>g\<leftarrow>gs. cost g)"
  by (induction gs) (simp_all add: groups_width_def groupWidth_def cost_def algebra_simps)

lemma width_nonneg: "0 \<le> xscale \<Longrightarrow> group_ok ss g \<Longrightarrow> 0 \<le> groupWidth xscale g"
  using cost_nonneg [of ss g] by (simp add: groupWidth_def flip: cost_def)

lemma render_laid_out:
  assumes "0 \<le> xscale"
  shows "\<forall>g \<in> set gs. group_ok ss g \<Longrightarrow>
      laid_out x (x + groups_width xscale gs) y down (renderGroups ss depth xscale x y gs down)"
    and "group_ok ss g \<Longrightarrow>
      laid_out x (x + groupWidth xscale g) y down (renderGroup ss depth xscale x y g down)"
  using assms
proof (induction ss depth xscale x y gs down and ss depth xscale x y g down
    rule: renderGroups_renderGroup.induct)
  case (1 ss depth xscale x y down)
  then show ?case by (simp add: laid_out_def)
next
  case (2 ss depth xscale x y g gs down)
  let ?w = "groupWidth xscale g"
  have "laid_out x (x + ?w) y down (renderGroup ss depth xscale x y g down)" using 2 by simp
  moreover have "laid_out (x + ?w) (x + ?w + groups_width xscale gs) y down
      (renderGroups ss depth xscale (x + ?w) y gs down)" using 2 by simp
  moreover have ok: "group_ok ss g" "\<forall>h \<in> set gs. group_ok ss h" "0 \<le> xscale" using 2 by simp_all
  have "0 \<le> ?w" using width_nonneg [OF ok(3,1)] .
  moreover have "0 \<le> groups_width xscale gs"
    unfolding groups_width_def using ok width_nonneg by (intro sum_list_nonneg) auto
  ultimately have "laid_out x (x + ?w + groups_width xscale gs) y down
      (renderGroup ss depth xscale x y g down @ renderGroups ss depth xscale (x + ?w) y gs down)"
    by (intro laid_out_append) auto
  then show ?case by (simp add: groups_width_def add.assoc)
next
  case (3 ss depth xscale x y g down)
  let ?w = "groupWidth xscale g" and ?gs = "partitionPlaces ss (next_places ss down (gplaces g))"
  let ?x = "if (depth \<noteq> 0 \<or> down) \<and> down then x + xscale * \<bar>of_int (gself g)\<bar> else x"
  let ?y = "y + (if down then 1 else - 1) * ROW"
  let ?bs = "renderGroups ss (depth + 1) xscale ?x ?y ?gs down"
  show ?case
  proof (cases "?w < MIN_WIDTH")
    case True
    then show ?thesis by (simp add: laid_out_def renderGroup.simps)
  next
    case False
    have "laid_out ?x (?x + groups_width xscale ?gs) ?y down ?bs"
      using 3 False partition_spec(1) by simp
    moreover have "?x + groups_width xscale ?gs \<le> x + ?w"
    proof -
      let ?self = "if down then \<bar>gself g\<bar> else 0"
      have "(\<Sum>h\<leftarrow>?gs. cost h) + ?self \<le> cost g" by (rule children_cost) (use 3 in simp)
      then have "xscale * of_int ((\<Sum>h\<leftarrow>?gs. cost h) + ?self) \<le> xscale * of_int (cost g)"
        using 3 by (intro mult_left_mono) simp_all
      then show ?thesis
        by (simp add: groups_width_eq groupWidth_def cost_def distrib_left split: if_splits)
    qed
    moreover have "x \<le> ?x" using 3 by simp
    ultimately have below: "laid_out x (x + ?w) y down ?bs"
      "\<And>b c. byy b = y \<Longrightarrow> c \<in> set ?bs \<Longrightarrow> apart b c"
      using laid_out_below by blast+
    have "0 \<le> ?w" using 3 width_nonneg by blast
    then have "inside x (x + ?w) y down (group_box xscale x y g)"
      by (simp add: inside_def group_box_def)
    then show ?thesis
      using False below by (auto simp: laid_out_def Let_def group_box_def renderGroup.simps [of ss depth])
  qed
qed

subsection \<open>One place per stack\<close>

lemma outer_slots_step:
  obtains m' where "outer_slots m (p # ps) = outer_slots m' ps"
    "m' = m \<and> m (pStack p) \<noteq> None \<or> m' = m(pStack p \<mapsto> pPos p)"
proof (cases "\<exists>k. m (pStack p) = Some k \<and> k \<noteq> 0 \<and> k \<le> pPos p")
  case True
  then have "outer_slots m (p # ps) = outer_slots m ps" by auto
  with True that show ?thesis by blast
next
  case False
  then have "outer_slots m (p # ps) = outer_slots (m(pStack p \<mapsto> pPos p)) ps"
    by (auto split: option.split)
  with that show ?thesis by blast
qed

lemma outer_slots_dom:
  "outer_slots m ps s = None \<longleftrightarrow> m s = None \<and> s \<notin> pStack ` set ps"
proof (induction ps arbitrary: m)
  case Nil
  then show ?case by simp
next
  case (Cons p ps)
  obtain m' where m': "outer_slots m (p # ps) = outer_slots m' ps"
    "m' = m \<and> m (pStack p) \<noteq> None \<or> m' = m(pStack p \<mapsto> pPos p)" by (rule outer_slots_step)
  show ?case unfolding m'(1) Cons.IH using m'(2) by (cases "s = pStack p") auto
qed

lemma outer_slots_mem:
  "outer_slots m ps s = Some k \<Longrightarrow> m s = Some k \<or> (\<exists>p \<in> set ps. pStack p = s \<and> pPos p = k)"
proof (induction ps arbitrary: m)
  case Nil
  then show ?case by simp
next
  case (Cons p ps)
  obtain m' where m': "outer_slots m (p # ps) = outer_slots m' ps"
    "m' = m \<and> m (pStack p) \<noteq> None \<or> m' = m(pStack p \<mapsto> pPos p)" by (rule outer_slots_step)
  have "m' s = Some k \<or> (\<exists>p \<in> set ps. pStack p = s \<and> pPos p = k)"
    using Cons.prems unfolding m'(1) by (rule Cons.IH)
  then show ?case using m'(2) by (cases "s = pStack p") auto
qed

lemma kept_stacks: "pStack ` set (kept_places ps) = pStack ` set ps"
proof
  show "pStack ` set (kept_places ps) \<subseteq> pStack ` set ps" by (auto simp: kept_places_def)
  show "pStack ` set ps \<subseteq> pStack ` set (kept_places ps)"
  proof
    fix s assume s: "s \<in> pStack ` set ps"
    then obtain k where k: "outer_slots Map.empty ps s = Some k"
      using outer_slots_dom [of Map.empty ps s] by auto
    then obtain p where "p \<in> set ps" "pStack p = s" "pPos p = k"
      using outer_slots_mem [OF k] by auto
    then show "s \<in> pStack ` set (kept_places ps)" using k by (auto simp: kept_places_def image_iff)
  qed
qed

lemma kept_distinct:
  assumes "distinct ps"
  shows "distinct (map pStack (kept_places ps))"
proof -
  have "p = q" if "p \<in> set (kept_places ps)" "q \<in> set (kept_places ps)" "pStack p = pStack q" for p q
    using that by (auto simp: kept_places_def intro: place.equality)
  then show ?thesis
    using assms by (auto simp: distinct_map inj_on_def kept_places_def)
qed

lemma totalValue_from_eq:
  "finite seen \<Longrightarrow> totalValue_from ss seen pos neg ps =
     (pos + (\<Sum>s \<in> pStack ` set ps - seen. max 0 (stValue (Stacks ss ! s))),
      neg + (\<Sum>s \<in> pStack ` set ps - seen. max 0 (- stValue (Stacks ss ! s))))"
proof (induction ps arbitrary: seen pos neg)
  case Nil
  then show ?case by simp
next
  case (Cons p ps)
  let ?s = "pStack p"
  show ?case
  proof (cases "?s \<in> seen")
    case True
    then have "pStack ` set (p # ps) - seen = pStack ` set ps - seen" by auto
    then show ?thesis using True Cons by simp
  next
    case False
    then have e: "pStack ` set (p # ps) - seen = insert ?s (pStack ` set ps - insert ?s seen)" by auto
    show ?thesis
      using False Cons.IH [of "insert ?s seen"] Cons.prems unfolding e
      by (simp add: Let_def stack_at_def)
  qed
qed

lemma totalValue_abs:
  assumes "distinct ps" and "totalValue ss ps = (pos, neg)"
  shows "pos + neg = (\<Sum>p\<leftarrow>kept_places ps. \<bar>value_of ss p\<bar>)"
proof -
  let ?v = "\<lambda>s. stValue (Stacks ss ! s)"
  have "pos + neg = (\<Sum>s \<in> pStack ` set ps. max 0 (?v s)) + (\<Sum>s \<in> pStack ` set ps. max 0 (- ?v s))"
    using assms(2) totalValue_from_eq [of "{}" ss 0 0 ps] by (simp add: totalValue_def)
  also have "\<dots> = (\<Sum>s \<in> pStack ` set ps. \<bar>?v s\<bar>)"
    by (simp add: sum.distrib [symmetric]) (rule sum.cong, auto)
  also have "\<dots> = (\<Sum>s \<in> set (map pStack (kept_places ps)). \<bar>?v s\<bar>)" by (simp add: kept_stacks)
  also have "\<dots> = (\<Sum>s\<leftarrow>map pStack (kept_places ps). \<bar>?v s\<bar>)"
    by (rule sum.distinct_set_conv_list [OF kept_distinct [OF assms(1)]])
  finally show ?thesis by (simp add: value_of_def stack_at_def comp_def)
qed

text \<open>
  The stacks as the server sends them: indices in range, and the places of a source are slots
  that hold it, at most one per stack.
\<close>

definition valid_set :: "stack_set \<Rightarrow> bool" where
  "valid_set ss \<longleftrightarrow> (\<forall>i < length (Sources ss). distinct (map pStack (Places (Sources ss ! i))) \<and>
     (\<forall>p \<in> set (Places (Sources ss ! i)). pStack p < length (Stacks ss) \<and>
        pPos p < length (stSources (stack_at ss p)) \<and> place_src ss p = i))"

lemma render_places_distinct:
  assumes "valid_set ss" "distinct pivots" "\<forall>i \<in> set pivots. i < length (Sources ss)"
  shows "distinct (render_places ss pivots)"
  using assms(2,3)
proof (induction pivots)
  case Nil
  then show ?case by (simp add: render_places_def)
next
  case (Cons i pivots)
  have src: "place_src ss p = j" if "p \<in> set (Places (Sources ss ! j))" "j < length (Sources ss)" for p j
    using assms(1) that by (simp add: valid_set_def)
  have "distinct (Places (Sources ss ! i))"
    using assms(1) Cons.prems by (auto simp: valid_set_def distinct_map)
  moreover have "set (Places (Sources ss ! i)) \<inter> set (render_places ss pivots) = {}"
  proof (rule ccontr)
    assume "set (Places (Sources ss ! i)) \<inter> set (render_places ss pivots) \<noteq> {}"
    then obtain p j where p: "p \<in> set (Places (Sources ss ! i))" "p \<in> set (Places (Sources ss ! j))" "j \<in> set pivots"
      by (auto simp: render_places_def)
    then have "i = j" using src [OF p(1)] src [OF p(2)] Cons.prems by auto
    then show False using p(3) Cons.prems by simp
  qed
  ultimately show ?case using Cons by (simp add: render_places_def)
qed

subsection \<open>Properties of the layout\<close>

text \<open>
  C6. Boxes of the flame graph never overlap. Whatever the pivots, positive or negative values,
  recursion or pruning of narrow boxes: all boxes that \<open>render\<close> makes, callees and callers
  together, lie between the paddings of the chart, and any two of them are in different rows or
  side by side.
\<close>

theorem boxes_never_overlap:
  assumes "valid_set ss" and "distinct pivots" and "\<forall>i \<in> set pivots. i < length (Sources ss)"
    and "4 \<le> chartWidth" and "render ss chartWidth pivots = Some (shown, summary, boxes)"
  shows "(\<forall>b \<in> set boxes. PADDING \<le> bx b \<and> bx b + bwidth b \<le> chartWidth - PADDING) \<and>
    (\<forall>i j. i < j \<and> j < length boxes \<longrightarrow>
       byy (boxes ! i) \<noteq> byy (boxes ! j) \<or> bx (boxes ! i) + bwidth (boxes ! i) \<le> bx (boxes ! j)
       \<or> bx (boxes ! j) + bwidth (boxes ! j) \<le> bx (boxes ! i))"
proof -
  let ?ps = "render_places ss pivots" and ?gs = "partitionPlaces ss (render_places ss pivots)"
  obtain pos neg where t: "totalValue ss ?ps = (pos, neg)" by fastforce
  define xscale where "xscale = (chartWidth - 2 * PADDING) / of_int (pos + neg)"
  let ?down = "renderGroups ss 0 xscale PADDING 0 ?gs True" and ?up = "renderGroups ss 0 xscale PADDING (0 - ROW) ?gs False"
  have nz: "pos + neg \<noteq> 0" and boxes: "boxes = ?down @ ?up"
    using assms(5) t by (auto simp: render_def render_scale_def renderStacks_def xscale_def Let_def split: if_splits)
  have total: "pos + neg = (\<Sum>g\<leftarrow>?gs. cost g)"
    unfolding partition_cost by (rule totalValue_abs [OF render_places_distinct [OF assms(1-3)] t])
  have "0 \<le> pos + neg"
    unfolding total using partition_spec(1) [of ss ?ps] cost_nonneg by (intro sum_list_nonneg) auto
  then have sc: "0 \<le> xscale" using assms(4) by (simp add: xscale_def PADDING_def)
  have "groups_width xscale ?gs = xscale * of_int (pos + neg)" by (simp add: groups_width_eq total)
  then have w: "PADDING + groups_width xscale ?gs = chartWidth - PADDING"
    using nz unfolding xscale_def by (metis add.commute add_diff_cancel_left' diff_add_eq mult.commute mult_2
        nonzero_mult_div_cancel_left of_int_eq_0_iff times_divide_eq_right diff_diff_eq)
  have down: "laid_out PADDING (chartWidth - PADDING) 0 True ?down"
    using render_laid_out(1) [OF sc partition_spec(1) [of ss ?ps], where x = PADDING and y = 0 and down = True and depth = 0] w by simp
  have up: "laid_out PADDING (chartWidth - PADDING) (0 - ROW) False ?up"
    using render_laid_out(1) [OF sc partition_spec(1) [of ss ?ps], where x = PADDING and y = "0 - ROW" and down = False and depth = 0] w by simp
  have "sorted_wrt apart boxes"
    using down up by (fastforce simp: boxes laid_out_def inside_def sorted_wrt_append apart_def ROW_def)
  then have "\<forall>i j. i < j \<and> j < length boxes \<longrightarrow> apart (boxes ! i) (boxes ! j)"
    by (simp add: sorted_wrt_iff_nth_less)
  moreover have "\<forall>b \<in> set boxes. PADDING \<le> bx b \<and> bx b + bwidth b \<le> chartWidth - PADDING"
    using down up by (auto simp: boxes laid_out_def inside_def)
  ultimately show ?thesis by (simp add: apart_def)
qed

text \<open>A small profile: a stack that ends in its root's callee, a recursive one, and a third.\<close>

definition demo_set :: stack_set where
  "demo_set =
     (let src = (\<lambda>n ps. \<lparr>FullName = n, FileName = [], UniqueName = n, Inlined = False, Display = [n], Places = ps\<rparr>)
      in \<lparr>Total = 20, Scale = 1, Unit = ''count'',
          Stacks = [\<lparr>stValue = 6, stSources = [0, 1, 2]\<rparr>, \<lparr>stValue = 4, stSources = [0, 1]\<rparr>,
                    \<lparr>stValue = 10, stSources = [0, 2, 1, 2]\<rparr>],
          Sources = [src ''root'' [\<lparr>pStack = 0, pPos = 0\<rparr>, \<lparr>pStack = 1, pPos = 0\<rparr>, \<lparr>pStack = 2, pPos = 0\<rparr>],
                     src ''a'' [\<lparr>pStack = 0, pPos = 1\<rparr>, \<lparr>pStack = 1, pPos = 1\<rparr>, \<lparr>pStack = 2, pPos = 2\<rparr>],
                     src ''b'' [\<lparr>pStack = 0, pPos = 2\<rparr>, \<lparr>pStack = 2, pPos = 1\<rparr>]]\<rparr>)"

definition demo_boxes :: "box list" where
  "demo_boxes = snd (snd (the (render demo_set 204 [2])))"

lemma demo_valid: "valid_set demo_set"
  by code_simp

lemma demo_render: "render demo_set 204 [2] = Some (16, True, demo_boxes)"
  unfolding demo_boxes_def by code_simp

theorem boxes_never_overlap_witness:
  "length demo_boxes = 6 \<and> sorted_wrt apart demo_boxes"
proof -
  have "sorted_wrt apart demo_boxes"
    using boxes_never_overlap [OF demo_valid, of "[2]" 204 16 True demo_boxes] demo_render
    by (auto simp: sorted_wrt_iff_nth_less apart_def demo_set_def Let_def)
  moreover have "length demo_boxes = 6" by code_simp
  ultimately show ?thesis by simp
qed

subsection \<open>Which slots are kept\<close>

lemma outer_slots_min:
  "outer_slots m ps s = Some k \<Longrightarrow> \<forall>p \<in> set ps. 0 < pPos p \<Longrightarrow> \<forall>j. m s = Some j \<longrightarrow> 0 < j \<Longrightarrow>
    (\<forall>j. m s = Some j \<longrightarrow> k \<le> j) \<and> (\<forall>p \<in> set ps. pStack p = s \<longrightarrow> k \<le> pPos p)"
proof (induction ps arbitrary: m)
  case Nil
  then show ?case by simp
next
  case (Cons p ps)
  have ih: "(\<forall>j. m' s = Some j \<longrightarrow> k \<le> j) \<and> (\<forall>q \<in> set ps. pStack q = s \<longrightarrow> k \<le> pPos q)"
    if "outer_slots m' ps s = Some k" "\<forall>j. m' s = Some j \<longrightarrow> 0 < j" for m'
    using Cons.IH [OF that(1)] that(2) Cons.prems(2) by simp
  show ?case
  proof (cases "pStack p = s")
    case False
    obtain m' where m': "outer_slots m (p # ps) = outer_slots m' ps"
      "m' = m \<and> m (pStack p) \<noteq> None \<or> m' = m(pStack p \<mapsto> pPos p)" by (rule outer_slots_step)
    have "m' s = m s" using False m'(2) by auto
    then show ?thesis using ih [of m'] False Cons.prems(1,3) unfolding m'(1) by simp
  next
    case s: True
    show ?thesis
    proof (cases "\<exists>j. m s = Some j \<and> j \<le> pPos p")
      case True
      then have "outer_slots m (p # ps) = outer_slots m ps" using s Cons.prems(3) by auto
      then show ?thesis using ih [of m] Cons.prems(1,3) True by fastforce
    next
      case False
      then have e: "outer_slots m (p # ps) = outer_slots (m(s \<mapsto> pPos p)) ps"
        using s by (auto split: option.split)
      have "k \<le> pPos p \<and> (\<forall>q \<in> set ps. pStack q = s \<longrightarrow> k \<le> pPos q)"
        using ih [of "m(s \<mapsto> pPos p)"] Cons.prems(1,2) unfolding e by simp
      then show ?thesis using False by (auto simp: not_le intro: order.trans less_imp_le)
    qed
  qed
qed



lemma outer_slots_append: "outer_slots m (ps @ qs) = outer_slots (outer_slots m ps) qs"
  by (induction ps arbitrary: m) (simp_all split: option.split)

lemma outer_slots_root_lost:
  "m s = Some 0 \<Longrightarrow> \<forall>p \<in> set ps. pStack p = s \<longrightarrow> 0 < pPos p \<Longrightarrow> s \<in> pStack ` set ps \<Longrightarrow> outer_slots m ps s \<noteq> Some 0"
proof (induction ps arbitrary: m)
  case Nil
  then show ?case by simp
next
  case (Cons p ps)
  obtain m' where m': "outer_slots m (p # ps) = outer_slots m' ps"
    "m' = m \<and> m (pStack p) \<noteq> None \<or> m' = m(pStack p \<mapsto> pPos p)" by (rule outer_slots_step)
  show ?case
  proof (cases "pStack p = s")
    case False
    then have "m' s = Some 0" using m'(2) Cons.prems(1) by auto
    then show ?thesis unfolding m'(1) using False Cons.prems by (intro Cons.IH) auto
  next
    case True
    then have "outer_slots m (p # ps) = outer_slots (m(s \<mapsto> pPos p)) ps" using Cons.prems(1) by simp
    moreover have "outer_slots (m(s \<mapsto> pPos p)) ps s \<noteq> Some 0"
      using outer_slots_mem [of "m(s \<mapsto> pPos p)" ps s 0] Cons.prems(2) True by fastforce
    ultimately show ?thesis by simp
  qed
qed

text \<open>
  An outermost slot that is slot 0 is not kept. The comment on \<open>partitionPlaces\<close> says that of a
  stack that occurs more than once the outermost occurrence is kept, but a recorded slot 0 counts
  as no slot: when the root slot of a stack is followed by other slots of that stack, the root slot
  is dropped and an inner frame stands for the stack.
\<close>

theorem outermost_root_slot_is_lost:
  assumes "s \<in> pStack ` set later" and "\<forall>p \<in> set later. pStack p = s \<longrightarrow> 0 < pPos p"
  shows "\<lparr>pStack = s, pPos = 0\<rparr> \<notin> set (kept_places (earlier @ [\<lparr>pStack = s, pPos = 0\<rparr>] @ later))"
proof -
  let ?m = "outer_slots Map.empty earlier" and ?p = "\<lparr>pStack = s, pPos = 0\<rparr>"
  have "outer_slots Map.empty (earlier @ [?p] @ later) = outer_slots (outer_slots ?m [?p]) later"
    by (simp only: outer_slots_append)
  moreover have "outer_slots ?m [?p] s = Some 0" by (auto split: option.split)
  ultimately have "outer_slots Map.empty (earlier @ [?p] @ later) s \<noteq> Some 0"
    using outer_slots_root_lost assms by metis
  then show ?thesis by (simp add: kept_places_def)
qed

theorem outermost_root_slot_is_lost_witness:
  "\<lparr>pStack = 2, pPos = 0\<rparr> \<in> set (render_places demo_set [0, 2]) \<and>
   \<lparr>pStack = 2, pPos = 0\<rparr> \<notin> set (kept_places (render_places demo_set [0, 2]))"
proof -
  let ?earlier = "[\<lparr>pStack = 0, pPos = 0\<rparr>, \<lparr>pStack = 1, pPos = 0\<rparr>]" and ?later = "[\<lparr>pStack = 0, pPos = 2\<rparr>, \<lparr>pStack = 2, pPos = 1\<rparr>]"
  have "render_places demo_set [0, 2] = ?earlier @ [\<lparr>pStack = 2, pPos = 0\<rparr>] @ ?later" by code_simp
  then show ?thesis using outermost_root_slot_is_lost [of 2 ?later ?earlier] by simp
qed

subsection \<open>How deep rendering goes, and totals\<close>

lemma insert_place_nonempty:
  "\<forall>g \<in> set gs. gplaces g \<noteq> [] \<Longrightarrow> \<forall>g \<in> set (insert_place ss src p gs). gplaces g \<noteq> []"
  by (induction gs) auto

lemma partition_nonempty: "g \<in> set (partitionPlaces ss ps) \<Longrightarrow> gplaces g \<noteq> []"
proof -
  have "\<forall>g \<in> set (foldl (\<lambda>gs p. insert_place ss (place_src ss p) p gs) gs qs). gplaces g \<noteq> []"
    if "\<forall>g \<in> set gs. gplaces g \<noteq> []" for gs qs
    using that
  proof (induction qs arbitrary: gs)
    case (Cons q qs)
    show ?case unfolding foldl.simps by (rule Cons.IH [OF insert_place_nonempty [OF Cons.prems]])
  qed simp
  from this [of "[]"] show "g \<in> set (partitionPlaces ss ps) \<Longrightarrow> gplaces g \<noteq> []"
    by (simp add: partitionPlaces_def)
qed

definition slots_ok :: "stack_set \<Rightarrow> place list \<Rightarrow> bool" where
  "slots_ok ss ps \<longleftrightarrow> (\<forall>p \<in> set ps. pPos p < length (stSources (stack_at ss p)))"

lemma slots_ok_next: "slots_ok ss (next_places ss down ps)"
  unfolding slots_ok_def using next_places_set by (fastforce simp: stack_at_def)

lemma slots_ok_partition: "slots_ok ss ps \<Longrightarrow> slots_ok ss (concat (map gplaces (partitionPlaces ss ps)))"
  by (auto simp: slots_ok_def partition_places kept_places_def simp del: set_concat)

lemma rooms_pos: "slots_ok ss ps \<Longrightarrow> ps \<noteq> [] \<Longrightarrow> 0 < rooms ss down ps"
  by (cases ps) (auto simp: slots_ok_def rooms_def room_def)

lemma rooms_partition: "rooms ss down (concat (map gplaces (partitionPlaces ss ps))) \<le> rooms ss down ps"
  by (rule rooms_mono) (auto simp del: set_concat simp: partition_places kept_places_def)

lemma render_rows:
  "slots_ok ss (concat (map gplaces gs)) \<Longrightarrow> \<forall>g \<in> set gs. gplaces g \<noteq> [] \<Longrightarrow>
     \<forall>b \<in> set (renderGroups ss depth xscale x y gs down).
       \<exists>k < rooms ss down (concat (map gplaces gs)). byy b = y + (if down then 1 else - 1) * ROW * of_nat k"
  "slots_ok ss (gplaces g) \<Longrightarrow> gplaces g \<noteq> [] \<Longrightarrow>
     \<forall>b \<in> set (renderGroup ss depth xscale x y g down).
       \<exists>k < rooms ss down (gplaces g). byy b = y + (if down then 1 else - 1) * ROW * of_nat k"
proof (induction ss depth xscale x y gs down and ss depth xscale x y g down rule: renderGroups_renderGroup.induct)
  case (2 ss depth xscale x y g gs down)
  have "rooms ss down (gplaces g) \<le> rooms ss down (concat (map gplaces (g # gs)))"
    "rooms ss down (concat (map gplaces gs)) \<le> rooms ss down (concat (map gplaces (g # gs)))"
    by (rule rooms_mono; auto)+
  moreover have "slots_ok ss (gplaces g)" "slots_ok ss (concat (map gplaces gs))" using 2(3) by (auto simp: slots_ok_def)
  ultimately show ?case using 2 by (fastforce intro: less_le_trans)
next
  case (3 ss depth xscale x y g down)
  let ?next = "next_places ss down (gplaces g)" and ?d = "if down then 1 else - 1 :: rat"
  let ?gs = "partitionPlaces ss ?next"
  have r: "rooms ss down (concat (map gplaces ?gs)) < rooms ss down (gplaces g)"
  proof (cases "?next = []")
    case True
    then show ?thesis using rooms_pos [OF 3(2,3)] by (simp add: partitionPlaces_def kept_places_def rooms_def)
  next
    case False
    then show ?thesis using rooms_next [OF False] rooms_partition [of ss down ?next] by simp
  qed
  have below: "\<exists>k < rooms ss down (gplaces g). byy b = y + ?d * ROW * of_nat k"
    if k: "\<exists>k < rooms ss down (concat (map gplaces ?gs)). byy b = (y + ?d * ROW) + ?d * ROW * of_nat k" for b
  proof -
    obtain k where "k < rooms ss down (concat (map gplaces ?gs))" "byy b = (y + ?d * ROW) + ?d * ROW * of_nat k" using k by blast
    then show ?thesis using r by (intro exI [of _ "Suc k"]) (auto simp: algebra_simps)
  qed
  have own: "\<exists>k < rooms ss down (gplaces g). byy (group_box xscale x y g) = y + ?d * ROW * of_nat k"
    using rooms_pos [OF 3(2,3), of down] by (intro exI [of _ 0]) (simp add: group_box_def)
  have "\<forall>b \<in> set (renderGroups ss (depth + 1) xscale x' (y + ?d * ROW) ?gs down).
      \<exists>k < rooms ss down (gplaces g). byy b = y + ?d * ROW * of_nat k"
    if "x' = (if (depth \<noteq> 0 \<or> down) \<and> down then x + xscale * \<bar>of_int (gself g)\<bar> else x)" "\<not> groupWidth xscale g < MIN_WIDTH" for x'
    using 3(1) [OF that(2) refl that(1) refl slots_ok_partition [OF slots_ok_next]] partition_nonempty below by blast
  then show ?case using own by (auto simp: renderGroup.simps Let_def)
qed simp

text \<open>
  C30. Rendering goes no deeper than the longest stack. Every box that \<open>renderStacks\<close> draws for slots of
  existing stacks stands a whole number of rows below (or above) the first, fewer than there are
  entries in the longest stack: the recursion has ended by then.
\<close>

theorem rendering_ends_at_the_longest_stack:
  assumes "\<forall>p \<in> set ps. pPos p < length (stSources (Stacks ss ! pStack p)) \<and> length (stSources (Stacks ss ! pStack p)) \<le> n"
  shows "\<forall>b \<in> set (renderStacks ss depth xscale x y ps down). \<exists>k < n. byy b = y + (if down then 1 else - 1) * ROW * of_nat k"
proof -
  have "slots_ok ss ps" "rooms ss down ps \<le> n"
    using assms by (fastforce simp: slots_ok_def stack_at_def rooms_le room_def)+
  then show ?thesis
    unfolding renderStacks_def
    using render_rows(1) [OF slots_ok_partition, of ss ps depth xscale x y down] partition_nonempty rooms_partition [of ss down ps]
    by (meson less_le_trans)
qed

theorem rendering_ends_at_the_longest_stack_witness:
  "renderStacks demo_set 0 10 0 0 (Places (Sources demo_set ! 0)) True \<noteq> [] \<and>
   list_all (\<lambda>b. byy b < 4 * ROW) (renderStacks demo_set 0 10 0 0 (Places (Sources demo_set ! 0)) True)"
proof -
  have "\<forall>p \<in> set (Places (Sources demo_set ! 0)). pPos p < length (stSources (Stacks demo_set ! pStack p)) \<and>
    length (stSources (Stacks demo_set ! pStack p)) \<le> 4" by code_simp
  from rendering_ends_at_the_longest_stack [OF this, of 0 10 0 0 True]
  have "list_all (\<lambda>b. byy b < 4 * ROW) (renderStacks demo_set 0 10 0 0 (Places (Sources demo_set ! 0)) True)"
    by (auto simp: list_all_iff ROW_def)
  moreover have "renderStacks demo_set 0 10 0 0 (Places (Sources demo_set ! 0)) True \<noteq> []" by code_simp
  ultimately show ?thesis by simp
qed

text \<open>
  C32. The total counts each stack once. The loop of \<open>totalValue\<close> with its set of stacks seen computes,
  for any places, the sums of the positive and of the negated negative values over the set of their
  stacks, however often and in whatever order the stacks occur.
\<close>

theorem total_counts_each_stack_once:
  "totalValue ss ps =
     ((\<Sum>s \<in> pStack ` set ps. max 0 (stValue (Stacks ss ! s))), (\<Sum>s \<in> pStack ` set ps. max 0 (- stValue (Stacks ss ! s))))"
  using totalValue_from_eq [of "{}" ss 0 0 ps] by (simp add: totalValue_def)

end
