(* ===== verification/Profile_Text.thy ===== *)
theory Profile_Text
  imports Flame_Graph
begin

section \<open>Values as texts\<close>

text \<open>
  The texts of \<open>stacks.js\<close>: \<open>pprofUnitText\<close>, \<open>unitText\<close>, \<open>percentText\<close>, \<open>diffText\<close>, \<open>summary\<close> and
  \<open>details\<close>. Values are exact rationals. \<open>toFixed\<close> rounds to the nearest multiple of a power of
  ten, ties up; converting its result to a number and back prints the shortest decimal, which for
  results below ten to the fifteenth is the plain decimal of this theory. Texts are UTF-8 bytes.
  The table of units is generated by the server and is a parameter.
\<close>

record unit_def =
  CanonicalName :: string
  Factor :: rat

record unit_type =
  Units :: "unit_def list"
  DefaultUnit :: unit_def

text \<open>The separators U+2502 and U+1F846.\<close>

definition BAR :: string where
  "BAR = '' '' @ [CHR 0xE2, CHR 0x94, CHR 0x82] @ '' ''"

definition ARROW :: string where
  "ARROW = '' '' @ [CHR 0xF0, CHR 0x9F, CHR 0xA1, CHR 0x86] @ '' ''"

subsection \<open>Decimals\<close>

definition digit :: "nat \<Rightarrow> char" where
  "digit d = char_of (48 + d)"

fun nat_text :: "nat \<Rightarrow> string" where
  "nat_text n = (if n < 10 then [digit n] else nat_text (n div 10) @ [digit (n mod 10)])"

declare nat_text.simps [simp del]

text \<open>The \<open>f\<close> digits after the point, and without the zeros at the end.\<close>

fun fraction_digits :: "nat \<Rightarrow> nat \<Rightarrow> string" where
  "fraction_digits 0 k = []"
| "fraction_digits (Suc f) k = fraction_digits f (k div 10) @ [digit (k mod 10)]"

definition strip_zeros :: "string \<Rightarrow> string" where
  "strip_zeros s = rev (dropWhile (\<lambda>c. c = digit 0) (rev s))"

definition decimal_text :: "nat \<Rightarrow> nat \<Rightarrow> string" where
  "decimal_text f k =
     (let frac = strip_zeros (fraction_digits f k)
      in nat_text (k div 10 ^ f) @ (if frac = [] then [] else ''.'' @ frac))"

definition toFixed :: "nat \<Rightarrow> rat \<Rightarrow> nat" where
  "toFixed f x = nat \<lfloor>x * 10 ^ f + 1 / 2\<rfloor>"

text \<open>\<open>Number(x.toFixed(f))\<close> as a text, for any sign of \<open>x\<close>.\<close>

definition fixed_text :: "nat \<Rightarrow> rat \<Rightarrow> string" where
  "fixed_text f x =
     (let k = toFixed f \<bar>x\<bar> in (if x < 0 \<and> k \<noteq> 0 then ''-'' else []) @ decimal_text f k)"

subsection \<open>Units\<close>

fun pick_unit :: "unit_def list \<Rightarrow> rat \<Rightarrow> unit_def option" where
  "pick_unit [] v = None"
| "pick_unit [u] v = Some u"
| "pick_unit (u # w # us) v = (if Factor w > v then Some u else pick_unit (w # us) v)"

definition pprofUnitText :: "unit_type list \<Rightarrow> rat \<Rightarrow> string \<Rightarrow> string" where
  "pprofUnitText pprofUnitDefs value unit =
     (let sign = (if value < 0 then ''-'' else []);
          v = \<bar>value\<bar>
      in case find (\<lambda>d. CanonicalName (DefaultUnit d) = unit) pprofUnitDefs of
           None \<Rightarrow> sign @ fixed_text 2 v @ unit
         | Some d \<Rightarrow>
             let v = v * Factor (DefaultUnit d)
             in case pick_unit (Units d) v of
                  None \<Rightarrow> sign @ fixed_text 2 v @ unit
                | Some u \<Rightarrow> sign @ fixed_text 2 (v / Factor u) @ CanonicalName u)"

definition unitText :: "unit_type list \<Rightarrow> stack_set \<Rightarrow> int \<Rightarrow> string" where
  "unitText defs ss v = pprofUnitText defs (of_int v * Scale ss) (Unit ss)"

text \<open>A total of 0 divides by 0: \<open>NaN\<close> or an infinity.\<close>

definition percent :: "int \<Rightarrow> int \<Rightarrow> string" where
  "percent v whole =
     (if whole \<noteq> 0 then fixed_text 1 (100 * of_int v / of_int whole)
      else if v = 0 then ''NaN'' else if 0 < v then ''Infinity'' else ''-Infinity'') @ ''%''"

definition percentText :: "unit_type list \<Rightarrow> stack_set \<Rightarrow> int \<Rightarrow> string" where
  "percentText defs ss v = unitText defs ss v @ '' ('' @ percent v (Total ss) @ '')''"

definition diffText :: "unit_type list \<Rightarrow> stack_set \<Rightarrow> int \<Rightarrow> int \<Rightarrow> string" where
  "diffText defs ss from to = percentText defs ss from @ ARROW @ percentText defs ss to"

definition summary :: "unit_type list \<Rightarrow> stack_set \<Rightarrow> int \<Rightarrow> int \<Rightarrow> string" where
  "summary defs ss pos neg = (if is_diff ss then diffText defs ss neg pos else percentText defs ss pos)"

definition details :: "unit_type list \<Rightarrow> stack_set \<Rightarrow> box \<Rightarrow> string" where
  "details defs ss b =
     percentText defs ss (bpos b - bneg b)
     @ (if bself b \<noteq> 0 then BAR @ ''self '' @ unitText defs ss (bself b) else [])
     @ (if is_diff ss \<and> bpos b > 0 \<and> bneg b > 0 then BAR @ diffText defs ss (bneg b) (bpos b) else [])"

subsection \<open>Reading a decimal back\<close>

definition digit_val :: "char \<Rightarrow> nat" where
  "digit_val c = of_char c - 48"

definition digits_val :: "string \<Rightarrow> nat" where
  "digits_val s = foldl (\<lambda>n c. 10 * n + digit_val c) 0 s"

text \<open>The value of a decimal with an optional fraction.\<close>

definition decimal_val :: "string \<Rightarrow> rat" where
  "decimal_val s =
     (let int_part = takeWhile (\<lambda>c. c \<noteq> CHR ''.'') s; frac = tl (dropWhile (\<lambda>c. c \<noteq> CHR ''.'') s)
      in of_nat (digits_val int_part) + of_nat (digits_val frac) / 10 ^ length frac)"

lemma digit_val_digit [simp]: "d < 10 \<Longrightarrow> digit_val (digit d) = d"
  by (simp add: digit_val_def digit_def)

lemma digit_not_point [simp]: "d < 10 \<Longrightarrow> digit d \<noteq> CHR ''.''"
proof -
  assume "d < 10"
  then have "of_char (digit d) \<noteq> (of_char (CHR ''.'') :: nat)" by (simp add: digit_def)
  then show ?thesis by metis
qed

lemma digits_val_snoc [simp]: "digits_val (s @ [c]) = 10 * digits_val s + digit_val c"
  by (simp add: digits_val_def)

lemma digits_val_Nil [simp]: "digits_val [] = 0"
  by (simp add: digits_val_def)

lemma nat_text_val: "digits_val (nat_text n) = n \<and> CHR ''.'' \<notin> set (nat_text n)"
proof (induction n rule: nat_text.induct)
  case (1 n)
  then show ?case
    by (cases "n < 10") (auto simp: nat_text.simps [of n] digits_val_def [of "[_]"] dest: sym)
qed

lemma fraction_digits_val:
  "digits_val (fraction_digits f k) = k mod 10 ^ f \<and> length (fraction_digits f k) = f \<and> CHR ''.'' \<notin> set (fraction_digits f k)"
proof (induction f arbitrary: k)
  case 0
  then show ?case by simp
next
  case (Suc f)
  have "k mod 10 ^ Suc f = 10 * (k div 10 mod 10 ^ f) + k mod 10" by (simp add: mod_mult2_eq)
  then show ?case using Suc [of "k div 10"] by (auto dest: sym)
qed

lemma strip_zeros_val:
  "of_nat (digits_val (strip_zeros s)) / 10 ^ length (strip_zeros s) = (of_nat (digits_val s) / 10 ^ length s :: rat)
   \<and> set (strip_zeros s) \<subseteq> set s"
proof (induction s rule: rev_induct)
  case Nil
  then show ?case by (simp add: strip_zeros_def)
next
  case (snoc c s)
  then show ?case by (cases "c = digit 0") (auto simp: strip_zeros_def)
qed

lemma decimal_split:
  assumes "CHR ''.'' \<notin> set a"
  shows "takeWhile (\<lambda>c. c \<noteq> CHR ''.'') (a @ ''.'' @ b) = a" "dropWhile (\<lambda>c. c \<noteq> CHR ''.'') (a @ ''.'' @ b) = ''.'' @ b"
    "takeWhile (\<lambda>c. c \<noteq> CHR ''.'') a = a" "dropWhile (\<lambda>c. c \<noteq> CHR ''.'') a = []"
  using assms by (induction a) auto

lemma decimal_text_val: "decimal_val (decimal_text f k) = of_nat k / 10 ^ f"
proof -
  let ?i = "nat_text (k div 10 ^ f)" and ?frac = "strip_zeros (fraction_digits f k)"
  have i: "CHR ''.'' \<notin> set ?i" "digits_val ?i = k div 10 ^ f" using nat_text_val by blast+
  have fr: "of_nat (digits_val ?frac) / 10 ^ length ?frac = (of_nat (k mod 10 ^ f) / 10 ^ f :: rat)"
    using strip_zeros_val [of "fraction_digits f k"] fraction_digits_val [of f k] by simp
  have "decimal_val (decimal_text f k) = of_nat (k div 10 ^ f) + of_nat (digits_val ?frac) / 10 ^ length ?frac"
    using i decimal_split [OF i(1)] by (simp add: decimal_text_def decimal_val_def Let_def)
  also have "\<dots> = (of_nat (k div 10 ^ f) * 10 ^ f + of_nat (k mod 10 ^ f)) / 10 ^ f"
    unfolding fr by (simp add: add_divide_distrib)
  also have "of_nat (k div 10 ^ f) * 10 ^ f + of_nat (k mod 10 ^ f) = (of_nat k :: rat)"
    using arg_cong [OF div_mult_mod_eq [of k "10 ^ f"], of "of_nat :: nat \<Rightarrow> rat"] by simp
  finally show ?thesis .
qed

lemma toFixed_near: "0 \<le> x \<Longrightarrow> \<bar>of_nat (toFixed f x) / 10 ^ f - x\<bar> \<le> 1 / (2 * 10 ^ f)"
proof -
  assume x: "0 \<le> x"
  define n :: rat where "n = of_int \<lfloor>x * 10 ^ f + 1 / 2\<rfloor>"
  have n: "of_nat (toFixed f x) = n" using x by (simp add: toFixed_def n_def)
  have "n \<le> x * 10 ^ f + 1 / 2" "x * 10 ^ f + 1 / 2 < n + 1"
    unfolding n_def using floor_correct [of "x * 10 ^ f + 1 / 2"] unfolding of_int_add of_int_1 by blast+
  then have "\<bar>n - x * 10 ^ f\<bar> \<le> 1 / 2" by linarith
  then have "\<bar>n - x * 10 ^ f\<bar> / 10 ^ f \<le> (1 / 2) / 10 ^ f" by (rule divide_right_mono) simp
  moreover have "n / 10 ^ f - x = (n - x * 10 ^ f) / 10 ^ f" by (simp add: diff_divide_distrib)
  ultimately show ?thesis by (simp add: n)
qed

subsection \<open>Properties of the texts\<close>

lemma pick_unit_spec:
  assumes "us \<noteq> []" and "sorted_wrt (\<lambda>a b. Factor a < Factor b) us"
  shows "\<exists>u \<in> set us. pick_unit us v = Some u \<and> (u = hd us \<or> Factor u \<le> v) \<and>
    (\<forall>w \<in> set us. Factor u < Factor w \<longrightarrow> v < Factor w)"
  using assms
proof (induction us v rule: pick_unit.induct)
  case (3 u w us v)
  show ?case
  proof (cases "Factor w > v")
    case True
    then show ?thesis using "3.prems" by force
  next
    case False
    then obtain x where x: "x \<in> set (w # us)" "pick_unit (w # us) v = Some x" "x = w \<or> Factor x \<le> v"
      "\<forall>y \<in> set (w # us). Factor x < Factor y \<longrightarrow> v < Factor y"
      using "3.IH" "3.prems" by auto
    have "Factor u < Factor x" using x(1) "3.prems"(2) by auto
    then show ?thesis using False x by auto
  qed
qed auto

lemma fixed_text_val: "0 \<le> x \<Longrightarrow> \<bar>decimal_val (fixed_text f x) - x\<bar> \<le> 1 / (2 * 10 ^ f)"
  using toFixed_near [of x f] by (simp add: fixed_text_def Let_def decimal_text_val)

text \<open>
  C27. A value is shown in the largest unit that does not exceed it. For a unit the table knows, with
  factors in increasing order, the text is a sign, a decimal and the name of an entry: the decimal
  reads back as the value in that entry's unit up to half a hundredth, the entry's factor does not
  exceed the value unless it is the first, and every larger unit would exceed it.
\<close>

theorem unit_text_reads_back:
  assumes "find (\<lambda>d. CanonicalName (DefaultUnit d) = unit) defs = Some d"
    and "Units d \<noteq> []" and "sorted_wrt (\<lambda>a b. Factor a < Factor b) (Units d)"
    and "\<forall>u \<in> set (Units d). 0 < Factor u" and "0 < Factor (DefaultUnit d)"
    and v_def: "v = \<bar>value\<bar> * Factor (DefaultUnit d)"
  shows "\<exists>u \<in> set (Units d). \<exists>num.
    pprofUnitText defs value unit = (if value < 0 then ''-'' else []) @ num @ CanonicalName u \<and>
    \<bar>decimal_val num - v / Factor u\<bar> \<le> 1 / 200 \<and> (u = hd (Units d) \<or> Factor u \<le> v) \<and>
    (\<forall>w \<in> set (Units d). Factor u < Factor w \<longrightarrow> v < Factor w)"
proof -
  obtain u where u: "u \<in> set (Units d)" "pick_unit (Units d) v = Some u" "u = hd (Units d) \<or> Factor u \<le> v"
    "\<forall>w \<in> set (Units d). Factor u < Factor w \<longrightarrow> v < Factor w"
    using pick_unit_spec [OF assms(2,3), of v] by blast
  have "0 \<le> v / Factor u" using assms(4,5) u(1) by (simp add: v_def less_imp_le)
  then have "\<bar>decimal_val (fixed_text 2 (v / Factor u)) - v / Factor u\<bar> \<le> 1 / 200"
    using fixed_text_val [of "v / Factor u" 2] by simp
  moreover have "pprofUnitText defs value unit
      = (if value < 0 then ''-'' else []) @ fixed_text 2 (v / Factor u) @ CanonicalName u"
    using u(2) by (simp add: pprofUnitText_def assms(1) Let_def v_def)
  ultimately show ?thesis using u by blast
qed

definition time_units :: "unit_type list" where
  "time_units = [\<lparr>Units = [\<lparr>CanonicalName = ''ms'', Factor = 1000000\<rparr>, \<lparr>CanonicalName = ''s'', Factor = 1000000000\<rparr>],
                  DefaultUnit = \<lparr>CanonicalName = ''s'', Factor = 1000000000\<rparr>\<rparr>]"

theorem unit_text_reads_back_witness:
  "\<exists>(u :: unit_def) num. pprofUnitText time_units (1 / 2) ''s'' = num @ CanonicalName u \<and> \<bar>decimal_val num - 500000000 / Factor u\<bar> \<le> 1 / 200"
proof -
  let ?d = "hd time_units"
  have d: "find (\<lambda>d. CanonicalName (DefaultUnit d) = ''s'') time_units = Some ?d" by (simp add: time_units_def)
  have u: "Units ?d \<noteq> []" "sorted_wrt (\<lambda>a b. Factor a < Factor b) (Units ?d)" "\<forall>u \<in> set (Units ?d). 0 < Factor u"
    "0 < Factor (DefaultUnit ?d)" "500000000 = \<bar>1 / 2\<bar> * Factor (DefaultUnit ?d)"
    by (simp_all add: time_units_def)
  obtain u :: unit_def and num where "pprofUnitText time_units (1 / 2) ''s'' = (if (1 / 2 :: rat) < 0 then ''-'' else []) @ num @ CanonicalName u"
    "\<bar>decimal_val num - 500000000 / Factor u\<bar> \<le> 1 / 200"
    using unit_text_reads_back [OF d u] by blast
  then show ?thesis by (intro exI [of _ u] exI [of _ num]) simp
qed

end
