(* ===== verification/Page_Url.thy ===== *)
theory Page_Url
  imports Prelude
begin

section \<open>Query parameters, links and quoted expressions\<close>

text \<open>
  What the profile pages do with URLs and regular expressions: the operations of
  \<open>URLSearchParams\<close> that the pages call, \<open>setHrefParams\<close> and \<open>pprofQuoteMeta\<close> of
  \<open>plugin/debug/pkg/internal/driver/html/common.js\<close> and \<open>setHrefParam\<close> of \<open>stacks.js\<close>. A URL is
  what stands before the query, the query as an ordered list of parameters, and the fragment;
  percent-encoding is not modelled. Texts are byte strings. Of JavaScript's regular expressions
  only those that \<open>pprofQuoteMeta\<close> makes, and alternatives of them, have a meaning here.
\<close>

type_synonym params = "(string \<times> string) list"

record url =
  url_base :: string
  url_query :: params
  url_hash :: string

definition params_get :: "string \<Rightarrow> params \<Rightarrow> string option" where
  "params_get k ps = map_of ps k"

definition params_has :: "string \<Rightarrow> params \<Rightarrow> bool" where
  "params_has k ps \<longleftrightarrow> (\<exists>p \<in> set ps. fst p = k)"

definition params_delete :: "string \<Rightarrow> params \<Rightarrow> params" where
  "params_delete k ps = filter (\<lambda>p. fst p \<noteq> k) ps"

text \<open>\<open>set\<close> replaces the first entry of that name, drops the others, or appends.\<close>

fun params_set :: "string \<Rightarrow> string \<Rightarrow> params \<Rightarrow> params" where
  "params_set k v [] = [(k, v)]"
| "params_set k v (p # ps) = (if fst p = k then (k, v) # params_delete k ps else p # params_set k v ps)"

definition params_copy :: "params \<Rightarrow> params \<Rightarrow> params" where
  "params_copy from into = foldl (\<lambda>ps p. params_set (fst p) (snd p) ps) into from"

lemma get_delete [simp]: "params_get k (params_delete j ps) = (if k = j then None else params_get k ps)"
  by (induction ps) (auto simp: params_get_def params_delete_def)

lemma get_set [simp]: "params_get k (params_set j v ps) = (if k = j then Some v else params_get k ps)"
proof (induction ps)
  case Nil
  then show ?case by (simp add: params_get_def)
next
  case (Cons p ps)
  then show ?case using get_delete [of k j ps] by (cases p) (auto simp: params_get_def)
qed

lemma has_get: "params_has k ps \<longleftrightarrow> params_get k ps \<noteq> None"
  by (auto simp: params_has_def params_get_def map_of_eq_None_iff)

text \<open>The last value the page gives a parameter wins over the value the link had.\<close>

lemma get_copy: "params_get k (params_copy from into) =
    (case params_get k (rev from) of None \<Rightarrow> params_get k into | Some v \<Rightarrow> Some v)"
proof (induction "from" arbitrary: into)
  case Nil
  then show ?case by (simp add: params_copy_def params_get_def)
next
  case (Cons p "from")
  have "params_get k (rev (p # from)) = (case params_get k (rev from) of None \<Rightarrow> params_get k [p] | Some v \<Rightarrow> Some v)"
    by (cases p) (simp add: params_get_def map_add_def split: option.split)
  then show ?case
    using Cons [of "params_set (fst p) (snd p) into"]
    by (auto simp: params_copy_def params_get_def [of k "[p]"] split: option.splits)
qed

subsection \<open>Links\<close>

definition setHrefParams :: "params \<Rightarrow> (params \<Rightarrow> params) \<Rightarrow> url \<Rightarrow> url" where
  "setHrefParams page paramSetter href =
     (let u = href\<lparr>url_hash := []\<rparr>
      in u\<lparr>url_query := paramSetter (params_copy page (url_query u))\<rparr>)"

lemma setHrefParams_simps [simp]:
  "url_base (setHrefParams page f href) = url_base href" "url_hash (setHrefParams page f href) = []"
  "url_query (setHrefParams page f href) = f (params_copy page (url_query href))"
  by (simp_all add: setHrefParams_def Let_def)

subsection \<open>Quoting\<close>

definition is_meta :: "char \<Rightarrow> bool" where
  "is_meta c \<longleftrightarrow> c = CHR 0x5C \<or> c \<in> set ''.?+*[](){}|^$''"

fun quote_body :: "string \<Rightarrow> string" where
  "quote_body [] = []"
| "quote_body (c # cs) = (if is_meta c then [CHR 0x5C, c] else [c]) @ quote_body cs"

definition pprofQuoteMeta :: "string \<Rightarrow> string" where
  "pprofQuoteMeta str = ''^'' @ quote_body str @ ''$''"

text \<open>\<open>join\<close> of an array with a bar between the texts.\<close>

fun join_bars :: "string list \<Rightarrow> string" where
  "join_bars [] = []"
| "join_bars [s] = s"
| "join_bars (s # ss) = s @ ''|'' @ join_bars ss"

text \<open>
  The meaning of such expressions: alternatives are separated by bars outside an escape, an
  alternative that is anchored at both ends and else consists of literal and escaped characters
  matches one text. Other expressions have no meaning here (None).
\<close>

fun split_bars :: "string \<Rightarrow> string list" where
  "split_bars [] = [[]]"
| "split_bars (c # cs) =
     (if c = CHR ''|'' then [] # split_bars cs
      else if c = CHR 0x5C \<and> cs \<noteq> []
      then (case split_bars (tl cs) of [] \<Rightarrow> [] | a # as \<Rightarrow> (c # hd cs # a) # as)
      else (case split_bars cs of [] \<Rightarrow> [] | a # as \<Rightarrow> (c # a) # as))"

fun literal :: "string \<Rightarrow> string option" where
  "literal [] = None"
| "literal (c # cs) =
     (if c = CHR ''$'' then (if cs = [] then Some [] else None)
      else if c = CHR 0x5C
      then (if cs \<noteq> [] \<and> is_meta (hd cs) then map_option (Cons (hd cs)) (literal (tl cs)) else None)
      else if is_meta c then None else map_option (Cons c) (literal cs))"

definition anchored :: "string \<Rightarrow> string option" where
  "anchored p = (case p of [] \<Rightarrow> None | c # cs \<Rightarrow> if c = CHR ''^'' then literal cs else None)"

definition literal_test :: "string \<Rightarrow> string \<Rightarrow> bool option" where
  "literal_test re text = map_option (\<lambda>alts. text \<in> set alts) (those (map anchored (split_bars re)))"

lemma literal_quote: "literal (quote_body s @ ''$'') = Some s"
  by (induction s) (auto simp: is_meta_def)

lemma anchored_quote [simp]: "anchored (pprofQuoteMeta s) = Some s"
  by (simp add: anchored_def pprofQuoteMeta_def literal_quote [simplified])

lemma split_nonempty: "split_bars cs \<noteq> []"
  by (induction cs rule: split_bars.induct) (auto split: list.split)

text \<open>Quoting leaves no bar outside an escape.\<close>

lemma split_quote_body:
  "split_bars (quote_body s @ rest) = (case split_bars rest of a # as \<Rightarrow> (quote_body s @ a) # as)"
proof (induction s)
  case Nil
  then show ?case using split_nonempty [of rest] by (cases "split_bars rest") auto
next
  case (Cons c s)
  have m: "\<not> is_meta c \<Longrightarrow> c \<noteq> CHR ''|'' \<and> c \<noteq> CHR 0x5C" by (auto simp: is_meta_def)
  show ?case
    using Cons m split_nonempty [of rest] by (cases "split_bars rest") auto
qed

lemma split_quote: "split_bars (pprofQuoteMeta s) = [pprofQuoteMeta s]"
  "split_bars (pprofQuoteMeta s @ ''|'' @ rest) = pprofQuoteMeta s # split_bars rest"
  using split_quote_body [of s "''$''"] split_quote_body [of s "''$|'' @ rest"]
  by (simp_all add: pprofQuoteMeta_def)

lemma split_join: "names \<noteq> [] \<Longrightarrow> split_bars (join_bars (map pprofQuoteMeta names)) = map pprofQuoteMeta names"
proof (induction names)
  case Nil
  then show ?case by simp
next
  case (Cons s names)
  then show ?case by (cases names) (simp_all add: split_quote [simplified])
qed

lemma those_anchored: "those (map anchored (map pprofQuoteMeta names)) = Some names"
  by (induction names) simp_all

lemma literal_test_join:
  "names \<noteq> [] \<Longrightarrow> literal_test (join_bars (map pprofQuoteMeta names)) t = Some (t \<in> set names)"
  by (simp add: literal_test_def split_join those_anchored [simplified])

lemma literal_test_quote: "literal_test (pprofQuoteMeta s) t = Some (t = s)"
  using literal_test_join [of "[s]" t] by simp

end
