(* ===== verification/Stack_Viewer.thy ===== *)
theory Stack_Viewer
  imports Profile_Text Page_Url
begin

section \<open>The flame graph page\<close>

text \<open>
  The state and the event handlers of \<open>stackViewer\<close> in \<open>stacks.js\<close>: rendering with the
  registration of elements, highlighting, the details line, the action menu and its links, and
  pivoting. The browser's parts are fields of the environment: \<open>compile\<close> is the constructor
  \<open>RegExp\<close> (None if it throws, else the test), \<open>textWidth\<close> the canvas's text measure. The elements
  of a source are the list that \<open>elems\<close> maps it to; an event names its element by source and
  index.
\<close>

record env =
  stacks :: stack_set
  unitDefs :: "unit_type list"
  compile :: "string \<Rightarrow> (string \<Rightarrow> bool) option"
  textWidth :: "string \<Rightarrow> rat"
  bodySize :: "rat \<times> rat"
  menuSize :: "rat \<times> rat"

record elem =
  eBox :: box
  eDrawn :: drawn
  eClasses :: "string set"
  eTitle :: string
  eDown :: "rat \<times> rat"

record stack_view =
  pivots :: "nat list"
  matches :: "nat set"
  elems :: "nat \<Rightarrow> elem list"
  displayList :: "box list"
  actionMenuOn :: bool
  actionTarget :: "box option"
  shown :: int
  chartWidth :: rat
  chartHeight :: rat
  separator :: "(rat \<times> rat \<times> rat \<times> string) option" \<comment> \<open>top, left, width, text\<close>
  menuVisible :: bool
  menuPos :: "rat \<times> rat"
  actionTitle :: string
  leftDetail :: string
  rightDetail :: string
  links :: "string \<Rightarrow> url option"
  page :: url
  history :: "url list"
  searchValue :: string

definition source_at :: "env \<Rightarrow> nat \<Rightarrow> source_info" where
  "source_at E i = Sources (stacks E) ! i"

subsection \<open>Classes of elements\<close>

definition set_class :: "string \<Rightarrow> bool \<Rightarrow> elem \<Rightarrow> elem" where
  "set_class cl on e = e\<lparr>eClasses := (if on then insert cl (eClasses e) else eClasses e - {cl})\<rparr>"

definition toggleClass :: "nat \<Rightarrow> string \<Rightarrow> bool \<Rightarrow> stack_view \<Rightarrow> stack_view" where
  "toggleClass src cl on v = v\<lparr>elems := (elems v)(src := map (set_class cl on) (elems v src))\<rparr>"

definition hilite :: "nat \<Rightarrow> bool \<Rightarrow> stack_view \<Rightarrow> bool \<times> stack_view" where
  "hilite src on v =
     (let v = (if on then v\<lparr>matches := insert src (matches v)\<rparr> else v\<lparr>matches := matches v - {src}\<rparr>)
      in (True, toggleClass src ''hilite'' on v))"

definition addElem :: "nat \<Rightarrow> elem \<Rightarrow> stack_view \<Rightarrow> stack_view" where
  "addElem src e v = v\<lparr>elems := (elems v)(src := elems v src @ [set_class ''hilite'' (src \<in> matches v) e])\<rparr>"

subsection \<open>Rendering\<close>

text \<open>\<open>drawBox\<close> registers the element it makes and gives it its other class.\<close>

definition box_elem :: "env \<Rightarrow> rat \<Rightarrow> box \<Rightarrow> elem" where
  "box_elem E xscale b =
     \<lparr>eBox = b, eDrawn = drawBox (stacks E) (textWidth E) xscale b,
      eClasses = (if Inlined (source_at E (bsrc b)) then {''boxbg''} else {''boxbg'', ''not-inlined''}),
      eTitle = [], eDown = (- 1, - 1)\<rparr>"

definition draw_all :: "env \<Rightarrow> rat \<Rightarrow> box list \<Rightarrow> stack_view \<Rightarrow> stack_view" where
  "draw_all E xscale bs v = fold (\<lambda>b. addElem (bsrc b) (box_elem E xscale b)) bs v"

definition clearDetails :: "env \<Rightarrow> stack_view \<Rightarrow> stack_view" where
  "clearDetails E v = v\<lparr>leftDetail := [], rightDetail := percentText (unitDefs E) (stacks E) (shown v)\<rparr>"

text \<open>\<open>render\<close>; None if the displayed total is 0, when the coordinates are not numbers.\<close>

definition render_page :: "env \<Rightarrow> stack_view \<Rightarrow> stack_view option" where
  "render_page E v =
     (let ss = stacks E;
          pv = urlPivots ss (compile E) (params_get ''p'' (url_query (page v)));
          (pos, neg) = totalValue ss (render_places ss pv)
      in case (render ss (chartWidth v) pv, render_scale ss (chartWidth v) pv) of
           (Some (total_shown, showPivotSummary, boxes), Some xscale) \<Rightarrow>
             let (list, sepTop, h) = display boxes;
                 v = v\<lparr>pivots := pv, elems := (\<lambda>_. []), actionTarget := None, shown := total_shown, displayList := list\<rparr>;
                 v = draw_all E xscale list v
             in Some (v\<lparr>separator := (if showPivotSummary
                           then Some (sepTop, PADDING, chartWidth v - PADDING * 2, summary (unitDefs E) ss pos neg) else None),
                        chartHeight := h\<rparr>)
         | _ \<Rightarrow> None)"

subsection \<open>Links of the action menu\<close>

text \<open>\<open>strip_line\<close> removes a suffix \<open>:<line>\<close>: \<open>replace(/:[0-9]+$/, '')\<close>.\<close>

definition is_digit :: "char \<Rightarrow> bool" where
  "is_digit c \<longleftrightarrow> c \<in> set ''0123456789''"

definition strip_line :: "string \<Rightarrow> string" where
  "strip_line s =
     (let ds = takeWhile is_digit (rev s); rest = dropWhile is_digit (rev s)
      in if ds \<noteq> [] \<and> rest \<noteq> [] \<and> hd rest = CHR '':'' then rev (tl rest) else s)"

definition add_source_param :: "env \<Rightarrow> string \<Rightarrow> nat \<Rightarrow> params \<Rightarrow> params" where
  "add_source_param E param src ps =
     (let w = pprofQuoteMeta (strip_line (FullName (source_at E src)));
          w = (if param \<noteq> ''f'' \<and> param \<noteq> ''sf''
               then (case params_get param ps of
                       None \<Rightarrow> w | Some old \<Rightarrow> if old \<noteq> [] then w @ ''|'' @ old else w)
               else w)
      in params_set param w ps)"

definition setHrefParam :: "env \<Rightarrow> string \<Rightarrow> string \<Rightarrow> nat \<Rightarrow> stack_view \<Rightarrow> stack_view" where
  "setHrefParam E i param src v =
     (case links v i of
        None \<Rightarrow> v
      | Some href \<Rightarrow>
          v\<lparr>links := (links v)(i \<mapsto> setHrefParams (url_query (page v)) (add_source_param E param src) href)\<rparr>)"

definition menu_links :: "(string \<times> string) list" where
  "menu_links = [(''action-source'', ''f''), (''action-source-tab'', ''f''), (''action-focus'', ''f''),
                 (''action-ignore'', ''i''), (''action-hide'', ''h''), (''action-showfrom'', ''sf'')]"

definition showActionMenu :: "env \<Rightarrow> rat \<times> rat \<Rightarrow> box \<Rightarrow> stack_view \<Rightarrow> stack_view" where
  "showActionMenu E client b v =
     (if bsrc b = 0 then v
      else
        let v = v\<lparr>actionTitle := last_text (Display (source_at E (bsrc b))), menuVisible := True,
                  menuPos := (min (fst client - 10) (fst (bodySize E) - fst (menuSize E)),
                              min (snd client - 10) (snd (bodySize E) - snd (menuSize E)))\<rparr>;
            v = fold (\<lambda>(i, param). setHrefParam E i param (bsrc b)) menu_links v;
            v = toggleClass (bsrc b) ''hilite2'' True v
        in v\<lparr>actionTarget := Some b, actionMenuOn := True\<rparr>)"

definition hideActionMenu :: "stack_view \<Rightarrow> stack_view" where
  "hideActionMenu v =
     (let v = v\<lparr>menuVisible := False, actionMenuOn := False\<rparr>
      in case actionTarget v of None \<Rightarrow> v | Some b \<Rightarrow> toggleClass (bsrc b) ''hilite2'' False v)"

text \<open>The \<open>mousedown\<close> handler of the document.\<close>

definition page_mousedown :: "bool \<Rightarrow> stack_view \<Rightarrow> stack_view" where
  "page_mousedown in_menu v = (if \<not> in_menu then hideActionMenu v else v)"

subsection \<open>Hovering and pivoting\<close>

definition handleEnter :: "env \<Rightarrow> nat \<Rightarrow> nat \<Rightarrow> stack_view \<Rightarrow> stack_view" where
  "handleEnter E src i v =
     (if actionMenuOn v then v
      else
        let b = eBox (elems v src ! i); info = source_at E (bsrc b);
            txt = details (unitDefs E) (stacks E) b @ BAR @ FullName info @ (if Inlined info then CHR 0x0A # ''(inlined)'' else []);
            timing = summary (unitDefs E) (stacks E) (bpos b) (bneg b);
            timing = (if bself b \<noteq> 0 then ''self '' @ unitText (unitDefs E) (stacks E) (bself b) @ BAR @ timing else timing);
            v = v\<lparr>elems := (elems v)(src := (elems v src)[i := (elems v src ! i)\<lparr>eTitle := txt\<rparr>]),
                  leftDetail := FullName info @ (if Inlined info then '' (inlined)'' else []),
                  rightDetail := timing\<rparr>
        in toggleClass (bsrc b) ''hilite2'' True v)"

definition handleLeave :: "env \<Rightarrow> nat \<Rightarrow> nat \<Rightarrow> stack_view \<Rightarrow> stack_view" where
  "handleLeave E src i v =
     (if actionMenuOn v then v
      else let b = eBox (elems v src ! i) in toggleClass (bsrc b) ''hilite2'' False (clearDetails E v))"

definition switchPivots :: "env \<Rightarrow> string \<Rightarrow> stack_view \<Rightarrow> stack_view option" where
  "switchPivots E regexp v =
     (let u = page v;
          u = (if regexp = [] \<or> regexp = ''^$'' then u\<lparr>url_query := params_delete ''p'' (url_query u)\<rparr>
               else u\<lparr>url_query := params_set ''p'' regexp (url_query u)\<rparr>)
      in render_page E (v\<lparr>page := u, history := history v @ [u], matches := {}, searchValue := []\<rparr>))"

definition handleSearchKey :: "env \<Rightarrow> string \<Rightarrow> stack_view \<Rightarrow> stack_view option" where
  "handleSearchKey E key v =
     (if key \<noteq> ''Enter'' then Some v
      else case compile E (searchValue v) of
             None \<Rightarrow> Some v
           | Some _ \<Rightarrow> switchPivots E (searchValue v) v)"

text \<open>The listeners of \<open>onClick\<close>: the press is remembered, and a click near it pivots.\<close>

definition box_mousedown :: "rat \<times> rat \<Rightarrow> nat \<Rightarrow> nat \<Rightarrow> stack_view \<Rightarrow> stack_view" where
  "box_mousedown client src i v =
     v\<lparr>elems := (elems v)(src := (elems v src)[i := (elems v src ! i)\<lparr>eDown := client\<rparr>])\<rparr>"

definition box_click :: "env \<Rightarrow> rat \<times> rat \<Rightarrow> nat \<Rightarrow> nat \<Rightarrow> stack_view \<Rightarrow> stack_view option" where
  "box_click E client src i v =
     (let e = elems v src ! i
      in if click_accepted (eDown e) client
         then switchPivots E (pprofQuoteMeta (UniqueName (source_at E (bsrc (eBox e))))) v
         else Some v)"

text \<open>\<open>options.current\<close>: the pivots as the current selection, none when not pivoting.\<close>

definition current_selection :: "stack_view \<Rightarrow> nat list" where
  "current_selection v = (if length (pivots v) = 1 \<and> hd (pivots v) = 0 then [] else pivots v)"

subsection \<open>What the handlers keep\<close>

named_theorems view_simps "effects of the handlers on the fields of the page"

lemma toggle_fields [view_simps]:
  "elems (toggleClass src cl on v) = (elems v)(src := map (set_class cl on) (elems v src))"
  "matches (toggleClass src cl on v) = matches v" "displayList (toggleClass src cl on v) = displayList v"
  "pivots (toggleClass src cl on v) = pivots v"
  by (simp_all add: toggleClass_def)

lemma set_class_simps [simp]:
  "eBox (set_class cl on e) = eBox e"
  "c \<in> eClasses (set_class cl on e) \<longleftrightarrow> (if c = cl then on else c \<in> eClasses e)"
  by (auto simp: set_class_def)

lemma draw_all_fields [view_simps]:
  "elems (draw_all E xscale bs v) src = elems v src
     @ map (\<lambda>b. set_class ''hilite'' (src \<in> matches v) (box_elem E xscale b)) (filter (\<lambda>b. bsrc b = src) bs)"
  "matches (draw_all E xscale bs v) = matches v" "displayList (draw_all E xscale bs v) = displayList v"
  "pivots (draw_all E xscale bs v) = pivots v"
proof (induction bs arbitrary: v)
  case Nil
  { case 1 show ?case by (simp add: draw_all_def) }
  { case 2 show ?case by (simp add: draw_all_def) }
  { case 3 show ?case by (simp add: draw_all_def) }
  { case 4 show ?case by (simp add: draw_all_def) }
next
  case (Cons b bs)
  have d: "draw_all E xscale (b # bs) v = draw_all E xscale bs (addElem (bsrc b) (box_elem E xscale b) v)" for v
    by (simp add: draw_all_def)
  { case 1 show ?case by (simp add: d Cons addElem_def) }
  { case 2 show ?case by (simp add: d Cons addElem_def) }
  { case 3 show ?case by (simp add: d Cons addElem_def) }
  { case 4 show ?case by (simp add: d Cons addElem_def) }
qed

lemma setHrefParam_fields [view_simps]:
  "elems (setHrefParam E i param src v) = elems v" "matches (setHrefParam E i param src v) = matches v"
  "displayList (setHrefParam E i param src v) = displayList v" "page (setHrefParam E i param src v) = page v"
  "links (setHrefParam E i param src v) j =
     (if j = i then map_option (setHrefParams (url_query (page v)) (add_source_param E param src)) (links v i) else links v j)"
  by (simp_all add: setHrefParam_def split: option.split)

text \<open>
  Each source's elements are those of its boxes in the display list; they carry the class
  \<open>hilite\<close> exactly when the source matches the search, and share the class \<open>hilite2\<close>.
\<close>

definition src_ok :: "nat set \<Rightarrow> box list \<Rightarrow> nat \<Rightarrow> elem list \<Rightarrow> bool" where
  "src_ok M bs src es \<longleftrightarrow>
     map eBox es = filter (\<lambda>b. bsrc b = src) bs \<and>
     (\<forall>e \<in> set es. ''hilite'' \<in> eClasses e \<longleftrightarrow> src \<in> M) \<and>
     (\<exists>on. \<forall>e \<in> set es. ''hilite2'' \<in> eClasses e \<longleftrightarrow> on)"

definition view_ok :: "stack_view \<Rightarrow> bool" where
  "view_ok v \<longleftrightarrow> (\<forall>src. src_ok (matches v) (displayList v) src (elems v src))"

lemma view_ok_cong:
  "elems v = elems w \<Longrightarrow> matches v = matches w \<Longrightarrow> displayList v = displayList w \<Longrightarrow> view_ok v \<longleftrightarrow> view_ok w"
  by (simp add: view_ok_def)

lemma src_ok_iff:
  "src_ok M bs s es \<longleftrightarrow> map eBox es = filter (\<lambda>b. bsrc b = s) bs \<and>
     (\<forall>c \<in> set (map eClasses es). ''hilite'' \<in> c \<longleftrightarrow> s \<in> M) \<and>
     (\<exists>on. \<forall>c \<in> set (map eClasses es). ''hilite2'' \<in> c \<longleftrightarrow> on)"
  by (simp add: src_ok_def)

lemma src_ok_src: "src_ok M bs src es \<Longrightarrow> e \<in> set es \<Longrightarrow> bsrc (eBox e) = src"
proof -
  assume "src_ok M bs src es" "e \<in> set es"
  then have "eBox e \<in> set (filter (\<lambda>b. bsrc b = src) bs)" by (metis src_ok_def image_eqI list.set_map)
  then show ?thesis by simp
qed

lemma src_ok_toggle: "src_ok M bs src es \<Longrightarrow> src_ok M bs src (map (set_class ''hilite2'' on) es)"
  by (simp add: src_ok_def comp_def)

lemma view_ok_toggle: "view_ok v \<Longrightarrow> view_ok (toggleClass src ''hilite2'' on v)"
  by (auto simp: view_ok_def view_simps intro: src_ok_toggle)

lemma view_ok_update:
  assumes "view_ok v" and "i < length (elems v src)" and "eBox e = eBox (elems v src ! i)" and "eClasses e = eClasses (elems v src ! i)"
  shows "view_ok (v\<lparr>elems := (elems v)(src := (elems v src)[i := e])\<rparr>)"
proof -
  let ?es = "elems v src"
  have m: "map eBox (?es[i := e]) = map eBox ?es" "map eClasses (?es[i := e]) = map eClasses ?es"
    using assms(2-4) by (simp_all add: map_update list_update_same_conv)
  have "src_ok M bs src (?es[i := e]) \<longleftrightarrow> src_ok M bs src ?es" for M bs
    by (simp only: src_ok_iff m)
  then show ?thesis using assms(1) by (simp add: view_ok_def)
qed

lemma src_ok_hilite:
  "src_ok M bs src es \<Longrightarrow> src_ok (insert src M) bs src (map (set_class ''hilite'' True) es)"
  "src_ok M bs src es \<Longrightarrow> src_ok (M - {src}) bs src (map (set_class ''hilite'' False) es)"
  "s \<noteq> src \<Longrightarrow> src_ok (insert src M) bs s es \<longleftrightarrow> src_ok M bs s es"
  "s \<noteq> src \<Longrightarrow> src_ok (M - {src}) bs s es \<longleftrightarrow> src_ok M bs s es"
  by (simp_all add: src_ok_def comp_def)

lemma view_ok_hilite: "view_ok v \<Longrightarrow> view_ok (snd (hilite src on v))"
  by (cases on) (simp_all add: view_ok_def hilite_def Let_def view_simps src_ok_hilite)

lemma view_ok_hide: "view_ok v \<Longrightarrow> view_ok (hideActionMenu v)"
proof -
  assume ok: "view_ok v"
  have "view_ok (v\<lparr>menuVisible := False, actionMenuOn := False\<rparr>)" using ok by (simp add: view_ok_def)
  then show ?thesis by (simp add: hideActionMenu_def Let_def view_ok_toggle split: option.split)
qed

lemma fold_links_fields:
  "elems (fold (\<lambda>(i, param). setHrefParam E i param src) ls v) = elems v"
  "matches (fold (\<lambda>(i, param). setHrefParam E i param src) ls v) = matches v"
  "displayList (fold (\<lambda>(i, param). setHrefParam E i param src) ls v) = displayList v"
  by (induction ls arbitrary: v) (auto simp: view_simps)

lemma view_ok_menu: "view_ok v \<Longrightarrow> view_ok (showActionMenu E client b v)"
proof -
  assume ok: "view_ok v"
  let ?v = "fold (\<lambda>(i, param). setHrefParam E i param (bsrc b)) menu_links
      (v\<lparr>actionTitle := last_text (Display (source_at E (bsrc b))), menuVisible := True,
         menuPos := (min (fst client - 10) (fst (bodySize E) - fst (menuSize E)),
                     min (snd client - 10) (snd (bodySize E) - snd (menuSize E)))\<rparr>)"
  have "view_ok ?v" using ok by (simp add: view_ok_def fold_links_fields)
  then have "view_ok (toggleClass (bsrc b) ''hilite2'' True ?v)" by (rule view_ok_toggle)
  then show ?thesis using ok by (simp add: showActionMenu_def Let_def view_ok_def)
qed

lemma view_ok_enter: "view_ok v \<Longrightarrow> i < length (elems v src) \<Longrightarrow> view_ok (handleEnter E src i v)"
proof -
  assume ok: "view_ok v" and i: "i < length (elems v src)"
  have "view_ok (v\<lparr>elems := (elems v)(src := (elems v src)[i := (elems v src ! i)\<lparr>eTitle := t\<rparr>]), leftDetail := l, rightDetail := r\<rparr>)" for t l r
    using view_ok_update [OF ok i, of "(elems v src ! i)\<lparr>eTitle := t\<rparr>"] by (simp add: view_ok_def)
  then show ?thesis using ok by (simp add: handleEnter_def Let_def view_ok_toggle)
qed

lemma view_ok_leave: "view_ok v \<Longrightarrow> view_ok (handleLeave E src i v)"
proof -
  assume ok: "view_ok v"
  then have "view_ok (clearDetails E v)" by (simp add: view_ok_def clearDetails_def)
  then show ?thesis using ok by (simp add: handleLeave_def Let_def view_ok_toggle)
qed

lemma view_ok_press: "view_ok v \<Longrightarrow> i < length (elems v src) \<Longrightarrow> view_ok (box_mousedown client src i v)"
  unfolding box_mousedown_def by (rule view_ok_update) simp_all

lemma render_page_spec:
  assumes "render_page E v = Some w"
  shows "view_ok w \<and> matches w = matches v \<and>
    pivots w = urlPivots (stacks E) (compile E) (params_get ''p'' (url_query (page v)))"
proof -
  have "src_ok M bs src (map (\<lambda>b. set_class ''hilite'' (src \<in> M) (box_elem E x b)) (filter (\<lambda>b. bsrc b = src) bs))" for M bs src x
    by (auto simp: src_ok_def comp_def box_elem_def split: if_splits)
  then show ?thesis
    using assms by (auto simp: render_page_def Let_def view_ok_def view_simps split: prod.splits option.splits)
qed

lemma switchPivots_spec:
  assumes "switchPivots E regexp v = Some w"
  shows "view_ok w" "matches w = {}"
    "pivots w = urlPivots (stacks E) (compile E) (if regexp = [] \<or> regexp = ''^$'' then None else Some regexp)"
  using render_page_spec [OF assms [unfolded switchPivots_def Let_def]] by (auto split: if_splits)

subsection \<open>Events\<close>

text \<open>
  The page's events, in any order. \<open>hover\<close>, \<open>unhover\<close>, \<open>menu\<close>, \<open>press\<close> and \<open>click\<close> happen at an
  element on the page; \<open>search_hit\<close> is the call of \<open>hilite\<close> by the search of \<open>common.js\<close>; \<open>go_back\<close>
  is a \<open>popstate\<close> with whatever URL the browser goes back to.
\<close>

inductive view_step :: "env \<Rightarrow> stack_view \<Rightarrow> stack_view \<Rightarrow> bool" for E where
  hover: "i < length (elems v src) \<Longrightarrow> view_step E v (handleEnter E src i v)"
| unhover: "i < length (elems v src) \<Longrightarrow> view_step E v (handleLeave E src i v)"
| menu: "i < length (elems v src) \<Longrightarrow> view_step E v (showActionMenu E client (eBox (elems v src ! i)) v)"
| page_press: "view_step E v (page_mousedown in_menu v)"
| menu_click: "view_step E v (hideActionMenu v)"
| press: "i < length (elems v src) \<Longrightarrow> view_step E v (box_mousedown client src i v)"
| click: "i < length (elems v src) \<Longrightarrow> box_click E client src i v = Some w \<Longrightarrow> view_step E v w"
| typed: "view_step E v (v\<lparr>searchValue := txt\<rparr>)"
| key: "handleSearchKey E k v = Some w \<Longrightarrow> view_step E v w"
| search_hit: "view_step E v (snd (hilite n on v))"
| resize: "render_page E (v\<lparr>chartWidth := width\<rparr>) = Some w \<Longrightarrow> view_step E v w"
| go_back: "render_page E (v\<lparr>page := u\<rparr>) = Some w \<Longrightarrow> view_step E v w"

inductive view_reach :: "env \<Rightarrow> stack_view \<Rightarrow> stack_view \<Rightarrow> bool" for E v0 where
  start: "render_page E v0 = Some v \<Longrightarrow> view_reach E v0 (clearDetails E v)"
| step: "view_reach E v0 v \<Longrightarrow> view_step E v w \<Longrightarrow> view_reach E v0 w"

lemma view_step_ok: "view_step E v w \<Longrightarrow> view_ok v \<Longrightarrow> view_ok w"
proof (induction rule: view_step.induct)
  case (click i v src client w)
  then show ?case by (auto simp: box_click_def Let_def dest: switchPivots_spec(1) split: if_splits)
next
  case (typed v s)
  then show ?case by (simp add: view_ok_def)
next
  case (key k v w)
  then show ?case by (auto simp: handleSearchKey_def dest: switchPivots_spec(1) split: if_splits option.splits)
next
  case (page_press v in_menu)
  then show ?case by (simp add: page_mousedown_def view_ok_hide)
qed (auto dest: render_page_spec intro: view_ok_enter view_ok_leave view_ok_menu view_ok_hide view_ok_press view_ok_hilite)


subsection \<open>Pivoting\<close>

lemma quote_nonempty [simp]: "pprofQuoteMeta s \<noteq> []" "pprofQuoteMeta s = ''^$'' \<longleftrightarrow> s = []"
  by (cases s; simp add: pprofQuoteMeta_def)+

text \<open>
  C26. A click pivots on the clicked source. If \<open>RegExp\<close> gives anchored, escaped texts their meaning
  (a quoted text matches itself only), an accepted click on a box of a source with a name leaves as
  pivots exactly the sources with that unique name or with that file name, among them the clicked
  one; nothing is highlighted any more and the search box is empty.
\<close>

theorem click_pivots_on_its_source:
  assumes "\<forall>p t b. literal_test p t = Some b \<longrightarrow> (\<exists>re. compile E p = Some re \<and> re t = b)"
    and "click_accepted (eDown (elems v src ! i)) client"
    and "name = UniqueName (source_at E (bsrc (eBox (elems v src ! i))))" and "name \<noteq> []"
    and "bsrc (eBox (elems v src ! i)) < length (Sources (stacks E))"
    and "box_click E client src i v = Some w"
  shows "pivots w = filter (\<lambda>j. UniqueName (source_at E j) = name \<or> FileName (source_at E j) = name) [0..<length (Sources (stacks E))] \<and>
    bsrc (eBox (elems v src ! i)) \<in> set (pivots w) \<and> matches w = {}"
proof -
  have re: "\<exists>re. compile E (pprofQuoteMeta name) = Some re \<and> re t = (t = name)" for t
    using assms(1) literal_test_quote [of name t] by blast
  then obtain re where r: "compile E (pprofQuoteMeta name) = Some re" by blast
  have rt: "re t = (t = name)" for t using re [of t] r by auto
  have s: "switchPivots E (pprofQuoteMeta name) v = Some w"
    using assms(2,6) by (simp add: box_click_def Let_def flip: assms(3))
  let ?ps = "filter (\<lambda>j. UniqueName (source_at E j) = name \<or> FileName (source_at E j) = name) [0..<length (Sources (stacks E))]"
  have mem: "bsrc (eBox (elems v src ! i)) \<in> set ?ps" using assms(3,5) by simp
  then have "?ps \<noteq> []" by (metis empty_iff list.set(1))
  then have "pivots w = ?ps"
    using switchPivots_spec(3) [OF s] assms(4) by (simp add: urlPivots_def r rt source_at_def)
  then show ?thesis using mem switchPivots_spec(2) [OF s] by (simp only:)
qed

subsection \<open>The links of the menu\<close>

lemma fold_links_page: "page (fold (\<lambda>(i, param). setHrefParam E i param src) ls v) = page v"
  by (induction ls arbitrary: v) (auto simp: view_simps)

lemma fold_links:
  "distinct (map fst ls) \<Longrightarrow> links (fold (\<lambda>(i, param). setHrefParam E i param src) ls v) j =
     (case map_of ls j of
        None \<Rightarrow> links v j
      | Some param \<Rightarrow> map_option (setHrefParams (url_query (page v)) (add_source_param E param src)) (links v j))"
proof (induction ls arbitrary: v)
  case Nil
  then show ?case by simp
next
  case (Cons l ls)
  obtain i param where l: "l = (i, param)" by fastforce
  have "map_of ls i = None" using Cons.prems l by (simp add: map_of_eq_None_iff)
  then show ?case using Cons l by (auto simp: view_simps split: option.split)
qed

lemma menu_links_of: "distinct (map fst menu_links)" by (simp add: menu_links_def)

text \<open>
  The links of the action menu are about the clicked box. Opening the menu on a box other than
  the root's gives every link of the menu the page's own parameters, except the link's own
  parameter: that becomes an expression that matches the source's name without its line number and,
  for the links that ignore or hide, the sources ignored or hidden before.
\<close>

theorem menu_links_are_about_the_box:
  assumes "bsrc b \<noteq> 0" and "(i, param) \<in> set menu_links" and "links v i = Some href"
    and "w = showActionMenu E client b v"
    and "old = params_get param (params_copy (url_query (page v)) (url_query href))"
    and "quoted = pprofQuoteMeta (strip_line (FullName (source_at E (bsrc b))))"
  shows "\<exists>u. links w i = Some u \<and> url_base u = url_base href \<and> url_hash u = [] \<and>
    params_get param (url_query u) = Some (if param \<in> {''i'', ''h''} \<and> old \<noteq> None \<and> old \<noteq> Some [] then quoted @ ''|'' @ the old else quoted) \<and>
    (\<forall>k. k \<noteq> param \<longrightarrow> params_get k (url_query u) =
       (case params_get k (rev (url_query (page v))) of None \<Rightarrow> params_get k (url_query href) | Some x \<Rightarrow> Some x))"
proof -
  let ?u = "setHrefParams (url_query (page v)) (add_source_param E param (bsrc b)) href"
  have p: "map_of menu_links i = Some param" using assms(2) menu_links_of by simp
  have "links w i = Some ?u"
    using assms(1,3,4) p by (simp add: showActionMenu_def Let_def toggleClass_def fold_links [OF menu_links_of])
  moreover have "param \<in> {''f'', ''i'', ''h'', ''sf''}" using assms(2) by (auto simp: menu_links_def)
  then have "params_get param (url_query ?u) = Some (if param \<in> {''i'', ''h''} \<and> old \<noteq> None \<and> old \<noteq> Some [] then quoted @ ''|'' @ the old else quoted)"
    by (auto simp: add_source_param_def Let_def assms(5,6) split: option.split)
  moreover have "params_get k (url_query ?u) =
      (case params_get k (rev (url_query (page v))) of None \<Rightarrow> params_get k (url_query href) | Some x \<Rightarrow> Some x)" if "k \<noteq> param" for k
    using that by (simp add: add_source_param_def Let_def get_copy)
  ultimately show ?thesis by simp
qed

subsection \<open>A page with the small profile\<close>

text \<open>An instance of \<open>RegExp\<close> that knows quoted texts and their alternatives only.\<close>

definition compile_literals :: "string \<Rightarrow> (string \<Rightarrow> bool) option" where
  "compile_literals p = map_option (\<lambda>alts t. t \<in> set alts) (those (map anchored (split_bars p)))"

lemma compile_literals: "\<forall>p t b. literal_test p t = Some b \<longrightarrow> (\<exists>re. compile_literals p = Some re \<and> re t = b)"
  by (auto simp: literal_test_def compile_literals_def)

definition demo_page_env :: env where
  "demo_page_env = \<lparr>stacks = demo_set, unitDefs = [], compile = compile_literals, textWidth = (\<lambda>s. of_nat (7 * length s)),
     bodySize = (800, 600), menuSize = (100, 100)\<rparr>"

definition demo_start :: stack_view where
  "demo_start =
     \<lparr>pivots = [], matches = {}, elems = (\<lambda>_. []), displayList = [], actionMenuOn = False, actionTarget = None, shown = 0,
      chartWidth = 204, chartHeight = 0, separator = None, menuVisible = False, menuPos = (0, 0), actionTitle = [],
      leftDetail = [], rightDetail = [],
      links = [''action-hide'' \<mapsto> \<lparr>url_base = ''/ui/flamegraph'', url_query = [], url_hash = ''x''\<rparr>],
      page = \<lparr>url_base = ''/ui/flamegraph'', url_query = [(''h'', ''^c$''), (''si'', ''cpu'')], url_hash = []\<rparr>,
      history = [], searchValue = []\<rparr>"

definition demo_page :: stack_view where
  "demo_page = clearDetails demo_page_env (the (render_page demo_page_env demo_start))"

definition demo_pivot :: stack_view where
  "demo_pivot = the (box_click demo_page_env (0, 0) 1 0 (box_mousedown (1, 1) 1 0 demo_page))"

lemma demo_page_reach: "view_reach demo_page_env demo_start demo_page"
proof -
  have "\<not> Option.is_none (render_page demo_page_env demo_start)" by code_simp
  then have "render_page demo_page_env demo_start = Some (the (render_page demo_page_env demo_start))"
    by (auto simp: Option.is_none_def)
  then show ?thesis unfolding demo_page_def by (rule view_reach.start)
qed


theorem click_pivots_on_its_source_witness: "pivots demo_pivot = [1] \<and> matches demo_pivot = {}"
proof -
  let ?v = "box_mousedown (1, 1) 1 0 demo_page" and ?name = "UniqueName (source_at demo_page_env (bsrc (eBox (elems (box_mousedown (1, 1) 1 0 demo_page) 1 ! 0))))"
  have "\<not> Option.is_none (box_click demo_page_env (0, 0) 1 0 ?v)" by code_simp
  then have c: "box_click demo_page_env (0, 0) 1 0 ?v = Some demo_pivot"
    by (auto simp: Option.is_none_def demo_pivot_def)
  have e: "compile demo_page_env = compile_literals" by (simp add: demo_page_env_def)
  have a: "click_accepted (eDown (elems ?v 1 ! 0)) (0, 0)" by code_simp
  have n: "?name = ''a''" by code_simp
  have l: "bsrc (eBox (elems ?v 1 ! 0)) < length (Sources (stacks demo_page_env))" by code_simp
  have "pivots demo_pivot = filter (\<lambda>j. UniqueName (source_at demo_page_env j) = ''a'' \<or> FileName (source_at demo_page_env j) = ''a'') [0..<length (Sources (stacks demo_page_env))]
      \<and> matches demo_pivot = {}"
    using click_pivots_on_its_source [of demo_page_env ?v 1 0 "(0, 0)" "''a''" demo_pivot] compile_literals a n l c unfolding e by simp
  moreover have "filter (\<lambda>j. UniqueName (source_at demo_page_env j) = ''a'' \<or> FileName (source_at demo_page_env j) = ''a'') [0..<length (Sources (stacks demo_page_env))] = [1]"
    by code_simp
  ultimately show ?thesis by simp
qed

theorem menu_links_are_about_the_box_witness:
  "\<exists>u. links (showActionMenu demo_page_env (5, 5) (hd demo_boxes) demo_page) ''action-hide'' = Some u \<and>
     params_get ''h'' (url_query u) = Some ''^b$|^c$'' \<and> params_get ''si'' (url_query u) = Some ''cpu'' \<and> url_hash u = []"
proof -
  let ?href = "\<lparr>url_base = ''/ui/flamegraph'', url_query = [], url_hash = ''x''\<rparr>"
  have b: "bsrc (hd demo_boxes) \<noteq> 0" by code_simp
  have i: "(''action-hide'', ''h'') \<in> set menu_links" by (simp add: menu_links_def)
  have h: "links demo_page ''action-hide'' = Some ?href" by code_simp
  have o: "Some ''^c$'' = params_get ''h'' (params_copy (url_query (page demo_page)) (url_query ?href))" by code_simp
  have q: "''^b$'' = pprofQuoteMeta (strip_line (FullName (source_at demo_page_env (bsrc (hd demo_boxes)))))" by code_simp
  have s: "params_get ''si'' (rev (url_query (page demo_page))) = Some ''cpu''" by code_simp
  obtain u where "links (showActionMenu demo_page_env (5, 5) (hd demo_boxes) demo_page) ''action-hide'' = Some u" "url_hash u = []"
    "params_get ''h'' (url_query u) = Some (''^b$'' @ ''|'' @ ''^c$'')" "params_get ''si'' (url_query u) = Some ''cpu''"
    using menu_links_are_about_the_box [OF b i h refl o q, of "(5, 5)"] s by auto
  then show ?thesis by auto
qed

end
