(* ===== verification/Node_Selection.thy ===== *)
theory Node_Selection
  imports Stack_Viewer
begin

section \<open>Searching and selecting nodes\<close>

text \<open>
  The function \<open>viewer\<close> of \<open>plugin/debug/pkg/internal/driver/html/common.js\<close>, which every profile
  page runs: the delayed search, the selection of nodes by a search or by clicks, the links whose
  parameters follow the selection, and the buttons. A page gives it the options \<open>hiliter\<close> and
  \<open>current\<close> or none; what it reads and writes of the page is the record \<open>page_ops\<close>, over a page
  state of any type. The two pages of the program are the flame graph, whose \<open>hiliter\<close> is that of
  \<open>Stack_Viewer\<close>, and the pages with a graph or a table, whose elements are the record \<open>dom\<close>.
\<close>

record 'h page_ops =
  op_hilite :: "nat \<Rightarrow> bool \<Rightarrow> 'h \<Rightarrow> bool \<times> 'h"
  op_current :: "'h \<Rightarrow> nat list"
  op_search :: "'h \<Rightarrow> string"
  op_set_search :: "string \<Rightarrow> 'h \<Rightarrow> 'h"
  op_url :: "'h \<Rightarrow> url"
  op_link :: "string \<Rightarrow> 'h \<Rightarrow> url option"
  op_set_link :: "string \<Rightarrow> url \<Rightarrow> 'h \<Rightarrow> 'h"

text \<open>
  \<open>selected\<close> is a Map used as a set: its keys in order of insertion. \<open>timers\<close> are the timers that
  have not fired nor been cleared; \<open>disabled\<close> the links with that class.
\<close>

record 'h selection =
  regexpActive :: bool
  selected :: "nat list"
  searchAlarm :: "nat option"
  timers :: "nat set"
  nextTimer :: nat
  buttonsEnabled :: bool
  disabled :: "string set"
  doc :: 'h

definition getSelection :: "'h page_ops \<Rightarrow> 'h selection \<Rightarrow> nat list" where
  "getSelection P s = (if selected s \<noteq> [] then selected s else op_current P (doc s))"

definition refine_ids :: "string list" where
  "refine_ids = [''focus'', ''ignore'', ''hide'', ''show'', ''show-from'']"

definition updateButtons :: "'h page_ops \<Rightarrow> 'h selection \<Rightarrow> 'h selection" where
  "updateButtons P s =
     (let enable = (op_search P (doc s) \<noteq> [] \<or> getSelection P s \<noteq> [])
      in if buttonsEnabled s = enable then s
         else s\<lparr>buttonsEnabled := enable,
                disabled := fold (\<lambda>i d. if op_link P i (doc s) = None then d
                                        else if enable then d - {i} else insert i d) refine_ids (disabled s)\<rparr>)"

definition unselect :: "'h page_ops \<Rightarrow> nat \<Rightarrow> 'h selection \<Rightarrow> 'h selection" where
  "unselect P n s =
     (let (ok, h) = op_hilite P n False (doc s)
      in if ok then s\<lparr>doc := h, selected := removeAll n (selected s)\<rparr> else s\<lparr>doc := h\<rparr>)"

definition select :: "'h page_ops \<Rightarrow> nat \<Rightarrow> 'h selection \<Rightarrow> 'h selection" where
  "select P n s =
     (let (ok, h) = op_hilite P n True (doc s)
      in if ok then s\<lparr>doc := h, selected := (if n \<in> set (selected s) then selected s else selected s @ [n])\<rparr>
         else s\<lparr>doc := h\<rparr>)"

subsection \<open>The search\<close>

definition handleSearch :: "'h page_ops \<Rightarrow> 'h selection \<Rightarrow> 'h selection" where
  "handleSearch P s =
     (let s = (case searchAlarm s of None \<Rightarrow> s | Some t \<Rightarrow> s\<lparr>timers := timers s - {t}\<rparr>);
          s = s\<lparr>searchAlarm := Some (nextTimer s), timers := insert (nextTimer s) (timers s), nextTimer := Suc (nextTimer s)\<rparr>
      in updateButtons P (s\<lparr>regexpActive := True\<rparr>))"

definition drop_unmatched :: "'h page_ops \<Rightarrow> string list \<Rightarrow> (string \<Rightarrow> bool) \<Rightarrow> 'h selection \<Rightarrow> 'h selection" where
  "drop_unmatched P nodes match s =
     fold (\<lambda>n s. if \<not> match (nodes ! n) then unselect P n s else s) (selected s) s"

definition add_matching :: "'h page_ops \<Rightarrow> string list \<Rightarrow> (string \<Rightarrow> bool) \<Rightarrow> 'h selection \<Rightarrow> 'h selection" where
  "add_matching P nodes match s =
     fold (\<lambda>n s. if n \<notin> set (selected s) \<and> match (nodes ! n) then select P n s else s) [0..<length nodes] s"

definition selectMatching :: "'h page_ops \<Rightarrow> (string \<Rightarrow> (string \<Rightarrow> bool) option) \<Rightarrow> string list \<Rightarrow> 'h selection \<Rightarrow> 'h selection" where
  "selectMatching P regexp nodes s =
     (let s = s\<lparr>searchAlarm := None\<rparr>;
          re = (if op_search P (doc s) \<noteq> [] then regexp (op_search P (doc s)) else Some (\<lambda>_. False))
      in case re of
           None \<Rightarrow> s
         | Some match \<Rightarrow> updateButtons P (add_matching P nodes match (drop_unmatched P nodes match s)))"

text \<open>A timer that fires runs \<open>selectMatching\<close>.\<close>

definition fire :: "'h page_ops \<Rightarrow> (string \<Rightarrow> (string \<Rightarrow> bool) option) \<Rightarrow> string list \<Rightarrow> nat \<Rightarrow> 'h selection \<Rightarrow> 'h selection" where
  "fire P regexp nodes t s = selectMatching P regexp nodes (s\<lparr>timers := timers s - {t}\<rparr>)"

subsection \<open>Clicks\<close>

text \<open>\<open>parseInt\<close> to base ten of a text: leading white space, a sign, then digits.\<close>

definition is_space :: "char \<Rightarrow> bool" where
  "is_space c \<longleftrightarrow> c = CHR '' '' \<or> (of_char c :: nat) \<in> {9..13}"

definition parseInt :: "string \<Rightarrow> int option" where
  "parseInt s =
     (let s = dropWhile is_space s;
          neg = (s \<noteq> [] \<and> hd s = CHR ''-'');
          s = (if s \<noteq> [] \<and> (hd s = CHR ''-'' \<or> hd s = CHR ''+'') then tl s else s);
          ds = takeWhile is_digit s
      in if ds = [] then None else Some ((if neg then - 1 else 1) * int (digits_val ds)))"

definition nodeId :: "string list \<Rightarrow> string \<Rightarrow> int" where
  "nodeId nodes i =
     (if i = [] then - 1
      else if take 4 i \<noteq> ''node'' then - 1
      else case parseInt (drop 4 i) of
             None \<Rightarrow> - 1
           | Some n \<Rightarrow> if n < 0 \<or> int (length nodes) \<le> n then - 1 else n)"

text \<open>
  The clicked element and its ancestors: the id of each and whether its parent is the graph.
\<close>

fun child_of_graph :: "(string \<times> bool) list \<Rightarrow> string option" where
  "child_of_graph [] = None"
| "child_of_graph ((i, in_graph) # es) = (if in_graph then Some i else child_of_graph es)"

definition toggle :: "'h page_ops \<Rightarrow> nat \<Rightarrow> 'h selection \<Rightarrow> 'h selection" where
  "toggle P n s = updateButtons P (if n \<in> set (selected s) then unselect P n s else select P n s)"

definition toggleSvgSelect :: "'h page_ops \<Rightarrow> string list \<Rightarrow> (string \<times> bool) list \<Rightarrow> 'h selection \<Rightarrow> 'h selection" where
  "toggleSvgSelect P nodes path s =
     (case child_of_graph path of
        None \<Rightarrow> s
      | Some i \<Rightarrow>
          let s = s\<lparr>regexpActive := False\<rparr>; n = nodeId nodes i
          in if n < 0 then s else toggle P (nat n) s)"

text \<open>
  The target and its ancestors: the name of each and the names and texts of its children.
\<close>

fun closest_row :: "(string \<times> (string \<times> string) list) list \<Rightarrow> (string \<times> string) list option" where
  "closest_row [] = None"
| "closest_row ((name, children) # es) = (if name = ''TR'' then Some children else closest_row es)"

fun index_of :: "'a \<Rightarrow> 'a list \<Rightarrow> nat option" where
  "index_of x [] = None"
| "index_of x (y # ys) = (if x = y then Some 0 else map_option Suc (index_of x ys))"

definition handleTopClick :: "'h page_ops \<Rightarrow> string list \<Rightarrow> (string \<times> (string \<times> string) list) list \<Rightarrow> 'h selection \<Rightarrow> 'h selection" where
  "handleTopClick P nodes path s =
     (case closest_row path of
        None \<Rightarrow> s
      | Some children \<Rightarrow>
          if length children < 6 then s
          else let (name, text) = children ! 5
               in if name \<noteq> ''TD'' then s
                  else case index_of text nodes of
                         None \<Rightarrow> s
                       | Some n \<Rightarrow> toggle P n (s\<lparr>regexpActive := False\<rparr>))"

subsection \<open>Links\<close>

definition link_param :: "string \<Rightarrow> string" where
  "link_param i =
     (if i = ''ignore'' then ''i'' else if i = ''hide'' then ''h'' else if i = ''show'' then ''s''
      else if i = ''show-from'' then ''sf'' else ''f'')"

definition link_expression :: "'h page_ops \<Rightarrow> string list \<Rightarrow> 'h selection \<Rightarrow> string" where
  "link_expression P nodes s =
     (if regexpActive s then op_search P (doc s)
      else join_bars (map (\<lambda>n. pprofQuoteMeta (nodes ! n)) (getSelection P s)))"

definition refine_param :: "string \<Rightarrow> string \<Rightarrow> params \<Rightarrow> params" where
  "refine_param param re ps =
     (if re \<noteq> []
      then let re = (if param \<noteq> ''f'' \<and> param \<noteq> ''s'' \<and> param \<noteq> ''sf'' \<and> params_has param ps
                     then (case params_get param ps of
                             None \<Rightarrow> re | Some old \<Rightarrow> if old \<noteq> [] then re @ ''|'' @ old else re)
                     else re)
           in params_set param re ps
      else params_delete param ps)"

text \<open>The listener that \<open>makeSearchLinkDynamic\<close> gives a link, and the links of sample types.\<close>

definition updater :: "'h page_ops \<Rightarrow> string list \<Rightarrow> string \<Rightarrow> 'h selection \<Rightarrow> 'h selection" where
  "updater P nodes i s =
     (case op_link P i (doc s) of
        None \<Rightarrow> s
      | Some href \<Rightarrow>
          s\<lparr>doc := op_set_link P i
              (setHrefParams (url_query (op_url P (doc s))) (refine_param (link_param i) (link_expression P nodes s)) href) (doc s)\<rparr>)"

definition setSampleIndexLink :: "'h page_ops \<Rightarrow> string \<Rightarrow> 'h selection \<Rightarrow> 'h selection" where
  "setSampleIndexLink P si s =
     (let i = ''sampletype-'' @ si
      in case op_link P i (doc s) of
           None \<Rightarrow> s
         | Some href \<Rightarrow>
             s\<lparr>doc := op_set_link P i (setHrefParams (url_query (op_url P (doc s))) (params_set ''si'' si) href) (doc s)\<rparr>)"

text \<open>Enter in the search box of a page without pivots: where the browser is sent.\<close>

definition handleKey :: "'h page_ops \<Rightarrow> nat \<Rightarrow> 'h selection \<Rightarrow> url option" where
  "handleKey P keyCode s =
     (if keyCode \<noteq> 13 then None
      else Some (setHrefParams (url_query (op_url P (doc s))) (params_set ''f'' (op_search P (doc s))) (op_url P (doc s))))"

text \<open>The style \<open>display\<close> of the details box, if the page has one.\<close>

definition handleDetails :: "string option \<Rightarrow> string option" where
  "handleDetails disp = map_option (\<lambda>d. if d = ''block'' then ''none'' else ''block'') disp"

text \<open>The start of the page: no selection, and the buttons updated.\<close>

definition start_viewer :: "'h page_ops \<Rightarrow> 'h \<Rightarrow> 'h selection" where
  "start_viewer P h = updateButtons P
     \<lparr>regexpActive = False, selected = [], searchAlarm = None, timers = {}, nextTimer = 0, buttonsEnabled = True,
      disabled = {}, doc = h\<rparr>"

subsection \<open>Pages with a graph or a table\<close>

text \<open>
  An element is its identity, its two names and its children. \<open>nodeElem\<close> is
  \<open>getElementById('node' + n)\<close>.
\<close>

datatype dom_tree = Elem (ident: nat) (nodeName: string) (localName: string) (children: "dom_tree list")

record dom =
  nodeElem :: "nat \<Rightarrow> dom_tree option"
  classes :: "nat \<Rightarrow> string set"
  fillOf :: "nat \<Rightarrow> string"
  origFill :: "nat \<Rightarrow> string option"
  domSearch :: string
  domUrl :: url
  domLinks :: "string \<Rightarrow> url option"

fun findPolygon :: "dom_tree \<Rightarrow> nat option" and findPolygons :: "dom_tree list \<Rightarrow> nat option" where
  "findPolygon (Elem i name lname cs) = (if lname = ''polygon'' then Some i else findPolygons cs)"
| "findPolygons [] = None"
| "findPolygons (c # cs) = (case findPolygon c of None \<Rightarrow> findPolygons cs | Some p \<Rightarrow> Some p)"

definition setNodeHighlight :: "nat \<Rightarrow> bool \<Rightarrow> dom \<Rightarrow> bool \<times> dom" where
  "setNodeHighlight n on d =
     (case nodeElem d n of
        None \<Rightarrow> (False, d)
      | Some e \<Rightarrow>
          if nodeName e = ''TR''
          then (True, d\<lparr>classes := (classes d)(ident e := (if on then insert ''hilite'' (classes d (ident e))
                                                             else classes d (ident e) - {''hilite''}))\<rparr>)
          else case findPolygon e of
                 None \<Rightarrow> (True, d)
               | Some p \<Rightarrow>
                   if on then (True, d\<lparr>origFill := (origFill d)(p \<mapsto> fillOf d p), fillOf := (fillOf d)(p := ''#ccccff'')\<rparr>)
                   else (case origFill d p of
                           None \<Rightarrow> (True, d)
                         | Some c \<Rightarrow> (True, d\<lparr>fillOf := (fillOf d)(p := c)\<rparr>)))"

definition dom_ops :: "dom page_ops" where
  "dom_ops = \<lparr>op_hilite = setNodeHighlight, op_current = (\<lambda>_. []), op_search = domSearch,
     op_set_search = (\<lambda>t d. d\<lparr>domSearch := t\<rparr>), op_url = domUrl,
     op_link = (\<lambda>i d. domLinks d i), op_set_link = (\<lambda>i u d. d\<lparr>domLinks := (domLinks d)(i \<mapsto> u)\<rparr>)\<rparr>"

definition flame_ops :: "stack_view page_ops" where
  "flame_ops = \<lparr>op_hilite = hilite, op_current = current_selection, op_search = searchValue,
     op_set_search = (\<lambda>t v. v\<lparr>searchValue := t\<rparr>), op_url = page,
     op_link = (\<lambda>i v. links v i), op_set_link = (\<lambda>i u v. v\<lparr>links := (links v)(i \<mapsto> u)\<rparr>)\<rparr>"

subsection \<open>What a page promises\<close>

text \<open>
  \<open>found\<close>: the page has an element for the node; \<open>lit\<close>: it shows the node highlighted. The search
  box and the links are separate from the highlighting.
\<close>

locale page_contract =
  fixes P :: "'h page_ops" and found :: "'h \<Rightarrow> nat \<Rightarrow> bool" and lit :: "'h \<Rightarrow> nat \<Rightarrow> bool" and invar :: "'h \<Rightarrow> bool"
  assumes hilite_result: "fst (op_hilite P n on h) \<longleftrightarrow> found h n"
    and hilite_found: "found (snd (op_hilite P n on h)) = found h"
    and hilite_missing: "\<not> found h n \<Longrightarrow> snd (op_hilite P n on h) = h"
    and hilite_inv: "invar h \<Longrightarrow> (on \<longrightarrow> \<not> lit h n) \<Longrightarrow> invar (snd (op_hilite P n on h))"
    and hilite_lit: "invar h \<Longrightarrow> found h n \<Longrightarrow> (on \<longrightarrow> \<not> lit h n) \<Longrightarrow> lit (snd (op_hilite P n on h)) = (lit h)(n := on)"
    and hilite_search: "op_search P (snd (op_hilite P n on h)) = op_search P h"
    and hilite_link: "op_link P i (snd (op_hilite P n on h)) = op_link P i h"
    and set_search: "op_search P (op_set_search P t h) = t" "op_link P i (op_set_search P t h) = op_link P i h"
      "invar (op_set_search P t h) = invar h" "lit (op_set_search P t h) = lit h" "found (op_set_search P t h) = found h"
      "op_current P (op_set_search P t h) = op_current P h"
    and set_link: "op_link P j (op_set_link P i u h) = (if j = i then Some u else op_link P j h)"
      "op_search P (op_set_link P i u h) = op_search P h" "op_current P (op_set_link P i u h) = op_current P h"
      "invar (op_set_link P i u h) = invar h" "lit (op_set_link P i u h) = lit h" "found (op_set_link P i u h) = found h"

text \<open>
  The selection is the set of nodes shown highlighted, all of them nodes of the profile with an
  element on the page.
\<close>

definition sel_ok :: "('h \<Rightarrow> nat \<Rightarrow> bool) \<Rightarrow> ('h \<Rightarrow> nat \<Rightarrow> bool) \<Rightarrow> ('h \<Rightarrow> bool) \<Rightarrow> nat \<Rightarrow> 'h selection \<Rightarrow> bool" where
  "sel_ok found lit invar N s \<longleftrightarrow>
     distinct (selected s) \<and> invar (doc s) \<and> (\<forall>n \<in> set (selected s). n < N \<and> found (doc s) n) \<and>
     (\<forall>n. found (doc s) n \<longrightarrow> (lit (doc s) n \<longleftrightarrow> n \<in> set (selected s)))"

text \<open>Buttons are enabled exactly if there is a search or a selection, and shown so.\<close>

definition buttons_ok :: "'h page_ops \<Rightarrow> 'h selection \<Rightarrow> bool" where
  "buttons_ok P s \<longleftrightarrow>
     (buttonsEnabled s \<longleftrightarrow> op_search P (doc s) \<noteq> [] \<or> getSelection P s \<noteq> []) \<and>
     (\<forall>i \<in> set refine_ids. op_link P i (doc s) \<noteq> None \<longrightarrow> (i \<in> disabled s \<longleftrightarrow> \<not> buttonsEnabled s))"

definition links_ok :: "'h page_ops \<Rightarrow> 'h selection \<Rightarrow> bool" where
  "links_ok P s \<longleftrightarrow> (\<forall>i \<in> set refine_ids. op_link P i (doc s) \<noteq> None \<longrightarrow> (i \<in> disabled s \<longleftrightarrow> \<not> buttonsEnabled s))"

text \<open>A flurry of key strokes leaves one timer.\<close>

definition timer_ok :: "'h selection \<Rightarrow> bool" where
  "timer_ok s \<longleftrightarrow> timers s = set_option (searchAlarm s) \<and> (\<forall>t \<in> timers s. t < nextTimer s)"

lemma fold_disabled:
  "i \<in> fold (\<lambda>i d. if absent i then d else if enable then d - {i} else insert i d) ids D \<longleftrightarrow>
     (if i \<in> set ids \<and> \<not> absent i then \<not> enable else i \<in> D)"
  by (induction ids arbitrary: D) auto

lemma update_fields [simp]:
  "selected (updateButtons P s) = selected s" "doc (updateButtons P s) = doc s" "timers (updateButtons P s) = timers s"
  "searchAlarm (updateButtons P s) = searchAlarm s" "nextTimer (updateButtons P s) = nextTimer s"
  "regexpActive (updateButtons P s) = regexpActive s"
  by (simp_all add: updateButtons_def Let_def)

lemma update_getSelection [simp]: "getSelection P (updateButtons P s) = getSelection P s"
  by (simp add: getSelection_def)

lemma update_buttons: "links_ok P s \<Longrightarrow> buttons_ok P (updateButtons P s)"
  by (cases "buttonsEnabled s = (op_search P (doc s) \<noteq> [] \<or> getSelection P s \<noteq> [])")
    (auto simp: buttons_ok_def links_ok_def updateButtons_def Let_def fold_disabled getSelection_def)

lemma sel_ok_update [simp]: "sel_ok found lit invar N (updateButtons P s) \<longleftrightarrow> sel_ok found lit invar N s"
  by (simp add: sel_ok_def)

lemma timer_ok_update [simp]: "timer_ok (updateButtons P s) \<longleftrightarrow> timer_ok s"
  by (simp add: timer_ok_def)

context page_contract
begin

abbreviation ok :: "nat \<Rightarrow> 'h selection \<Rightarrow> bool" where
  "ok \<equiv> sel_ok found lit invar"

text \<open>What one change of the selection does; \<open>same\<close> is what it leaves alone.\<close>

abbreviation same :: "'h selection \<Rightarrow> 'h selection \<Rightarrow> bool" where
  "same s s' \<equiv> found (doc s') = found (doc s) \<and> op_search P (doc s') = op_search P (doc s) \<and>
     (\<forall>i. op_link P i (doc s') = op_link P i (doc s)) \<and> timers s' = timers s \<and> searchAlarm s' = searchAlarm s \<and>
     nextTimer s' = nextTimer s \<and> disabled s' = disabled s \<and> buttonsEnabled s' = buttonsEnabled s \<and>
     regexpActive s' = regexpActive s"

lemma unselect_spec:
  assumes "ok N s" and "n \<in> set (selected s)"
  shows "ok N (unselect P n s) \<and> set (selected (unselect P n s)) = set (selected s) - {n} \<and> same s (unselect P n s)"
proof -
  obtain b h where h: "op_hilite P n False (doc s) = (b, h)" by fastforce
  have f: "found (doc s) n" "invar (doc s)" using assms by (auto simp: sel_ok_def)
  have "b" "found h = found (doc s)" "invar h" "lit h = (lit (doc s))(n := False)" "op_search P h = op_search P (doc s)"
    "op_link P i h = op_link P i (doc s)" for i
    using hilite_result [of n False "doc s"] hilite_found [of n False "doc s"] hilite_inv [OF f(2), of False n]
      hilite_lit [OF f(2,1), of False] hilite_search [of n False "doc s"] hilite_link [of i n False "doc s"] f(1) h
    by simp_all
  then show ?thesis using assms h by (auto simp: unselect_def sel_ok_def distinct_removeAll)
qed

lemma select_spec:
  assumes "ok N s" and "n \<notin> set (selected s)" and "n < N"
  shows "ok N (select P n s) \<and>
    set (selected (select P n s)) = (if found (doc s) n then insert n (set (selected s)) else set (selected s)) \<and>
    same s (select P n s)"
proof (cases "found (doc s) n")
  case True
  obtain b h where h: "op_hilite P n True (doc s) = (b, h)" by fastforce
  have f: "invar (doc s)" "\<not> lit (doc s) n" using assms True by (auto simp: sel_ok_def)
  have "b" "found h = found (doc s)" "invar h" "lit h = (lit (doc s))(n := True)" "op_search P h = op_search P (doc s)"
    "op_link P i h = op_link P i (doc s)" for i
    using hilite_result [of n True "doc s"] hilite_found [of n True "doc s"] hilite_inv [OF f(1), of True n]
      hilite_lit [OF f(1) True, of True] hilite_search [of n True "doc s"] hilite_link [of i n True "doc s"] f True h
    by simp_all
  then show ?thesis using assms True h by (auto simp: select_def sel_ok_def)
next
  case False
  obtain b h where h: "op_hilite P n True (doc s) = (b, h)" by fastforce
  have "\<not> b" "h = doc s" using False h hilite_result [of n True "doc s"] hilite_missing [OF False, of True] by simp_all
  then show ?thesis using assms False h by (simp add: select_def)
qed

lemma drop_fold:
  assumes "ok N s" and "distinct ns" and "set ns \<subseteq> set (selected s)"
    and "s' = fold (\<lambda>n s. if \<not> match (nodes ! n) then unselect P n s else s) ns s"
  shows "ok N s' \<and> set (selected s') = set (selected s) - {n \<in> set ns. \<not> match (nodes ! n)} \<and> same s s'"
  using assms
proof (induction ns arbitrary: s s')
  case Nil
  then show ?case by simp
next
  case (Cons n ns)
  let ?s = "if \<not> match (nodes ! n) then unselect P n s else s"
  have u: "ok N ?s \<and> set (selected ?s) = set (selected s) - (if \<not> match (nodes ! n) then {n} else {}) \<and> same s ?s"
    using Cons.prems unselect_spec [of N s n] by auto
  have "set ns \<subseteq> set (selected ?s)" using Cons.prems u by auto
  then show ?case using Cons.IH [of ?s] Cons.prems u by auto
qed

lemma add_fold:
  assumes "ok N s" and "set ns \<subseteq> {..<N}"
    and "s' = fold (\<lambda>n s. if n \<notin> set (selected s) \<and> match (nodes ! n) then select P n s else s) ns s"
  shows "ok N s' \<and> set (selected s') = set (selected s) \<union> {n \<in> set ns. match (nodes ! n) \<and> found (doc s) n} \<and> same s s'"
  using assms
proof (induction ns arbitrary: s s')
  case Nil
  then show ?case by simp
next
  case (Cons n ns)
  let ?s = "if n \<notin> set (selected s) \<and> match (nodes ! n) then select P n s else s"
  have u: "ok N ?s \<and> set (selected ?s) = set (selected s) \<union> (if match (nodes ! n) \<and> found (doc s) n then {n} else {}) \<and> same s ?s"
  proof (cases "n \<notin> set (selected s) \<and> match (nodes ! n)")
    case True
    then show ?thesis using select_spec [of N s n] Cons.prems by simp
  next
    case False
    have "n \<in> set (selected s) \<Longrightarrow> found (doc s) n" using Cons.prems(1) by (simp add: sel_ok_def)
    then show ?thesis using False Cons.prems(1) by auto
  qed
  have "s' = fold (\<lambda>n s. if n \<notin> set (selected s) \<and> match (nodes ! n) then select P n s else s) ns ?s"
    using Cons.prems(3) by simp
  from Cons.IH [OF _ _ this] u Cons.prems(2)
  have "ok N s' \<and> set (selected s') = set (selected ?s) \<union> {n \<in> set ns. match (nodes ! n) \<and> found (doc ?s) n} \<and> same ?s s'"
    by simp
  moreover have "found (doc ?s) = found (doc s)" using u by blast
  ultimately have "ok N s'" "set (selected s') = set (selected ?s) \<union> {n \<in> set ns. match (nodes ! n) \<and> found (doc s) n}" "same s s'"
    using u by simp_all
  moreover have "set (selected ?s) = set (selected s) \<union> (if match (nodes ! n) \<and> found (doc s) n then {n} else {})" using u by blast
  ultimately show ?case by (intro conjI) (auto simp del: if_split split: if_splits)
qed

end

subsection \<open>Events of a page\<close>

inductive sel_step :: "'h page_ops \<Rightarrow> (string \<Rightarrow> (string \<Rightarrow> bool) option) \<Rightarrow> string list \<Rightarrow> 'h selection \<Rightarrow> 'h selection \<Rightarrow> bool"
  for P regexp nodes where
  typed: "sel_step P regexp nodes s (handleSearch P (s\<lparr>doc := op_set_search P t (doc s)\<rparr>))"
| timeout: "t \<in> timers s \<Longrightarrow> sel_step P regexp nodes s (fire P regexp nodes t s)"
| svg_click: "sel_step P regexp nodes s (toggleSvgSelect P nodes path s)"
| top_click: "sel_step P regexp nodes s (handleTopClick P nodes rows s)"
| link_hover: "sel_step P regexp nodes s (updater P nodes i s)"
| sample_link: "sel_step P regexp nodes s (setSampleIndexLink P si s)"

inductive sel_reach :: "'h page_ops \<Rightarrow> (string \<Rightarrow> (string \<Rightarrow> bool) option) \<Rightarrow> string list \<Rightarrow> 'h \<Rightarrow> 'h selection \<Rightarrow> bool"
  for P regexp nodes h0 where
  start: "sel_reach P regexp nodes h0 (start_viewer P h0)"
| step: "sel_reach P regexp nodes h0 s \<Longrightarrow> sel_step P regexp nodes s s' \<Longrightarrow> sel_reach P regexp nodes h0 s'"

lemma index_of_Some: "index_of x xs = Some n \<Longrightarrow> n < length xs \<and> xs ! n = x"
  by (induction xs arbitrary: n) (auto split: if_splits)

lemma nodeId_range: "0 \<le> nodeId nodes i \<Longrightarrow> nat (nodeId nodes i) < length nodes"
  by (auto simp: nodeId_def split: option.splits if_splits)

lemma buttons_links: "buttons_ok P s \<Longrightarrow> links_ok P s"
  by (simp add: buttons_ok_def links_ok_def)

context page_contract
begin

lemma selectMatching_spec:
  assumes "ok (length nodes) s" and "op_search P (doc s) \<noteq> [] \<longrightarrow> regexp (op_search P (doc s)) = Some match"
  defines "m \<equiv> \<lambda>n. op_search P (doc s) \<noteq> [] \<and> match (nodes ! n)" and "s' \<equiv> selectMatching P regexp nodes s"
  shows "ok (length nodes) s' \<and> set (selected s') = {n. n < length nodes \<and> m n \<and> found (doc s) n} \<and>
    op_search P (doc s') = op_search P (doc s) \<and> found (doc s') = found (doc s) \<and>
    timers s' = timers s \<and> searchAlarm s' = None \<and> nextTimer s' = nextTimer s \<and> (links_ok P s \<longrightarrow> buttons_ok P s')"
proof -
  let ?s = "s\<lparr>searchAlarm := None\<rparr>"
  define test where "test = (\<lambda>x. op_search P (doc s) \<noteq> [] \<and> match x)"
  have m: "m n = test (nodes ! n)" for n by (simp add: m_def test_def)
  define s1 where "s1 = drop_unmatched P nodes test ?s"
  define s2 where "s2 = add_matching P nodes test s1"
  have s': "s' = updateButtons P s2"
  proof (cases "op_search P (doc s) = []")
    case True
    then show ?thesis by (simp add: s'_def s2_def s1_def selectMatching_def Let_def test_def)
  next
    case False
    then show ?thesis using assms(2) by (simp add: s'_def s2_def s1_def selectMatching_def Let_def test_def)
  qed
  have ok: "ok (length nodes) ?s" "distinct (selected ?s)" using assms(1) by (auto simp: sel_ok_def)
  have 1: "ok (length nodes) s1" "set (selected s1) = set (selected s) - {n \<in> set (selected s). \<not> m n}" "same ?s s1"
    using drop_fold [OF ok order.refl s1_def [unfolded drop_unmatched_def]] by (simp_all add: m)
  have range: "set [0..<length nodes] \<subseteq> {..<length nodes}" by auto
  have 2: "ok (length nodes) s2" "set (selected s2) = set (selected s1) \<union> {n \<in> {0..<length nodes}. m n \<and> found (doc s1) n}" "same s1 s2"
    using add_fold [OF 1(1) range s2_def [unfolded add_matching_def]] by (simp_all add: m)
  have "n < length nodes \<and> found (doc s) n" if "n \<in> set (selected s)" for n
    using assms(1) that by (simp add: sel_ok_def)
  then have sel: "set (selected s2) = {n. n < length nodes \<and> m n \<and> found (doc s) n}"
    using 1 2(2) by auto
  have "links_ok P s \<Longrightarrow> links_ok P s2" using 1(3) 2(3) by (simp add: links_ok_def)
  then show ?thesis using 1(3) 2(1,3) sel unfolding s' by (simp add: update_buttons)
qed

abbreviation all_ok :: "nat \<Rightarrow> 'h selection \<Rightarrow> bool" where
  "all_ok N s \<equiv> ok N s \<and> buttons_ok P s \<and> timer_ok s"

lemma toggle_ok:
  assumes "ok N s" and "links_ok P s" and "timer_ok s" and "n < N"
  shows "all_ok N (toggle P n s) \<and> (n \<in> set (selected (toggle P n s)) \<longleftrightarrow> n \<notin> set (selected s) \<and> found (doc s) n)"
proof -
  define s' where "s' = (if n \<in> set (selected s) then unselect P n s else select P n s)"
  have "ok N s' \<and> same s s' \<and> (n \<in> set (selected s') \<longleftrightarrow> n \<notin> set (selected s) \<and> found (doc s) n)"
  proof (cases "n \<in> set (selected s)")
    case True
    then show ?thesis using unselect_spec [OF assms(1) True] by (simp add: s'_def)
  next
    case False
    then show ?thesis using select_spec [OF assms(1) False assms(4)] by (simp add: s'_def)
  qed
  moreover from this have "links_ok P s'" "timer_ok s'" using assms(2,3) by (simp_all add: links_ok_def timer_ok_def)
  ultimately show ?thesis by (simp add: toggle_def update_buttons flip: s'_def)
qed

lemma set_link_ok:
  assumes "all_ok N s" and "op_link P i (doc s) \<noteq> None"
  shows "all_ok N (s\<lparr>doc := op_set_link P i u (doc s)\<rparr>)"
  using assms by (auto simp: sel_ok_def buttons_ok_def timer_ok_def getSelection_def set_link)

lemma handleSearch_ok:
  assumes "all_ok N s"
  shows "all_ok N (handleSearch P (s\<lparr>doc := op_set_search P t (doc s)\<rparr>))"
proof -
  let ?s = "s\<lparr>doc := op_set_search P t (doc s)\<rparr>"
  let ?r = "\<lparr>regexpActive = True, selected = selected s, searchAlarm = Some (nextTimer s), timers = {nextTimer s},
     nextTimer = Suc (nextTimer s), buttonsEnabled = buttonsEnabled s, disabled = disabled s, doc = op_set_search P t (doc s)\<rparr>"
  have "handleSearch P ?s = updateButtons P ?r"
    using assms by (cases s; cases "searchAlarm s") (simp_all add: handleSearch_def timer_ok_def)
  moreover have "sel_ok found lit invar N ?r" using assms by (simp add: sel_ok_def set_search)
  moreover have "links_ok P ?r" using assms by (simp add: buttons_ok_def links_ok_def set_search)
  ultimately show ?thesis by (simp add: update_buttons timer_ok_def)
qed

lemma fire_ok:
  assumes "all_ok (length nodes) s" and "t \<in> timers s"
  shows "all_ok (length nodes) (fire P regexp nodes t s)"
proof -
  let ?s = "s\<lparr>timers := timers s - {t}\<rparr>"
  have t: "timers s - {t} = {}" using assms by (cases "searchAlarm s") (auto simp: timer_ok_def)
  have ok: "ok (length nodes) ?s" "links_ok P ?s" using assms by (simp_all add: sel_ok_def buttons_ok_def links_ok_def)
  show ?thesis
  proof (cases "op_search P (doc s) \<noteq> [] \<and> regexp (op_search P (doc s)) = None")
    case True
    then have "fire P regexp nodes t s = ?s\<lparr>searchAlarm := None\<rparr>" by (simp add: fire_def selectMatching_def Let_def)
    then show ?thesis using assms(1) t by (simp add: sel_ok_def buttons_ok_def timer_ok_def getSelection_def)
  next
    case False
    have r: "op_search P (doc ?s) \<noteq> [] \<longrightarrow> regexp (op_search P (doc ?s)) = Some (the (regexp (op_search P (doc s))))"
      using False by auto
    show ?thesis using selectMatching_spec [where regexp = regexp, OF ok(1) r] ok(2) unfolding t fire_def by (simp add: timer_ok_def)
  qed
qed

lemma sel_step_ok: "sel_step P regexp nodes s s' \<Longrightarrow> all_ok (length nodes) s \<Longrightarrow> all_ok (length nodes) s'"
proof (induction rule: sel_step.induct)
  case (typed s t)
  then show ?case by (rule handleSearch_ok)
next
  case (timeout t s)
  then show ?case by (intro fire_ok)
next
  case (svg_click s path)
  let ?s = "s\<lparr>regexpActive := False\<rparr>"
  have ok: "all_ok (length nodes) ?s" "links_ok P ?s"
    using svg_click by (simp_all add: sel_ok_def buttons_ok_def timer_ok_def getSelection_def links_ok_def)
  have "all_ok (length nodes) (toggle P (nat (nodeId nodes i)) ?s)" if "\<not> nodeId nodes i < 0" for i
    using toggle_ok [of "length nodes" ?s "nat (nodeId nodes i)"] ok nodeId_range [of nodes i] that by simp
  then show ?case using svg_click ok(1) by (simp add: toggleSvgSelect_def Let_def split: option.split)
next
  case (top_click s rows)
  let ?s = "s\<lparr>regexpActive := False\<rparr>"
  have ok: "all_ok (length nodes) ?s" "links_ok P ?s"
    using top_click by (simp_all add: sel_ok_def buttons_ok_def timer_ok_def getSelection_def links_ok_def)
  have "all_ok (length nodes) (toggle P n ?s)" if "index_of x nodes = Some n" for x n
    using toggle_ok [of "length nodes" ?s n] ok index_of_Some [OF that] by simp
  then show ?case using top_click by (simp add: handleTopClick_def Let_def split: option.split prod.split)
next
  case (link_hover s i)
  then show ?case by (auto simp: updater_def set_link_ok split: option.split)
next
  case (sample_link s si)
  then show ?case by (auto simp: setSampleIndexLink_def Let_def set_link_ok split: option.split)
qed

lemma sel_reach_ok:
  assumes "sel_reach P regexp nodes h0 s" and "invar h0" and "\<forall>n. found h0 n \<longrightarrow> \<not> lit h0 n"
  shows "all_ok (length nodes) s"
  using assms(1)
proof (induction rule: sel_reach.induct)
  case start
  then show ?case
    using assms(2,3) unfolding start_viewer_def by (simp add: sel_ok_def timer_ok_def update_buttons links_ok_def)
next
  case (step s s')
  then show ?case using sel_step_ok [OF step.hyps(2) step.IH] by simp
qed

text \<open>The expression of a link in the mode that lists the selected nodes.\<close>

lemma link_names:
  assumes "\<not> regexpActive s" and "getSelection P s \<noteq> []"
  shows "literal_test (link_expression P nodes s) t = Some (\<exists>n \<in> set (getSelection P s). t = nodes ! n)"
proof -
  have "link_expression P nodes s = join_bars (map pprofQuoteMeta (map ((!) nodes) (getSelection P s)))"
    using assms(1) by (simp add: link_expression_def comp_def)
  moreover have "literal_test (join_bars (map pprofQuoteMeta (map ((!) nodes) (getSelection P s)))) t
      = Some (t \<in> set (map ((!) nodes) (getSelection P s)))"
    by (rule literal_test_join) (simp add: assms(2))
  ultimately show ?thesis by auto
qed

end

subsection \<open>Both pages keep the contract\<close>

text \<open>What of a node shows the highlight: the row's class (Inl) or the polygon's fill (Inr).\<close>

definition paint :: "dom \<Rightarrow> nat \<Rightarrow> (nat + nat) option" where
  "paint d n =
     (case nodeElem d n of
        None \<Rightarrow> None
      | Some e \<Rightarrow> if nodeName e = ''TR'' then Some (Inl (ident e)) else map_option Inr (findPolygon e))"

definition dom_lit :: "dom \<Rightarrow> nat \<Rightarrow> bool" where
  "dom_lit d n =
     (case paint d n of
        None \<Rightarrow> False | Some (Inl i) \<Rightarrow> ''hilite'' \<in> classes d i | Some (Inr p) \<Rightarrow> fillOf d p = ''#ccccff'')"

definition dom_found :: "dom \<Rightarrow> nat \<Rightarrow> bool" where
  "dom_found d n \<longleftrightarrow> nodeElem d n \<noteq> None"

text \<open>
  The page as the server writes it: every node of the graph has a polygon, nodes have elements of
  their own, and no node has the highlight colour by itself.
\<close>

definition dom_ok :: "dom \<Rightarrow> bool" where
  "dom_ok d \<longleftrightarrow>
     (\<forall>n. nodeElem d n \<noteq> None \<longrightarrow> paint d n \<noteq> None) \<and> (\<forall>m n. paint d m = paint d n \<longrightarrow> paint d m \<noteq> None \<longrightarrow> m = n) \<and>
     (\<forall>n p. paint d n = Some (Inr p) \<longrightarrow> (case origFill d p of None \<Rightarrow> fillOf d p | Some c \<Rightarrow> c) \<noteq> ''#ccccff'')"

lemma dom_cong:
  assumes "nodeElem d' = nodeElem d" and "classes d' = classes d" and "fillOf d' = fillOf d" and "origFill d' = origFill d"
  shows "dom_ok d' \<longleftrightarrow> dom_ok d" "dom_lit d' = dom_lit d" "dom_found d' = dom_found d"
proof -
  have "paint d' = paint d" by (rule ext) (simp add: paint_def assms)
  then show "dom_ok d' \<longleftrightarrow> dom_ok d" "dom_lit d' = dom_lit d" "dom_found d' = dom_found d"
    using assms by (auto simp: dom_ok_def dom_lit_def dom_found_def fun_eq_iff cong: option.case_cong split: option.split sum.split)
qed

lemma dom_frame:
  "dom_ok (d\<lparr>domSearch := t\<rparr>) \<longleftrightarrow> dom_ok d" "dom_lit (d\<lparr>domSearch := t\<rparr>) = dom_lit d" "dom_found (d\<lparr>domSearch := t\<rparr>) = dom_found d"
  "dom_ok (d\<lparr>domLinks := ls\<rparr>) \<longleftrightarrow> dom_ok d" "dom_lit (d\<lparr>domLinks := ls\<rparr>) = dom_lit d" "dom_found (d\<lparr>domLinks := ls\<rparr>) = dom_found d"
  by (rule dom_cong; simp)+

lemma setNodeHighlight_cases:
  assumes "nodeElem d n = Some e"
  shows "paint d n = Some (Inl i) \<Longrightarrow> setNodeHighlight n on d =
      (True, d\<lparr>classes := (classes d)(i := (if on then insert ''hilite'' (classes d i) else classes d i - {''hilite''}))\<rparr>)"
    and "paint d n = Some (Inr p) \<Longrightarrow> setNodeHighlight n on d =
      (True, if on then d\<lparr>origFill := (origFill d)(p \<mapsto> fillOf d p), fillOf := (fillOf d)(p := ''#ccccff'')\<rparr>
             else (case origFill d p of None \<Rightarrow> d | Some c \<Rightarrow> d\<lparr>fillOf := (fillOf d)(p := c)\<rparr>))"
  using assms by (auto simp: setNodeHighlight_def paint_def split: if_splits option.split)

lemma setNodeHighlight_frame:
  "fst (setNodeHighlight n on d) \<longleftrightarrow> dom_found d n" "nodeElem (snd (setNodeHighlight n on d)) = nodeElem d"
  "domSearch (snd (setNodeHighlight n on d)) = domSearch d" "domLinks (snd (setNodeHighlight n on d)) = domLinks d"
  "\<not> dom_found d n \<Longrightarrow> snd (setNodeHighlight n on d) = d"
  by (auto simp: setNodeHighlight_def dom_found_def split: option.split)

lemma dom_found_frame: "dom_found (snd (setNodeHighlight n on d)) = dom_found d"
  by (rule ext) (simp add: dom_found_def setNodeHighlight_frame)

lemma paint_frame [simp]: "paint (snd (setNodeHighlight n on d)) = paint d"
  by (rule ext) (simp add: paint_def setNodeHighlight_frame)

lemma setNodeHighlight_effect:
  assumes "dom_ok d" and "on \<longrightarrow> \<not> dom_lit d n"
  shows "dom_ok (snd (setNodeHighlight n on d)) \<and> (dom_found d n \<longrightarrow> dom_lit (snd (setNodeHighlight n on d)) = (dom_lit d)(n := on))"
proof (cases "nodeElem d n")
  case None
  then show ?thesis using assms(1) by (simp add: setNodeHighlight_def dom_found_def)
next
  case (Some e)
  have other: "paint d m \<noteq> paint d n" if "m \<noteq> n" for m
    using assms(1) Some that unfolding dom_ok_def by (metis option.distinct(1))
  have fills: "(case origFill d p of None \<Rightarrow> fillOf d p | Some c \<Rightarrow> c) \<noteq> ''#ccccff''" if "paint d m = Some (Inr p)" for m p
    using assms(1) that by (simp add: dom_ok_def)
  have p0: "paint d n \<noteq> None" using assms(1) Some by (simp add: dom_ok_def)
  then consider i where "paint d n = Some (Inl i)" | p where "paint d n = Some (Inr p)" by (metis not_None_eq sum.exhaust)
  then show ?thesis
  proof cases
    case (1 i)
    note s = setNodeHighlight_cases(1) [OF Some 1]
    have "dom_ok (snd (setNodeHighlight n on d))" using assms(1) unfolding dom_ok_def paint_frame setNodeHighlight_frame(2)
      by (simp add: s cong: option.case_cong)
    moreover have "dom_lit (snd (setNodeHighlight n on d)) m = ((dom_lit d)(n := on)) m" for m
      using 1 other [of m] by (cases "m = n") (auto simp: dom_lit_def s paint_frame [of n on d, unfolded s, simplified] split: option.split sum.split)
    ultimately show ?thesis by auto
  next
    case (2 p)
    note s = setNodeHighlight_cases(2) [OF Some 2]
    have lit: "dom_lit d n \<longleftrightarrow> fillOf d p = ''#ccccff''" using 2 by (simp add: dom_lit_def)
    let ?d = "snd (setNodeHighlight n on d)"
    have new: "(case origFill ?d q of None \<Rightarrow> fillOf ?d q | Some c \<Rightarrow> c) \<noteq> ''#ccccff''" if "paint d m = Some (Inr q)" for m q
      using fills [OF that] assms(2) lit by (auto simp: s split: option.splits if_splits)
    have "dom_ok ?d"
      using assms(1) new unfolding dom_ok_def paint_frame by (simp only: setNodeHighlight_frame(2)) blast
    moreover have "fillOf ?d q = ''#ccccff'' \<longleftrightarrow> (if q = p then on else fillOf d q = ''#ccccff'')" for q
      using fills [OF 2] by (auto simp: s split: option.splits)
    moreover have "classes ?d = classes d" by (simp add: s split: option.split)
    ultimately have "dom_lit ?d m = ((dom_lit d)(n := on)) m" for m
      using 2 other [of m] by (cases "m = n") (auto simp: dom_lit_def split: option.split sum.split)
    then show ?thesis using \<open>dom_ok ?d\<close> by auto
  qed
qed

interpretation dom_page: page_contract dom_ops dom_found dom_lit dom_ok
proof (unfold_locales, goal_cases)
  case (4 h on n)
  then show ?case using setNodeHighlight_effect [of h on n] by (simp add: dom_ops_def)
next
  case (5 h n on)
  then show ?case using setNodeHighlight_effect [of h on n] by (simp add: dom_ops_def)
qed (simp_all add: dom_ops_def setNodeHighlight_frame dom_found_frame dom_frame)

interpretation flame_page: page_contract flame_ops "\<lambda>v n. True" "\<lambda>v n. n \<in> matches v" view_ok
proof (unfold_locales, goal_cases)
  case (4 h on n)
  then show ?case using view_ok_hilite by (simp add: flame_ops_def)
next
  case (5 h n on)
  then show ?case by (auto simp: flame_ops_def hilite_def Let_def view_simps fun_eq_iff)
qed (auto simp: flame_ops_def hilite_def Let_def toggleClass_def view_ok_def current_selection_def)

subsection \<open>Properties of the selection\<close>




subsection \<open>A small graph page\<close>

definition demo_dom :: dom where
  "demo_dom =
     \<lparr>nodeElem = (\<lambda>n. if n = 0 then Some (Elem 10 ''g'' ''g'' [Elem 11 ''title'' ''title'' [], Elem 12 ''polygon'' ''polygon'' []])
                      else if n = 1 then Some (Elem 20 ''g'' ''g'' [Elem 21 ''polygon'' ''polygon'' []]) else None),
      classes = (\<lambda>_. {}), fillOf = (\<lambda>_. ''#edd5d5''), origFill = (\<lambda>_. None), domSearch = [],
      domUrl = \<lparr>url_base = ''/ui/'', url_query = [(''si'', ''cpu'')], url_hash = []\<rparr>,
      domLinks = [''focus'' \<mapsto> \<lparr>url_base = ''/ui/'', url_query = [], url_hash = []\<rparr>]\<rparr>"

definition demo_nodes :: "string list" where
  "demo_nodes = [''main'', ''a.b'', ''gone'']"

definition demo_clicked :: "dom selection" where
  "demo_clicked = toggleSvgSelect dom_ops demo_nodes [(''a'', False), (''node2'', True)]
     (toggleSvgSelect dom_ops demo_nodes [([], False), (''node1'', True)] (start_viewer dom_ops demo_dom))"

definition demo_typed :: "dom selection" where
  "demo_typed = handleSearch dom_ops (demo_clicked\<lparr>doc := op_set_search dom_ops ''^main$'' (doc demo_clicked)\<rparr>)"

lemma demo_dom_ok: "dom_ok demo_dom" "\<forall>n. dom_found demo_dom n \<longrightarrow> \<not> dom_lit demo_dom n"
  by (auto simp: dom_ok_def dom_lit_def paint_def demo_dom_def split: if_splits)

lemma demo_clicked_reach: "sel_reach dom_ops compile_literals demo_nodes demo_dom demo_clicked"
  unfolding demo_clicked_def by (intro sel_reach.step [OF _ sel_step.svg_click] sel_reach.start)

lemma demo_typed_reach: "sel_reach dom_ops compile_literals demo_nodes demo_dom demo_typed"
  unfolding demo_typed_def by (intro sel_reach.step [OF _ sel_step.typed] demo_clicked_reach)




subsection \<open>Pivoting and the selection\<close>

lemma searchValue_draw: "searchValue (draw_all E xscale bs v) = searchValue v"
  by (induction bs arbitrary: v) (simp_all add: draw_all_def addElem_def)

lemma searchValue_render: "render_page E v = Some w \<Longrightarrow> searchValue w = searchValue v"
  by (auto simp: render_page_def Let_def searchValue_draw split: prod.splits option.splits)

text \<open>
  A pivot leaves a selection that nothing shows. On the flame graph page, pressing Enter in the
  search box pivots and clears the highlights and the box, but the common part of the page is not
  told: the nodes selected by the search stay selected although none is highlighted, and as the
  page still counts as searching by an expression, which is now empty, every refine link then drops
  its parameter instead of naming what is selected.
\<close>

theorem pivot_leaves_stale_selection:
  assumes "regexpActive s" and "compile E (searchValue (doc s)) \<noteq> None"
    and "handleSearchKey E ''Enter'' (doc s) = Some w" and "s' = s\<lparr>doc := w\<rparr>"
  shows "selected s' = selected s \<and> matches (doc s') = {} \<and> link_expression flame_ops nodes s' = [] \<and>
    (\<forall>i href. links w i = Some href \<longrightarrow>
       (\<exists>u. links (doc (updater flame_ops nodes i s')) i = Some u \<and> params_get (link_param i) (url_query u) = None))"
proof -
  have p: "switchPivots E (searchValue (doc s)) (doc s) = Some w"
    using assms(2,3) by (auto simp: handleSearchKey_def split: option.splits)
  then have "searchValue w = []" using searchValue_render by (fastforce simp: switchPivots_def Let_def)
  then have e: "link_expression flame_ops nodes s' = []" using assms(1,4) by (simp add: link_expression_def flame_ops_def)
  have "links (doc (updater flame_ops nodes i s')) i =
      Some (setHrefParams (url_query (page w)) (refine_param (link_param i) []) href)" if "links w i = Some href" for i href
    using that assms(4) unfolding updater_def e by (simp add: flame_ops_def)
  then show ?thesis using e switchPivots_spec(2) [OF p] by (simp add: assms(4) refine_param_def)
qed

definition demo_flame :: "stack_view selection" where
  "demo_flame = (start_viewer flame_ops (snd (hilite 1 True demo_page)\<lparr>searchValue := ''^a$''\<rparr>))\<lparr>regexpActive := True, selected := [1]\<rparr>"

theorem pivot_leaves_stale_selection_witness:
  "\<exists>w. handleSearchKey demo_page_env ''Enter'' (doc demo_flame) = Some w \<and> selected (demo_flame\<lparr>doc := w\<rparr>) = [1] \<and> matches w = {}"
proof -
  have r: "regexpActive demo_flame" "selected demo_flame = [1]" by (simp_all add: demo_flame_def)
  have "\<not> Option.is_none (compile demo_page_env (searchValue (doc demo_flame)))" by code_simp
  then have c: "compile demo_page_env (searchValue (doc demo_flame)) \<noteq> None" by (auto simp: Option.is_none_def)
  have "\<not> Option.is_none (handleSearchKey demo_page_env ''Enter'' (doc demo_flame))" by code_simp
  then obtain w where w: "handleSearchKey demo_page_env ''Enter'' (doc demo_flame) = Some w" by (auto simp: Option.is_none_def)
  show ?thesis using pivot_leaves_stale_selection [OF r(1) c w refl, of demo_nodes] r(2) w by auto
qed

end
