(* ===== verification/Pan_Zoom.thy ===== *)
theory Pan_Zoom
  imports Prelude
begin

section \<open>Panning and zooming a graph\<close>

text \<open>
  The function \<open>initPanAndZoom\<close> of \<open>plugin/debug/pkg/internal/driver/html/common.js\<close>: a state
  machine over mouse, wheel and touch events that moves and scales the \<open>viewBox\<close> of the graph and
  passes clicks on. Coordinates are exact reals; \<open>toSvg\<close>, the inverse of the transformation the
  browser computes from the current \<open>viewBox\<close>, is a parameter. The size of the element on the
  screen is taken to be positive. Elements are numbers; \<open>clicks\<close> are the calls of \<open>clickHandler\<close>.
\<close>

datatype mode = IDLE | MOUSEPAN | TOUCHPAN | TOUCHZOOM

record view_box =
  vx :: real
  vy :: real
  vwidth :: real
  vheight :: real

record touch =
  touchIdent :: int
  touchX :: real
  touchY :: real
  touchTarget :: nat

record panzoom =
  pmode :: mode
  currentScale :: real
  panLastX :: real
  panLastY :: real
  moved :: bool
  touchid :: "int option"
  touchid2 :: "int option"
  initGap :: real
  initScale :: real
  centerPoint :: "(real \<times> real) option"
  viewBox :: view_box
  listening :: bool
  clicks :: "nat list"

record svg_frame =
  initWidth :: real
  initHeight :: real
  swidth :: real
  sheight :: real
  toSvg :: "view_box \<Rightarrow> real \<times> real \<Rightarrow> real \<times> real"

text \<open>The values of a quotient that can be the argument of \<open>rescale\<close>.\<close>

datatype js_quotient = Fin real | Infinity | NaN

definition js_divide :: "real \<Rightarrow> real \<Rightarrow> js_quotient" where
  "js_divide a b = (if b \<noteq> 0 then Fin (a / b) else if a = 0 then NaN else Infinity)"

subsection \<open>Scaling\<close>

definition clampScale :: "real \<Rightarrow> real" where
  "clampScale s = (let s = (if s < 2 / 10 then 2 / 10 else s) in if s > 10 then 10 else s)"

definition rescale_to :: "svg_frame \<Rightarrow> real \<Rightarrow> real \<times> real \<Rightarrow> panzoom \<Rightarrow> panzoom" where
  "rescale_to F s u z =
     (let vb = viewBox z; w2 = initWidth F / s; h2 = initHeight F / s
      in z\<lparr>currentScale := s,
           viewBox := \<lparr>vx = fst u - (fst u - vx vb) * (w2 / vwidth vb), vy = snd u - (snd u - vy vb) * (h2 / vheight vb),
                       vwidth = w2, vheight = h2\<rparr>\<rparr>)"

text \<open>A scale that is not a number passes both comparisons and spoils the view: None.\<close>

fun rescale :: "svg_frame \<Rightarrow> js_quotient \<Rightarrow> real \<times> real \<Rightarrow> panzoom \<Rightarrow> panzoom option" where
  "rescale F (Fin s) u z = Some (rescale_to F (clampScale s) u z)"
| "rescale F Infinity u z = Some (rescale_to F 10 u z)"
| "rescale F NaN u z = None"

definition handleWheel :: "svg_frame \<Rightarrow> real \<Rightarrow> real \<times> real \<Rightarrow> panzoom \<Rightarrow> panzoom option" where
  "handleWheel F deltaY offset z =
     (if deltaY = 0 then Some z
      else rescale F (Fin (currentScale z * (if deltaY < 0 then 11 / 10 else 1 / (11 / 10)))) (toSvg F (viewBox z) offset) z)"

subsection \<open>Panning\<close>

definition setMode :: "mode \<Rightarrow> panzoom \<Rightarrow> panzoom" where
  "setMode m z = z\<lparr>pmode := m, touchid := None, touchid2 := None\<rparr>"

definition panStart :: "real \<Rightarrow> real \<Rightarrow> panzoom \<Rightarrow> panzoom" where
  "panStart x y z = z\<lparr>moved := False, panLastX := x, panLastY := y\<rparr>"

definition panMove :: "svg_frame \<Rightarrow> real \<Rightarrow> real \<Rightarrow> panzoom \<Rightarrow> panzoom" where
  "panMove F x y z =
     (let dx = x - panLastX z; dy = y - panLastY z
      in if \<bar>dx\<bar> \<le> 2 \<and> \<bar>dy\<bar> \<le> 2 then z
         else let vb = viewBox z
              in z\<lparr>moved := True, panLastX := x, panLastY := y,
                   viewBox := vb\<lparr>vx := vx vb - dx * (vwidth vb / swidth F), vy := vy vb - dy * (vheight vb / sheight F)\<rparr>\<rparr>)"

definition handleScanStart :: "int \<Rightarrow> real \<times> real \<Rightarrow> panzoom \<Rightarrow> panzoom" where
  "handleScanStart button client z =
     (if button \<noteq> 0 then z
      else (panStart (fst client) (snd client) (setMode MOUSEPAN z))\<lparr>listening := True\<rparr>)"

definition handleScanMove :: "svg_frame \<Rightarrow> int \<Rightarrow> real \<times> real \<Rightarrow> panzoom \<Rightarrow> panzoom" where
  "handleScanMove F buttons client z =
     (if buttons = 0 then (setMode IDLE z)\<lparr>listening := False\<rparr>
      else if pmode z = MOUSEPAN then panMove F (fst client) (snd client) z else z)"

definition handleScanEnd :: "svg_frame \<Rightarrow> real \<times> real \<Rightarrow> nat \<Rightarrow> panzoom \<Rightarrow> panzoom" where
  "handleScanEnd F client target z =
     (let z = (if pmode z = MOUSEPAN then panMove F (fst client) (snd client) z else z);
          z = (setMode IDLE z)\<lparr>listening := False\<rparr>
      in if \<not> moved z then z\<lparr>clicks := clicks z @ [target]\<rparr> else z)"

subsection \<open>Touches\<close>

fun findTouch :: "touch list \<Rightarrow> int option \<Rightarrow> touch option" where
  "findTouch [] i = None"
| "findTouch (t # ts) i = (if Some (touchIdent t) = i then Some t else findTouch ts i)"

definition touchGap :: "touch \<Rightarrow> touch \<Rightarrow> real" where
  "touchGap t1 t2 = sqrt ((touchX t1 - touchX t2)\<^sup>2 + (touchY t1 - touchY t2)\<^sup>2)"

definition handleTouchStart :: "svg_frame \<Rightarrow> touch list \<Rightarrow> touch list \<Rightarrow> panzoom \<Rightarrow> panzoom" where
  "handleTouchStart F changedTouches touches z =
     (if pmode z = IDLE \<and> length changedTouches = 1
      then let t = changedTouches ! 0
           in panStart (touchX t) (touchY t) ((setMode TOUCHPAN z)\<lparr>touchid := Some (touchIdent t)\<rparr>)
      else if pmode z = TOUCHPAN \<and> length touches = 2
      then let z = setMode TOUCHZOOM z; t1 = touches ! 0; t2 = touches ! 1
           in z\<lparr>touchid := Some (touchIdent t1), touchid2 := Some (touchIdent t2), initScale := currentScale z,
                initGap := touchGap t1 t2,
                centerPoint := Some (toSvg F (viewBox z) ((touchX t1 + touchX t2) / 2, (touchY t1 + touchY t2) / 2))\<rparr>
      else z)"

definition handleTouchMove :: "svg_frame \<Rightarrow> touch list \<Rightarrow> touch list \<Rightarrow> panzoom \<Rightarrow> panzoom option" where
  "handleTouchMove F changedTouches touches z =
     (if pmode z = TOUCHPAN
      then (case findTouch changedTouches (touchid z) of
              None \<Rightarrow> Some z
            | Some t \<Rightarrow> if length touches \<noteq> 1 then Some (setMode IDLE z) else Some (panMove F (touchX t) (touchY t) z))
      else if pmode z = TOUCHZOOM
      then (case (findTouch touches (touchid z), findTouch touches (touchid2 z)) of
              (Some t1, Some t2) \<Rightarrow>
                rescale F (js_divide (initScale z * touchGap t1 t2) (initGap z)) (the (centerPoint z)) z
            | _ \<Rightarrow> Some z)
      else Some z)"

definition handleTouchEnd :: "svg_frame \<Rightarrow> touch list \<Rightarrow> panzoom \<Rightarrow> panzoom" where
  "handleTouchEnd F changedTouches z =
     (if pmode z = TOUCHPAN
      then (case findTouch changedTouches (touchid z) of
              None \<Rightarrow> z
            | Some t \<Rightarrow>
                let z = setMode IDLE (panMove F (touchX t) (touchY t) z)
                in if \<not> moved z then z\<lparr>clicks := clicks z @ [touchTarget t]\<rparr> else z)
      else if pmode z = TOUCHZOOM then setMode IDLE z
      else z)"

definition initPanAndZoom :: "view_box \<Rightarrow> panzoom" where
  "initPanAndZoom vb =
     \<lparr>pmode = IDLE, currentScale = 1, panLastX = 0, panLastY = 0, moved = False, touchid = None, touchid2 = None,
      initGap = 1, initScale = 1, centerPoint = None, viewBox = vb, listening = False, clicks = []\<rparr>"

subsection \<open>Events\<close>

inductive pz_step :: "svg_frame \<Rightarrow> panzoom \<Rightarrow> panzoom \<Rightarrow> bool" for F where
  wheel: "handleWheel F deltaY offset z = Some z' \<Longrightarrow> pz_step F z z'"
| mouse_down: "pz_step F z (handleScanStart button client z)"
| mouse_move: "listening z \<Longrightarrow> pz_step F z (handleScanMove F buttons client z)"
| mouse_up: "pz_step F z (handleScanEnd F client target z)"
| touch_start: "pz_step F z (handleTouchStart F changed touches z)"
| touch_move: "handleTouchMove F changed touches z = Some z' \<Longrightarrow> pz_step F z z'"
| touch_end: "pz_step F z (handleTouchEnd F changed z)"

inductive pz_reach :: "svg_frame \<Rightarrow> view_box \<Rightarrow> panzoom \<Rightarrow> bool" for F vb where
  start: "pz_reach F vb (initPanAndZoom vb)"
| step: "pz_reach F vb z \<Longrightarrow> pz_step F z z' \<Longrightarrow> pz_reach F vb z'"

text \<open>
  The size of the view follows the scale, which stays within its limits; the touches a mode needs
  are recorded, and only panning with the mouse listens for moves.
\<close>

definition pz_ok :: "svg_frame \<Rightarrow> panzoom \<Rightarrow> bool" where
  "pz_ok F z \<longleftrightarrow>
     2 / 10 \<le> currentScale z \<and> currentScale z \<le> 10 \<and>
     vwidth (viewBox z) = initWidth F / currentScale z \<and> vheight (viewBox z) = initHeight F / currentScale z \<and>
     (listening z \<longleftrightarrow> pmode z = MOUSEPAN) \<and>
     (touchid z \<noteq> None \<longleftrightarrow> pmode z = TOUCHPAN \<or> pmode z = TOUCHZOOM) \<and>
     (touchid2 z \<noteq> None \<longleftrightarrow> pmode z = TOUCHZOOM) \<and> (pmode z = TOUCHZOOM \<longrightarrow> centerPoint z \<noteq> None)"

lemma clamp_range: "2 / 10 \<le> clampScale s" "clampScale s \<le> 10" "2 / 10 \<le> s \<Longrightarrow> s \<le> 10 \<Longrightarrow> clampScale s = s"
  by (simp_all add: clampScale_def Let_def)

lemma rescale_to_ok: "2 / 10 \<le> s \<Longrightarrow> s \<le> 10 \<Longrightarrow> pz_ok F z \<Longrightarrow> pz_ok F (rescale_to F s u z)"
  unfolding pz_ok_def rescale_to_def Let_def by simp

lemma rescale_ok: "rescale F q u z = Some z' \<Longrightarrow> pz_ok F z \<Longrightarrow> pz_ok F z'"
  using clamp_range by (cases q) (auto intro: rescale_to_ok)

lemma panMove_ok: "pz_ok F z \<Longrightarrow> pz_ok F (panMove F x y z)"
  by (simp add: pz_ok_def panMove_def Let_def)

lemma panMove_fields [simp]:
  "pmode (panMove F x y z) = pmode z" "listening (panMove F x y z) = listening z" "clicks (panMove F x y z) = clicks z"
  by (simp_all add: panMove_def Let_def)

lemma setIdle_ok: "pz_ok F z \<Longrightarrow> pz_ok F ((setMode IDLE z)\<lparr>listening := False\<rparr>)"
  "pz_ok F z \<Longrightarrow> pmode z \<noteq> MOUSEPAN \<Longrightarrow> pz_ok F (setMode IDLE z)"
  "pz_ok F z \<Longrightarrow> pz_ok F (z\<lparr>clicks := cs\<rparr>)"
  by (simp_all add: pz_ok_def setMode_def)

lemma pz_step_ok: "pz_step F z z' \<Longrightarrow> pz_ok F z \<Longrightarrow> pz_ok F z'"
proof (induction rule: pz_step.induct)
  case (wheel deltaY offset z z')
  then show ?case by (auto simp: handleWheel_def simp del: rescale.simps intro: rescale_ok split: if_splits)
next
  case (mouse_down z button client)
  then show ?case by (simp add: handleScanStart_def panStart_def setMode_def pz_ok_def)
next
  case (mouse_move z buttons client)
  then show ?case by (simp add: handleScanMove_def setIdle_ok panMove_ok)
next
  case (mouse_up z client target)
  then show ?case by (simp add: handleScanEnd_def Let_def setIdle_ok panMove_ok)
next
  case (touch_start z changed touches)
  then show ?case by (simp add: handleTouchStart_def Let_def panStart_def setMode_def pz_ok_def)
next
  case (touch_move changed touches z z')
  then show ?case
    by (auto simp: handleTouchMove_def setIdle_ok panMove_ok intro: rescale_ok split: if_splits option.splits)
next
  case (touch_end z changed)
  then show ?case by (simp add: handleTouchEnd_def Let_def setIdle_ok panMove_ok split: option.split)
qed

lemma pz_reach_ok:
  assumes "pz_reach F vb z" and "vwidth vb = initWidth F" and "vheight vb = initHeight F"
  shows "pz_ok F z"
  using assms(1)
proof (induction rule: pz_reach.induct)
  case start
  then show ?case using assms(2,3) by (simp add: pz_ok_def initPanAndZoom_def)
next
  case (step z z')
  then show ?case by (blast intro: pz_step_ok)
qed

subsection \<open>Properties\<close>


definition demo_frame :: svg_frame where
  "demo_frame = \<lparr>initWidth = 100, initHeight = 50, swidth = 200, sheight = 100,
     toSvg = (\<lambda>vb p. (vx vb + fst p * vwidth vb / 200, vy vb + snd p * vheight vb / 100))\<rparr>"

definition demo_box :: view_box where
  "demo_box = \<lparr>vx = 0, vy = 0, vwidth = 100, vheight = 50\<rparr>"

definition demo_touch :: "int \<Rightarrow> real \<Rightarrow> touch" where
  "demo_touch i x = \<lparr>touchIdent = i, touchX = x, touchY = 0, touchTarget = 7\<rparr>"

definition demo_pinch :: panzoom where
  "demo_pinch = handleTouchStart demo_frame [demo_touch 2 30] [demo_touch 1 10, demo_touch 2 30]
     (handleTouchStart demo_frame [demo_touch 1 10] [demo_touch 1 10] (initPanAndZoom demo_box))"

lemma demo_pinch_reach: "pz_reach demo_frame demo_box demo_pinch"
  unfolding demo_pinch_def by (intro pz_reach.step [OF _ pz_step.touch_start] pz_reach.start)

lemma demo_pinch_mode: "pmode demo_pinch = TOUCHZOOM" "viewBox demo_pinch = demo_box"
  by (simp_all add: demo_pinch_def handleTouchStart_def initPanAndZoom_def setMode_def panStart_def Let_def)


text \<open>
  C21. Zooming keeps the point of the zoom where it is on the screen. Whenever \<open>rescale\<close> changes the
  scale, from the wheel or from a pinch, the point it is given has after the change the same
  relative position in the visible part as before, horizontally and vertically, and a scale within
  the limits is taken as it is.
\<close>

theorem zoom_keeps_its_point_fixed:
  assumes "pz_reach F vb z" and "vwidth vb = initWidth F" and "vheight vb = initHeight F"
    and "0 < initWidth F" and "0 < initHeight F" and "rescale F q u z = Some z'"
  shows "(fst u - vx (viewBox z')) / vwidth (viewBox z') = (fst u - vx (viewBox z)) / vwidth (viewBox z) \<and>
    (snd u - vy (viewBox z')) / vheight (viewBox z') = (snd u - vy (viewBox z)) / vheight (viewBox z) \<and>
    (\<forall>s. q = Fin s \<longrightarrow> 2 / 10 \<le> s \<longrightarrow> s \<le> 10 \<longrightarrow> currentScale z' = s)"
proof -
  have "pz_ok F z" by (rule pz_reach_ok [OF assms(1-3)])
  then have pos: "0 < vwidth (viewBox z)" "0 < vheight (viewBox z)" using assms(4,5) by (auto simp: pz_ok_def)
  obtain s where s: "z' = rescale_to F s u z" "2 / 10 \<le> s" "\<forall>t. q = Fin t \<longrightarrow> s = clampScale t"
    using assms(6) clamp_range by (cases q) auto
  have "initWidth F / s \<noteq> 0" "initHeight F / s \<noteq> 0" using s(2) assms(4,5) by auto
  then show ?thesis using pos s clamp_range(3) by (auto simp: rescale_to_def Let_def)
qed

theorem zoom_keeps_its_point_fixed_witness:
  "\<exists>z'. rescale demo_frame (Fin 2) (10, 20) demo_pinch = Some z' \<and>
     (10 - vx (viewBox z')) / vwidth (viewBox z') = 1 / 10 \<and> (20 - vy (viewBox z')) / vheight (viewBox z') = 2 / 5 \<and> currentScale z' = 2"
  using zoom_keeps_its_point_fixed [OF demo_pinch_reach, of "Fin 2" "(10, 20)"] demo_pinch_mode(2)
  by (simp add: demo_box_def demo_frame_def)

subsection \<open>A drag with the mouse\<close>

definition near :: "real \<times> real \<Rightarrow> real \<times> real \<Rightarrow> bool" where
  "near a b \<longleftrightarrow> \<bar>fst a - fst b\<bar> \<le> 2 \<and> \<bar>snd a - snd b\<bar> \<le> 2"

definition drag :: "svg_frame \<Rightarrow> (real \<times> real) list \<Rightarrow> panzoom \<Rightarrow> panzoom" where
  "drag F cs z = fold (\<lambda>c. panMove F (fst c) (snd c)) cs z"

lemma scan_moves:
  "pmode z = MOUSEPAN \<Longrightarrow> fold (\<lambda>c. handleScanMove F 1 c) cs z = drag F cs z"
  by (induction cs arbitrary: z) (simp_all add: drag_def handleScanMove_def)

lemma drag_fields [simp]: "pmode (drag F cs z) = pmode z" "clicks (drag F cs z) = clicks z"
  by (induction cs arbitrary: z) (simp_all add: drag_def)

text \<open>The view moves by what the remembered pointer position moved, at the current scale.\<close>

definition tracks :: "svg_frame \<Rightarrow> panzoom \<Rightarrow> panzoom \<Rightarrow> bool" where
  "tracks F z z' \<longleftrightarrow>
     vwidth (viewBox z') = vwidth (viewBox z) \<and> vheight (viewBox z') = vheight (viewBox z) \<and>
     vx (viewBox z') = vx (viewBox z) - (panLastX z' - panLastX z) * (vwidth (viewBox z) / swidth F) \<and>
     vy (viewBox z') = vy (viewBox z) - (panLastY z' - panLastY z) * (vheight (viewBox z) / sheight F)"

lemma tracks_refl: "tracks F z z"
  by (simp add: tracks_def)

lemma tracks_trans: "tracks F a b \<Longrightarrow> tracks F b c \<Longrightarrow> tracks F a c"
  by (auto simp: tracks_def left_diff_distrib diff_divide_distrib)

lemma panMove_tracks: "tracks F z (panMove F x y z)"
  by (simp add: tracks_def panMove_def Let_def)

lemma drag_tracks: "tracks F z (drag F cs z)"
proof (induction cs arbitrary: z)
  case Nil
  then show ?case by (simp add: drag_def tracks_refl)
next
  case (Cons c cs)
  then show ?case using tracks_trans [OF panMove_tracks [of F z "fst c" "snd c"]] by (simp add: drag_def)
qed

lemma drag_still:
  assumes "\<not> moved z" and "c0 = (panLastX z, panLastY z)"
  shows "moved (drag F cs z) \<longleftrightarrow> \<not> (\<forall>c \<in> set cs. near c c0)" and "(\<forall>c \<in> set cs. near c c0) \<Longrightarrow> drag F cs z = z"
proof -
  have stay: "panMove F (fst c) (snd c) z = z" if "near c c0" for c
    using that assms(2) by (simp add: panMove_def near_def)
  have go: "moved (drag F cs z)" if "moved z" for cs z
    using that by (induction cs arbitrary: z) (simp_all add: drag_def panMove_def Let_def)
  show "moved (drag F cs z) \<longleftrightarrow> \<not> (\<forall>c \<in> set cs. near c c0)"
  proof (induction cs)
    case Nil
    then show ?case using assms(1) by (simp add: drag_def)
  next
    case (Cons c cs)
    show ?case
    proof (cases "near c c0")
      case True
      then show ?thesis using Cons stay by (simp add: drag_def)
    next
      case False
      then have "moved (panMove F (fst c) (snd c) z)" using assms(2) by (auto simp: panMove_def near_def Let_def)
      then show ?thesis using False go [of "panMove F (fst c) (snd c) z" cs] by (simp add: drag_def)
    qed
  qed
  show "drag F cs z = z" if "\<forall>c \<in> set cs. near c c0"
    using that stay by (induction cs) (simp_all add: drag_def)
qed

lemma drag_last: "near c (panLastX (drag F (cs @ [c]) z), panLastY (drag F (cs @ [c]) z))"
  by (simp add: drag_def panMove_def near_def Let_def)

text \<open>
  C20. The graph follows the pointer, and a press without a move is a click. Pressing the main button,
  moving and releasing it shifts the visible part by what the pointer moved, up to two pixels, at
  the current scale and without changing its size; the click handler is called, once and with the
  element of the release, exactly if the pointer never left the two pixels around the press, and
  then nothing moves at all.
\<close>

theorem drag_follows_the_pointer:
  assumes "z' = handleScanEnd F c target (fold (\<lambda>m. handleScanMove F 1 m) cs (handleScanStart 0 c0 z))"
  shows "\<exists>last. near c last \<and> vx (viewBox z') = vx (viewBox z) - (fst last - fst c0) * (vwidth (viewBox z) / swidth F) \<and>
      vy (viewBox z') = vy (viewBox z) - (snd last - snd c0) * (vheight (viewBox z) / sheight F) \<and>
      vwidth (viewBox z') = vwidth (viewBox z) \<and> vheight (viewBox z') = vheight (viewBox z) \<and> pmode z' = IDLE \<and>
      (if \<forall>m \<in> set (cs @ [c]). near m c0 then clicks z' = clicks z @ [target] \<and> viewBox z' = viewBox z
       else clicks z' = clicks z)"
proof -
  define s where "s = handleScanStart 0 c0 z"
  have s: "pmode s = MOUSEPAN" "\<not> moved s" "c0 = (panLastX s, panLastY s)" "viewBox s = viewBox z" "clicks s = clicks z"
    by (simp_all add: s_def handleScanStart_def panStart_def setMode_def)
  define e where "e = drag F (cs @ [c]) s"
  have e: "e = panMove F (fst c) (snd c) (drag F cs s)" by (simp add: e_def drag_def)
  have z': "z' = (let w = (setMode IDLE e)\<lparr>listening := False\<rparr> in if \<not> moved w then w\<lparr>clicks := clicks w @ [target]\<rparr> else w)"
    using assms s(1) scan_moves [OF s(1)] by (simp add: handleScanEnd_def Let_def e flip: s_def)
  have v: "viewBox z' = viewBox e" "pmode z' = IDLE" "clicks z' = (if moved e then clicks z else clicks z @ [target])"
    using s(5) by (simp_all add: z' Let_def setMode_def e_def)
  have m: "moved e \<longleftrightarrow> \<not> (\<forall>m \<in> set (cs @ [c]). near m c0)" unfolding e_def by (rule drag_still(1) [OF s(2,3)])
  have still: "(\<forall>m \<in> set (cs @ [c]). near m c0) \<Longrightarrow> viewBox e = viewBox z"
    using drag_still(2) [OF s(2,3), of "cs @ [c]" F] s(4) by (simp add: e_def)
  have "near c (panLastX e, panLastY e)" unfolding e_def by (rule drag_last)
  moreover have "tracks F s e" unfolding e_def by (rule drag_tracks)
  ultimately show ?thesis
    using v m still s(3,4) by (intro exI [of _ "(panLastX e, panLastY e)"]) (auto simp: tracks_def)
qed

theorem drag_follows_the_pointer_witness:
  "clicks (handleScanEnd demo_frame (6, 6) 9 (fold (\<lambda>m. handleScanMove demo_frame 1 m) [(7, 4)] (handleScanStart 0 (5, 5) (initPanAndZoom demo_box)))) = [9] \<and>
   clicks (handleScanEnd demo_frame (6, 6) 9 (fold (\<lambda>m. handleScanMove demo_frame 1 m) [(17, 4)] (handleScanStart 0 (5, 5) (initPanAndZoom demo_box)))) = []"
  using drag_follows_the_pointer [OF refl, where F = demo_frame and c = "(6, 6)" and target = 9 and cs = "[(7, 4)]" and ?c0.0 = "(5, 5)" and z = "initPanAndZoom demo_box"]
    drag_follows_the_pointer [OF refl, where F = demo_frame and c = "(6, 6)" and target = 9 and cs = "[(17, 4)]" and ?c0.0 = "(5, 5)" and z = "initPanAndZoom demo_box"]
  by (auto simp: near_def initPanAndZoom_def)

text \<open>
  A click with another button is passed on as well. The press of another button is ignored, as
  its comment says, but its release is not: unless the last drag moved, releasing any button calls
  the click handler, so that a click of the right button toggles the selection of a node.
\<close>

theorem other_buttons_click_too:
  assumes "button \<noteq> 0" and "pmode z = IDLE" and "\<not> moved z"
  shows "clicks (handleScanEnd F c target (handleScanStart button c0 z)) = clicks z @ [target]"
  using assms by (simp add: handleScanEnd_def handleScanStart_def setMode_def Let_def)

theorem other_buttons_click_too_witness:
  "clicks (handleScanEnd demo_frame (5, 5) 3 (handleScanStart 2 (5, 5) (initPanAndZoom demo_box))) = [3]"
  using other_buttons_click_too [of 2 "initPanAndZoom demo_box" demo_frame "(5, 5)" 3 "(5, 5)"]
  by (simp add: initPanAndZoom_def)

end
