(* ===== verification/Page_Menus.thy ===== *)
theory Page_Menus
  imports Page_Url
begin

section \<open>Menus and the dialogs for configurations\<close>

text \<open>
  The functions \<open>initMenus\<close> and \<open>initConfigManager\<close> of
  \<open>plugin/debug/pkg/internal/driver/html/common.js\<close>. Elements are numbers. A press is described by
  what the listeners ask of its target: its parent, the closest menu item and the menu headers the
  event bubbles through. Requests to the server are answered later, in any order.
\<close>

subsection \<open>Menus\<close>

record menu_entry =
  meMenu :: nat
  meHdr :: "nat option" \<comment> \<open>parent element\<close>
  meDisabled :: bool

record menus =
  activeMenu :: "nat option"
  activeMenuHdr :: "nat option"
  shownMenus :: "nat set"
  handlers :: "(nat \<times> nat) list" \<comment> \<open>menu and header with listeners\<close>
  retracts :: bool \<comment> \<open>listeners of the document\<close>

text \<open>A header that is missing or disabled ends the whole function.\<close>

fun bind_headers :: "menu_entry list \<Rightarrow> (nat \<times> nat) list \<times> bool" where
  "bind_headers [] = ([], True)"
| "bind_headers (e # es) =
     (case meHdr e of
        None \<Rightarrow> ([], False)
      | Some hdr \<Rightarrow>
          if meDisabled e then ([], False)
          else let (hs, all) = bind_headers es in ((meMenu e, hdr) # hs, all))"

definition initMenus :: "menu_entry list \<Rightarrow> menus" where
  "initMenus es =
     (let (hs, all) = bind_headers es
      in \<lparr>activeMenu = None, activeMenuHdr = None, shownMenus = {}, handlers = hs, retracts = all\<rparr>)"

definition cancelActiveMenu :: "menus \<Rightarrow> menus" where
  "cancelActiveMenu s =
     (case activeMenu s of
        None \<Rightarrow> s
      | Some m \<Rightarrow> s\<lparr>shownMenus := shownMenus s - {m}, activeMenu := None, activeMenuHdr := None\<rparr>)"

definition showMenu :: "nat option \<Rightarrow> nat \<times> nat \<Rightarrow> menus \<Rightarrow> menus" where
  "showMenu parent h s =
     (if parent \<noteq> Some (snd h) then s
      else s\<lparr>activeMenu := Some (fst h), activeMenuHdr := Some (snd h), shownMenus := insert (fst h) (shownMenus s)\<rparr>)"

text \<open>
  A press: the document's listener captures it first, then those of the headers on its way. An up
  event inside the active menu retracts it.
\<close>

definition press :: "nat option \<Rightarrow> nat option \<Rightarrow> nat list \<Rightarrow> menus \<Rightarrow> menus" where
  "press parent item path s =
     (let s = (if retracts s \<and> activeMenuHdr s \<noteq> item then cancelActiveMenu s else s)
      in fold (showMenu parent) (filter (\<lambda>h. snd h \<in> set path) (handlers s)) s)"

definition release :: "nat option \<Rightarrow> menus \<Rightarrow> menus" where
  "release submenu s = (if retracts s \<and> activeMenu s = submenu then cancelActiveMenu s else s)"

subsection \<open>Dialogs\<close>

datatype dialog = SaveDialog | DeleteDialog

datatype request = Save string | Delete string

text \<open>A deletion button: its configuration and the menu entry it is in.\<close>

record del_button =
  dbConfig :: string
  dbEntry :: "nat option"

record config_manager =
  currentDialog :: "dialog option"
  overlayShown :: bool
  shownDialogs :: "dialog set"
  saveInput :: string
  saveError :: string
  delPrompt :: string
  delError :: string
  currentDeleteTarget :: "del_button option"
  entries :: "nat set"
  pending :: "request list"
  reloads :: nat

definition showDialog :: "dialog option \<Rightarrow> config_manager \<Rightarrow> config_manager" where
  "showDialog d c =
     (let c = (case currentDialog c of
                 None \<Rightarrow> c | Some old \<Rightarrow> c\<lparr>overlayShown := False, shownDialogs := shownDialogs c - {old}\<rparr>);
          c = c\<lparr>currentDialog := d\<rparr>
      in case d of None \<Rightarrow> c | Some new \<Rightarrow> c\<lparr>overlayShown := True, shownDialogs := insert new (shownDialogs c)\<rparr>)"

definition cancelDialog :: "config_manager \<Rightarrow> config_manager" where
  "cancelDialog c = showDialog None c"

definition showSaveDialog :: "config_manager \<Rightarrow> config_manager" where
  "showSaveDialog c = showDialog (Some SaveDialog) (c\<lparr>saveError := []\<rparr>)"

definition commitSave :: "config_manager \<Rightarrow> config_manager" where
  "commitSave c = c\<lparr>saveError := [], pending := pending c @ [Save (saveInput c)]\<rparr>"

definition handleSaveInputKey :: "string \<Rightarrow> config_manager \<Rightarrow> config_manager" where
  "handleSaveInputKey key c = (if key = ''Enter'' then commitSave c else c)"

definition deleteConfig :: "del_button \<Rightarrow> config_manager \<Rightarrow> config_manager" where
  "deleteConfig b c =
     showDialog (Some DeleteDialog)
       (c\<lparr>delPrompt := ''Delete '' @ dbConfig b @ ''?'', currentDeleteTarget := Some b\<rparr>)"

definition commitDelete :: "config_manager \<Rightarrow> config_manager" where
  "commitDelete c =
     (case currentDeleteTarget c of
        None \<Rightarrow> c
      | Some b \<Rightarrow> c\<lparr>delError := [], pending := pending c @ [Delete (dbConfig b)]\<rparr>)"

text \<open>The URLs of the requests: the page's own query for a save, none of it for a deletion.\<close>

definition request_params :: "params \<Rightarrow> request \<Rightarrow> params" where
  "request_params query r =
     (case r of Save name \<Rightarrow> params_set ''config'' name query | Delete config \<Rightarrow> params_set ''config'' config [])"

text \<open>\<open>done\<close> of \<open>sendURL\<close> for the two requests.\<close>

definition save_done :: "bool \<Rightarrow> config_manager \<Rightarrow> config_manager" where
  "save_done good c =
     (if \<not> good then c\<lparr>saveError := ''Save failed''\<rparr>
      else let c = showDialog None c in c\<lparr>reloads := Suc (reloads c)\<rparr>)"

definition delete_done :: "bool \<Rightarrow> config_manager \<Rightarrow> config_manager" where
  "delete_done good c =
     (if \<not> good then c\<lparr>delError := ''Delete failed''\<rparr>
      else let c = showDialog None c
           in case currentDeleteTarget c of
                None \<Rightarrow> c
              | Some b \<Rightarrow> (case dbEntry b of None \<Rightarrow> c | Some e \<Rightarrow> c\<lparr>entries := entries c - {e}\<rparr>))"

definition answer :: "nat \<Rightarrow> bool \<Rightarrow> config_manager \<Rightarrow> config_manager" where
  "answer i good c =
     (let r = pending c ! i; c = c\<lparr>pending := take i (pending c) @ drop (Suc i) (pending c)\<rparr>
      in case r of Save _ \<Rightarrow> save_done good c | Delete _ \<Rightarrow> delete_done good c)"

definition initConfigManager :: "nat set \<Rightarrow> config_manager" where
  "initConfigManager es =
     \<lparr>currentDialog = None, overlayShown = False, shownDialogs = {}, saveInput = [], saveError = [], delPrompt = [],
      delError = [], currentDeleteTarget = None, entries = es, pending = [], reloads = 0\<rparr>"

subsection \<open>Events\<close>

inductive menu_step :: "menus \<Rightarrow> menus \<Rightarrow> bool" where
  down: "(\<And>h. h \<in> set (handlers s) \<Longrightarrow> parent = Some (snd h) \<Longrightarrow> item = Some (snd h)) \<Longrightarrow> menu_step s (press parent item path s)"
| up: "menu_step s (release submenu s)"

inductive config_step :: "config_manager \<Rightarrow> config_manager \<Rightarrow> bool" where
  open_save: "config_step c (showSaveDialog c)"
| cancel: "config_step c (cancelDialog c)"
| typed: "config_step c (c\<lparr>saveInput := name\<rparr>)"
| save: "config_step c (commitSave c)"
| save_key: "config_step c (handleSaveInputKey key c)"
| open_delete: "config_step c (deleteConfig b c)"
| delete: "config_step c (commitDelete c)"
| answered: "i < length (pending c) \<Longrightarrow> config_step c (answer i good c)"

definition menus_ok :: "menus \<Rightarrow> bool" where
  "menus_ok s \<longleftrightarrow> retracts s \<and> distinct (map snd (handlers s)) \<and> shownMenus s = set_option (activeMenu s) \<and>
     (case activeMenu s of None \<Rightarrow> activeMenuHdr s = None | Some m \<Rightarrow> \<exists>h. activeMenuHdr s = Some h \<and> (m, h) \<in> set (handlers s))"

lemma cancel_ok: "menus_ok s \<Longrightarrow> menus_ok (cancelActiveMenu s) \<and> activeMenu (cancelActiveMenu s) = None \<and>
    shownMenus (cancelActiveMenu s) = {} \<and> handlers (cancelActiveMenu s) = handlers s"
  by (cases "activeMenu s") (simp_all add: menus_ok_def cancelActiveMenu_def)

lemma distinct_snd: "distinct (map snd hs) \<Longrightarrow> (m, h) \<in> set hs \<Longrightarrow> (n, h) \<in> set hs \<Longrightarrow> m = n"
  by (metis distinct_map inj_on_def old.prod.inject snd_conv)

text \<open>At most the one header that is the target's parent reacts.\<close>

lemma show_fold:
  assumes "distinct (map snd hs)"
  shows "fold (showMenu parent) hs s = (case find (\<lambda>h. parent = Some (snd h)) hs of None \<Rightarrow> s | Some h \<Rightarrow> showMenu parent h s)"
  using assms
proof (induction hs arbitrary: s)
  case Nil
  then show ?case by simp
next
  case (Cons h hs)
  show ?case
  proof (cases "parent = Some (snd h)")
    case True
    have "snd g \<noteq> snd h" if "g \<in> set hs" for g using Cons.prems that by simp (metis imageI)
    then have "find (\<lambda>g. parent = Some (snd g)) hs = None" unfolding find_None_iff using True by fastforce
    then show ?thesis using Cons True by simp
  next
    case False
    then show ?thesis using Cons by (simp add: showMenu_def)
  qed
qed

lemma press_ok:
  assumes "menus_ok s" and "\<And>h. h \<in> set (handlers s) \<Longrightarrow> parent = Some (snd h) \<Longrightarrow> item = Some (snd h)"
  shows "menus_ok (press parent item path s)"
proof -
  define s1 where "s1 = (if activeMenuHdr s \<noteq> item then cancelActiveMenu s else s)"
  let ?hs = "filter (\<lambda>h. snd h \<in> set path) (handlers s)"
  have r: "retracts s" using assms(1) by (simp add: menus_ok_def)
  have s1: "menus_ok s1" "handlers s1 = handlers s" using assms(1) cancel_ok by (simp_all add: s1_def)
  have d: "distinct (map snd ?hs)" using assms(1) by (simp add: menus_ok_def distinct_map_filter)
  have p: "press parent item path s = (case find (\<lambda>h. parent = Some (snd h)) ?hs of None \<Rightarrow> s1 | Some h \<Rightarrow> showMenu parent h s1)"
    using r show_fold [OF d] s1(2) by (simp add: press_def Let_def flip: s1_def)
  show ?thesis
  proof (cases "find (\<lambda>h. parent = Some (snd h)) ?hs")
    case None
    then show ?thesis using p s1(1) by simp
  next
    case (Some h)
    then have h: "parent = Some (snd h)" "h \<in> set (handlers s)" by (auto simp: find_Some_iff dest!: nth_mem)
    have "shownMenus s1 \<subseteq> {fst h}"
    proof (cases "activeMenuHdr s = item")
      case False
      then show ?thesis using cancel_ok [OF assms(1)] by (simp add: s1_def)
    next
      case True
      then have "activeMenuHdr s = Some (snd h)" using assms(2) h by simp
      then show ?thesis
        using assms(1) h(2) distinct_snd [of "handlers s" _ "snd h" "fst h"] True
        by (cases "activeMenu s") (auto simp: s1_def menus_ok_def)
    qed
    then show ?thesis using p Some h s1 by (auto simp: menus_ok_def showMenu_def)
  qed
qed

lemma menu_step_ok: "menu_step s s' \<Longrightarrow> menus_ok s \<Longrightarrow> menus_ok s'"
proof (induction rule: menu_step.induct)
  case (down s parent item path)
  then show ?case by (intro press_ok) auto
next
  case (up s submenu)
  then show ?case by (simp add: release_def cancel_ok)
qed

definition dialogs_ok :: "config_manager \<Rightarrow> bool" where
  "dialogs_ok c \<longleftrightarrow> (overlayShown c \<longleftrightarrow> currentDialog c \<noteq> None) \<and> shownDialogs c = set_option (currentDialog c)"

lemma showDialog_ok: "dialogs_ok c \<Longrightarrow> dialogs_ok (showDialog d c) \<and> currentDialog (showDialog d c) = d"
  by (cases d; cases "currentDialog c") (auto simp: dialogs_ok_def showDialog_def Let_def)

lemma showDialog_fields [simp]:
  "entries (showDialog d c) = entries c" "currentDeleteTarget (showDialog d c) = currentDeleteTarget c"
  "pending (showDialog d c) = pending c" "delError (showDialog d c) = delError c"
  by (simp_all add: showDialog_def Let_def split: option.split)

lemma dialogs_ok_cong:
  "currentDialog c' = currentDialog c \<Longrightarrow> overlayShown c' = overlayShown c \<Longrightarrow> shownDialogs c' = shownDialogs c \<Longrightarrow>
   dialogs_ok c \<Longrightarrow> dialogs_ok c'"
  by (simp add: dialogs_ok_def)

lemma answer_ok: "dialogs_ok c \<Longrightarrow> dialogs_ok (answer i good c)"
proof -
  assume ok: "dialogs_ok c"
  let ?c = "c\<lparr>pending := take i (pending c) @ drop (Suc i) (pending c)\<rparr>"
  have c: "dialogs_ok ?c" using ok by (simp add: dialogs_ok_def)
  have "dialogs_ok (save_done good ?c)"
    using c showDialog_ok [OF c, of None] by (simp add: save_done_def Let_def dialogs_ok_def)
  moreover have "dialogs_ok (delete_done good ?c)"
    using c showDialog_ok [OF c, of None] by (simp add: delete_done_def Let_def dialogs_ok_def split: option.split)
  ultimately show ?thesis by (simp add: answer_def Let_def split: request.split)
qed

lemma config_step_ok: "config_step c c' \<Longrightarrow> dialogs_ok c \<Longrightarrow> dialogs_ok c'"
proof (induction rule: config_step.induct)
  case (open_save c)
  then have "dialogs_ok (c\<lparr>saveError := []\<rparr>)" by (simp add: dialogs_ok_def)
  then show ?case by (simp add: showSaveDialog_def showDialog_ok)
next
  case (cancel c)
  then show ?case by (simp add: cancelDialog_def showDialog_ok)
next
  case (open_delete c b)
  then have "dialogs_ok (c\<lparr>delPrompt := ''Delete '' @ dbConfig b @ ''?'', currentDeleteTarget := Some b\<rparr>)" by (simp add: dialogs_ok_def)
  then show ?case by (simp add: deleteConfig_def showDialog_ok)
next
  case (answered i c good)
  then show ?case by (simp add: answer_ok)
qed (auto simp: dialogs_ok_def commitSave_def handleSaveInputKey_def commitDelete_def split: option.split)

subsection \<open>Properties\<close>

text \<open>The listeners that an enabled page gets.\<close>

lemma bind_headers_all:
  "\<forall>e \<in> set es. meHdr e \<noteq> None \<and> \<not> meDisabled e \<Longrightarrow> bind_headers es = (map (\<lambda>e. (meMenu e, the (meHdr e))) es, True)"
  by (induction es) auto

text \<open>
  At most one menu is open. On a page whose menus have enabled headers of their own, after any
  sequence of presses and releases the menus shown are exactly the active one, if there is one, and
  the active header is that menu's.
\<close>

theorem one_menu_at_a_time:
  assumes "menu_step\<^sup>*\<^sup>* (initMenus es) s"
    and "\<forall>e \<in> set es. meHdr e \<noteq> None \<and> \<not> meDisabled e" and "distinct (map meHdr es)"
  shows "shownMenus s = set_option (activeMenu s) \<and>
    (\<forall>m. activeMenu s = Some m \<longrightarrow> (\<exists>h. activeMenuHdr s = Some h \<and> (m, h) \<in> set (handlers s)))"
proof -
  have "inj_on the (set (map meHdr es))"
    using assms(2) by (intro inj_onI option.expand) auto
  then have "distinct (map the (map meHdr es))" using assms(3) by (simp add: distinct_map del: map_map)
  then have "menus_ok (initMenus es)"
    using bind_headers_all [OF assms(2)] by (simp add: menus_ok_def initMenus_def comp_def)
  with assms(1) have "menus_ok s" by (induction rule: rtranclp_induct) (auto intro: menu_step_ok)
  then show ?thesis by (auto simp: menus_ok_def)
qed

definition two_menus :: "menu_entry list" where
  "two_menus = [\<lparr>meMenu = 1, meHdr = Some 10, meDisabled = False\<rparr>, \<lparr>meMenu = 2, meHdr = Some 20, meDisabled = False\<rparr>]"

theorem one_menu_at_a_time_witness:
  "shownMenus (press (Some 20) (Some 20) [20] (press (Some 10) (Some 10) [10] (initMenus two_menus))) = {2}"
proof -
  let ?a = "press (Some 10) (Some 10) [10] (initMenus two_menus)"
  have "menu_step (initMenus two_menus) ?a" by (rule menu_step.down) auto
  moreover have "menu_step ?a (press (Some 20) (Some 20) [20] ?a)" by (rule menu_step.down) auto
  ultimately have r: "menu_step\<^sup>*\<^sup>* (initMenus two_menus) (press (Some 20) (Some 20) [20] ?a)"
    by (rule rtranclp.rtrancl_into_rtrancl [OF r_into_rtranclp])
  have a: "activeMenu (press (Some 20) (Some 20) [20] ?a) = Some 2" by code_simp
  show ?thesis using one_menu_at_a_time [OF r] a by (simp add: two_menus_def)
qed

text \<open>
  A disabled menu header disables more than its menu. The loop over the menus returns at the
  first disabled header: menus after it never open, and on such a page no press outside and no
  release inside retracts a menu that was opened.
\<close>

theorem disabled_header_ends_the_setup:
  assumes "\<forall>e \<in> set before. meHdr e \<noteq> None \<and> \<not> meDisabled e" and "meDisabled e"
    and "s = initMenus (before @ e # after)"
  shows "handlers s = map (\<lambda>e. (meMenu e, the (meHdr e))) before \<and> \<not> retracts s \<and>
    shownMenus s \<subseteq> shownMenus (press parent item path s) \<and> shownMenus (release submenu s) = shownMenus s"
proof -
  have "bind_headers (before @ e # after) = (map (\<lambda>e. (meMenu e, the (meHdr e))) before, False)"
    using assms(1,2) by (induction before) (auto split: option.split)
  then have s: "handlers s = map (\<lambda>e. (meMenu e, the (meHdr e))) before" "\<not> retracts s"
    by (simp_all add: assms(3) initMenus_def)
  have "shownMenus z \<subseteq> shownMenus (fold (showMenu parent) hs z)" for hs z
  proof (induction hs arbitrary: z)
    case (Cons h hs)
    have "shownMenus z \<subseteq> shownMenus (showMenu parent h z)" by (auto simp: showMenu_def)
    then show ?case using Cons by fastforce
  qed simp
  then show ?thesis using s by (simp add: press_def release_def)
qed

theorem disabled_header_ends_the_setup_witness:
  "handlers (initMenus [\<lparr>meMenu = 1, meHdr = Some 10, meDisabled = True\<rparr>, \<lparr>meMenu = 2, meHdr = Some 20, meDisabled = False\<rparr>]) = []"
  using disabled_header_ends_the_setup [OF _ _ refl, where before = "[]" and e = "\<lparr>meMenu = 1, meHdr = Some 10, meDisabled = True\<rparr>"
      and after = "[\<lparr>meMenu = 2, meHdr = Some 20, meDisabled = False\<rparr>]"]
  by simp

text \<open>
  A late answer deletes the wrong menu entry. When the deletion of one configuration is under way
  and the deletion dialog is opened for another, the answer to the first request, if good, closes
  the dialog of the second and removes the second configuration's entry from the menu; the first
  one's stays. Without another deletion in between it is the right entry that goes.
\<close>

theorem late_answer_removes_the_wrong_entry:
  assumes "pending c = []" and "dbEntry a = Some x" and "dbEntry b = Some y" and "x \<noteq> y"
    and "{x, y} \<subseteq> entries c" and "asked = commitDelete (deleteConfig a c)"
  shows "pending asked = [Delete (dbConfig a)] \<and> entries (answer 0 True asked) = entries c - {x} \<and>
    x \<in> entries (answer 0 True (deleteConfig b asked)) \<and> y \<notin> entries (answer 0 True (deleteConfig b asked)) \<and>
    currentDialog (answer 0 True (deleteConfig b asked)) = None"
proof -
  have none: "currentDialog (showDialog None d) = None" for d
    by (simp add: showDialog_def Let_def)
  show ?thesis
    using assms by (auto simp: commitDelete_def deleteConfig_def answer_def delete_done_def Let_def none)
qed

theorem late_answer_removes_the_wrong_entry_witness:
  "entries (answer 0 True (deleteConfig \<lparr>dbConfig = ''b'', dbEntry = Some 2\<rparr>
     (commitDelete (deleteConfig \<lparr>dbConfig = ''a'', dbEntry = Some 1\<rparr> (initConfigManager {1, 2}))))) = {1}"
proof -
  let ?a = "\<lparr>dbConfig = ''a'', dbEntry = Some 1\<rparr>" and ?b = "\<lparr>dbConfig = ''b'', dbEntry = Some 2\<rparr>"
  let ?e = "entries (answer 0 True (deleteConfig ?b (commitDelete (deleteConfig ?a (initConfigManager {1, 2})))))"
  have "1 \<in> ?e" "2 \<notin> ?e"
    using late_answer_removes_the_wrong_entry [of "initConfigManager {1, 2}" ?a 1 ?b 2, OF _ _ _ _ _ refl]
    by (simp_all add: initConfigManager_def)
  moreover have "?e \<subseteq> {1, 2}" by code_simp
  ultimately show ?thesis by auto
qed

text \<open>
  At most one dialog is open, and the overlay covers the page exactly then: after any sequence of
  opening, cancelling, saving, deleting and answers of the server in any order.
\<close>

theorem one_dialog_at_a_time:
  assumes "config_step\<^sup>*\<^sup>* (initConfigManager es) c"
  shows "shownDialogs c = set_option (currentDialog c) \<and> (overlayShown c \<longleftrightarrow> currentDialog c \<noteq> None)"
proof -
  have "dialogs_ok (initConfigManager es)" by (simp add: dialogs_ok_def initConfigManager_def)
  with assms have "dialogs_ok c" by (induction rule: rtranclp_induct) (auto intro: config_step_ok)
  then show ?thesis by (simp add: dialogs_ok_def)
qed

theorem one_dialog_at_a_time_witness:
  "overlayShown (deleteConfig \<lparr>dbConfig = ''a'', dbEntry = None\<rparr> (showSaveDialog (initConfigManager {}))) \<and>
   shownDialogs (deleteConfig \<lparr>dbConfig = ''a'', dbEntry = None\<rparr> (showSaveDialog (initConfigManager {}))) = {DeleteDialog}"
proof -
  let ?b = "\<lparr>dbConfig = ''a'', dbEntry = None\<rparr>"
  have "config_step\<^sup>*\<^sup>* (initConfigManager {}) (deleteConfig ?b (showSaveDialog (initConfigManager {})))"
    by (rule rtranclp.rtrancl_into_rtrancl [OF r_into_rtranclp [of config_step, OF config_step.open_save] config_step.open_delete])
  from one_dialog_at_a_time [OF this] show ?thesis
    by (simp add: deleteConfig_def showDialog_def Let_def)
qed

end
