(* ===== verification/Batch_Client.thy ===== *)
theory Batch_Client
  imports Event_Bus Profile_Text
begin

section \<open>The WebRTC client of the batch protocol\<close>

text \<open>
  The class \<open>BatchV2Client\<close> of \<open>plugin/webrtc/web/BatchV2Client.js\<close> (compiled from
  \<open>BatchV2Client.ts\<close>). Sockets, peer connections and media streams are numbers; what the browser
  keeps about them (directions of transceivers, local descriptions, states, tracks of senders,
  messages sent) is part of the state. An asynchronous method runs up to an \<open>await\<close>, which leaves a
  task; when the browser settles the promise, \<open>resume\<close> runs the method up to its next \<open>await\<close>. Tasks of
  several calls may be pending, and socket events may come in between, so that every interleaving of
  calls is a sequence of steps. Listeners of the client are assumed not to throw and not to call the
  client. \<open>waitForIceGathering\<close> is a task that is always fulfilled: its timer sees to that.
\<close>

subsection \<open>Data\<close>

datatype level = Info | Error | Success | Warning

record stream_info =
  siPath :: string
  siCodec :: string
  siWidth :: nat
  siHeight :: nat
  siFps :: nat

datatype event =
    Connected | Disconnected | ErrorEvent string | StreamList "stream_info list" | PublishStarted string
  | PublishStopped string | StreamAdded string | StreamRemoved string | IceStateChange string
  | ConnectionStateChange string | Log string level

datatype event_kind =
    KConnected | KDisconnected | KError | KStreamList | KPublishStarted | KPublishStopped | KStreamAdded
  | KStreamRemoved | KIceStateChange | KConnectionStateChange | KLog

fun kind_of :: "event \<Rightarrow> event_kind" where
  "kind_of Connected = KConnected"
| "kind_of Disconnected = KDisconnected"
| "kind_of (ErrorEvent _) = KError"
| "kind_of (StreamList _) = KStreamList"
| "kind_of (PublishStarted _) = KPublishStarted"
| "kind_of (PublishStopped _) = KPublishStopped"
| "kind_of (StreamAdded _) = KStreamAdded"
| "kind_of (StreamRemoved _) = KStreamRemoved"
| "kind_of (IceStateChange _) = KIceStateChange"
| "kind_of (ConnectionStateChange _) = KConnectionStateChange"
| "kind_of (Log _ _) = KLog"

datatype message =
    Offer string | Publish string string | Unpublish string | Subscribe "string list" string
  | Unsubscribe "string list" string | GetStreamList

datatype reply = Answer string | ErrorReply string | StreamListReply "stream_info list" | OtherReply string

datatype direction = SendRecv | RecvOnly | InactiveDir

type_synonym tref = "nat \<times> nat" \<comment> \<open>connection and index of the transceiver\<close>

text \<open>What \<open>sendUnsubscribeSignal\<close> returns to: the rest of \<open>subscribeToStreams\<close> or of \<open>unsubscribeFromStream\<close>.\<close>

datatype after = ThenSubscribe "string list" | ThenForget string

datatype task =
    OpenOffer nat | OpenLocal nat nat
  | PubMedia string | PubReplace string tref nat | PubOffer string | PubLocal string nat | PubIce string
  | StopReplace string tref | StopOffer string | StopLocal string nat | StopIce string
  | UnsubOffer "string list" after | UnsubLocal "string list" after nat | UnsubIce "string list" after
  | SubOffer "string list" | SubLocal "string list" nat
  | AnswerSet

datatype outcome = Fulfilled string nat | Rejected string

record client =
  wsUrl :: string
  ws :: "nat option"
  pc :: "nat option"
  localStream :: "nat option"
  subscribedStreams :: "string list"
  videoSenders :: "string \<Rightarrow> tref option option"
  streamToTransceiver :: "string \<Rightarrow> tref option option"
  eventListeners :: "event_kind \<Rightarrow> nat list option"
  tasks :: "task list"
  settled :: "(string \<times> string option) list" \<comment> \<open>calls and their errors, as promises settle_call\<close>
  pendingConnect :: "nat set" \<comment> \<open>sockets whose call of \<open>connect\<close> has not settled\<close>
  calls :: "(nat \<times> event) list" \<comment> \<open>listeners called\<close>
  sent :: "(nat \<times> message) list"
  nextWs :: nat
  nextPc :: nat
  openWs :: "nat set"
  closingWs :: "nat set"
  closedPc :: "nat set"
  directions :: "nat \<Rightarrow> direction list"
  localSdp :: "nat \<Rightarrow> string option"
  pcState :: "nat \<Rightarrow> string"
  senderTrack :: "tref \<Rightarrow> nat option"
  stoppedStreams :: "nat list"
  intervals :: "nat set"

definition new_BatchV2Client :: "bool \<Rightarrow> string \<Rightarrow> string option \<Rightarrow> client" where
  "new_BatchV2Client https location_host host =
     \<lparr>wsUrl = (if https then ''wss:'' else ''ws:'') @ ''//''
              @ (case host of None \<Rightarrow> location_host | Some h \<Rightarrow> if h = [] then location_host else h) @ ''/webrtc/batchv2'',
      ws = None, pc = None, localStream = None, subscribedStreams = [], videoSenders = Map.empty,
      streamToTransceiver = Map.empty, eventListeners = Map.empty, tasks = [], settled = [], pendingConnect = {}, calls = [], sent = [],
      nextWs = 0, nextPc = 0, openWs = {}, closingWs = {}, closedPc = {}, directions = (\<lambda>_. []), localSdp = Map.empty,
      pcState = (\<lambda>_. ''new''), senderTrack = Map.empty, stoppedStreams = [], intervals = {}\<rparr>"

subsection \<open>Listeners\<close>

definition client_on :: "event_kind \<Rightarrow> nat \<Rightarrow> client \<Rightarrow> client" where
  "client_on e l c =
     (let ls = (case eventListeners c e of None \<Rightarrow> [] | Some ls \<Rightarrow> ls)
      in c\<lparr>eventListeners := (eventListeners c)(e \<mapsto> ls @ [l])\<rparr>)"

definition client_off :: "event_kind \<Rightarrow> nat \<Rightarrow> client \<Rightarrow> client" where
  "client_off e l c =
     (case eventListeners c e of
        None \<Rightarrow> c | Some ls \<Rightarrow> c\<lparr>eventListeners := (eventListeners c)(e \<mapsto> remove1 l ls)\<rparr>)"

definition emit :: "event \<Rightarrow> client \<Rightarrow> client" where
  "emit e c =
     (case eventListeners c (kind_of e) of
        None \<Rightarrow> c | Some ls \<Rightarrow> c\<lparr>calls := calls c @ map (\<lambda>l. (l, e)) ls\<rparr>)"

definition client_log :: "string \<Rightarrow> level \<Rightarrow> client \<Rightarrow> client" where
  "client_log message level c = emit (Log message level) c"

subsection \<open>Promises\<close>

definition settle_call :: "string \<Rightarrow> string option \<Rightarrow> client \<Rightarrow> client" where
  "settle_call api err c = c\<lparr>settled := settled c @ [(api, err)]\<rparr>"

text \<open>The promise of \<open>connect\<close> belongs to its socket; only the first \<open>resolve\<close> or \<open>reject\<close> counts.\<close>

definition settle_connect :: "nat \<Rightarrow> string option \<Rightarrow> client \<Rightarrow> client" where
  "settle_connect w err c =
     (if w \<in> pendingConnect c then settle_call ''connect'' err (c\<lparr>pendingConnect := pendingConnect c - {w}\<rparr>) else c)"

definition await_task :: "task \<Rightarrow> client \<Rightarrow> client" where
  "await_task t c = c\<lparr>tasks := tasks c @ [t]\<rparr>"

text \<open>The message of the \<open>TypeError\<close> for a property of \<open>null\<close>.\<close>

definition null_error :: "string \<Rightarrow> string" where
  "null_error member = ''Cannot read properties of null (reading '' @ member @ '')''"

definition with_pc :: "string \<Rightarrow> (string \<Rightarrow> client \<Rightarrow> client) \<Rightarrow> (nat \<Rightarrow> client \<Rightarrow> client) \<Rightarrow> client \<Rightarrow> client" where
  "with_pc member fail go c = (case pc c of None \<Rightarrow> fail (null_error member) c | Some p \<Rightarrow> go p c)"

definition with_sdp :: "(string \<Rightarrow> client \<Rightarrow> client) \<Rightarrow> (string \<Rightarrow> client \<Rightarrow> client) \<Rightarrow> client \<Rightarrow> client" where
  "with_sdp fail go c =
     with_pc ''localDescription'' fail
       (\<lambda>p c. case localSdp c p of None \<Rightarrow> fail (null_error ''sdp'') c | Some s \<Rightarrow> go s c) c"

text \<open>\<open>waitForIceGathering\<close> up to its \<open>await\<close>.\<close>

definition wait_ice :: "(string \<Rightarrow> client \<Rightarrow> client) \<Rightarrow> task \<Rightarrow> client \<Rightarrow> client" where
  "wait_ice fail t c = (case pc c of None \<Rightarrow> fail ''PeerConnection not initialized'' c | Some _ \<Rightarrow> await_task t c)"

text \<open>
  \<open>sendMessage\<close>. A socket that is still connecting throws; one that is closing drops the message.
\<close>

definition send_message :: "(string \<Rightarrow> client \<Rightarrow> client) \<Rightarrow> message \<Rightarrow> (client \<Rightarrow> client) \<Rightarrow> client \<Rightarrow> client" where
  "send_message fail msg go c =
     (case ws c of
        None \<Rightarrow> go (client_log ''Not connected to server'' Error c)
      | Some w \<Rightarrow>
          if w \<in> openWs c then go (c\<lparr>sent := sent c @ [(w, msg)]\<rparr>)
          else if w \<in> closingWs c then go c
          else fail ''InvalidStateError'' c)"

subsection \<open>Connection\<close>

definition cleanup :: "client \<Rightarrow> client" where
  "cleanup c =
     (let c = (case ws c of
                 None \<Rightarrow> c | Some w \<Rightarrow> c\<lparr>openWs := openWs c - {w}, closingWs := insert w (closingWs c), ws := None\<rparr>);
          c = (case pc c of None \<Rightarrow> c | Some p \<Rightarrow> c\<lparr>closedPc := insert p (closedPc c), pc := None\<rparr>);
          c = (case localStream c of None \<Rightarrow> c | Some s \<Rightarrow> c\<lparr>stoppedStreams := stoppedStreams c @ [s], localStream := None\<rparr>);
          c = c\<lparr>subscribedStreams := [], videoSenders := Map.empty, streamToTransceiver := Map.empty\<rparr>
      in client_log ''Connection cleaned up'' Info c)"

definition disconnect :: "client \<Rightarrow> client" where
  "disconnect c = cleanup c"

text \<open>\<open>bad\<close> is the error of the constructor \<open>WebSocket\<close>, if it throws.\<close>

definition connect :: "string option \<Rightarrow> client \<Rightarrow> client" where
  "connect bad c =
     (let c = client_log (''Connecting to '' @ wsUrl c @ ''...'') Info c
      in case bad of
           Some e \<Rightarrow>
             settle_call ''connect'' (Some e) (emit (ErrorEvent e) (cleanup (client_log (''Connection error: '' @ e) Error c)))
         | None \<Rightarrow>
             c\<lparr>ws := Some (nextWs c), nextWs := Suc (nextWs c), pendingConnect := insert (nextWs c) (pendingConnect c)\<rparr>)"

text \<open>
  The listeners of a socket. Only the socket's own events run them, but what they use is the client's
  current socket and connection. An error in \<open>onopen\<close> is lost.
\<close>

definition lost :: "string \<Rightarrow> client \<Rightarrow> client" where
  "lost e c = c"

definition ws_open :: "nat \<Rightarrow> client \<Rightarrow> client" where
  "ws_open w c =
     (let c = c\<lparr>openWs := insert w (openWs c)\<rparr>;
          c = client_log ''WebSocket connection established'' Success c;
          p = nextPc c;
          c = c\<lparr>pc := Some p, nextPc := Suc p, directions := (directions c)(p := [SendRecv])\<rparr>;
          c = c\<lparr>videoSenders := (videoSenders c)(''placeholder'' \<mapsto> Some (p, 0))\<rparr>;
          c = client_log ''Added placeholder tracks to PeerConnection'' Info c
      in await_task (OpenOffer w) c)"

definition ws_close :: "nat \<Rightarrow> client \<Rightarrow> client" where
  "ws_close w c =
     (let c = c\<lparr>openWs := openWs c - {w}, closingWs := insert w (closingWs c)\<rparr>;
          c = client_log ''WebSocket connection closed'' Info c
      in settle_connect w (Some ''WebSocket connection closed'') (emit Disconnected (cleanup c)))"

definition ws_error :: "nat \<Rightarrow> client \<Rightarrow> client" where
  "ws_error w c =
     settle_connect w (Some ''WebSocket error'')
       (emit (ErrorEvent ''WebSocket error'') (cleanup (client_log ''WebSocket error: [object Event]'' Error c)))"

subsection \<open>Publishing\<close>

definition publish_failed :: "string \<Rightarrow> client \<Rightarrow> client" where
  "publish_failed e c = settle_call ''startPublishing'' (Some e) (emit (ErrorEvent e) (client_log (''Publishing error: '' @ e) Error c))"

definition startPublishing :: "string \<Rightarrow> client \<Rightarrow> client" where
  "startPublishing path c =
     (if path = [] then publish_failed ''Please enter a valid stream path'' c
      else if pc c = None \<or> ws c = None then publish_failed ''Not connected to server'' c
      else await_task (PubMedia path) c)"

definition stop_failed :: "string \<Rightarrow> client \<Rightarrow> client" where
  "stop_failed e c = settle_call ''stopPublishing'' (Some e) (emit (ErrorEvent e) (client_log (''Error stopping publish: '' @ e) Error c))"

text \<open>The part of \<open>stopPublishing\<close> after the sender has no track any more.\<close>

definition stop_rest :: "string \<Rightarrow> client \<Rightarrow> client" where
  "stop_rest path c =
     (let c = (case localStream c of
                 None \<Rightarrow> c | Some s \<Rightarrow> c\<lparr>stoppedStreams := stoppedStreams c @ [s], localStream := None\<rparr>)
      in with_pc ''createOffer'' stop_failed (\<lambda>p. await_task (StopOffer path)) c)"

definition stopPublishing :: "string \<Rightarrow> client \<Rightarrow> client" where
  "stopPublishing path c =
     (if pc c = None \<or> ws c = None then stop_failed ''Not connected to server'' c
      else case videoSenders c path of
             Some (Some r) \<Rightarrow> await_task (StopReplace path r) c
           | _ \<Rightarrow> stop_rest path c)"

definition getStreamList :: "client \<Rightarrow> client" where
  "getStreamList c =
     (case ws c of
        None \<Rightarrow> client_log ''Not connected to server'' Error c
      | Some _ \<Rightarrow> send_message lost GetStreamList (client_log ''Requested stream list'' Info) c)"

subsection \<open>Subscribing\<close>

definition set_add :: "string \<Rightarrow> string list \<Rightarrow> string list" where
  "set_add x xs = (if x \<in> set xs then xs else xs @ [x])"

definition subscribe_failed :: "string \<Rightarrow> client \<Rightarrow> client" where
  "subscribe_failed e c =
     settle_call ''subscribeToStreams'' (Some e) (emit (ErrorEvent e) (client_log (''Error playing streams: '' @ e) Error c))"

definition unsubscribe_failed :: "string \<Rightarrow> client \<Rightarrow> client" where
  "unsubscribe_failed e c =
     settle_call ''unsubscribeFromStream'' (Some e) (emit (ErrorEvent e) (client_log (''Error unsubscribing from stream: '' @ e) Error c))"

definition set_direction :: "tref \<Rightarrow> direction \<Rightarrow> client \<Rightarrow> client" where
  "set_direction r d c = c\<lparr>directions := (directions c)(fst r := (directions c (fst r))[snd r := d])\<rparr>"

definition remove_stream :: "string \<Rightarrow> client \<Rightarrow> client" where
  "remove_stream s c =
     (let c = (case streamToTransceiver c s of
                 Some (Some r) \<Rightarrow>
                   let c = set_direction r InactiveDir c;
                       c = client_log (''Set transceiver for removed stream '' @ s @ '' to inactive'') Info c
                   in c\<lparr>streamToTransceiver := (streamToTransceiver c)(s := None)\<rparr>
               | _ \<Rightarrow> c)
      in emit (StreamRemoved s) c)"

text \<open>The loop that takes inactive transceivers from the end of the list.\<close>

fun activate :: "nat \<Rightarrow> direction list \<Rightarrow> direction list" where
  "activate 0 ds = ds"
| "activate (Suc k) [] = []"
| "activate (Suc k) (d # ds) = (if d = InactiveDir then RecvOnly # activate k ds else d # activate (Suc k) ds)"

definition inactive_count :: "direction list \<Rightarrow> nat" where
  "inactive_count ds = length (filter (\<lambda>d. d = InactiveDir) ds)"

definition receive_on :: "nat \<Rightarrow> direction list \<Rightarrow> direction list" where
  "receive_on k ds = rev (activate k (rev ds)) @ replicate (k - inactive_count ds) RecvOnly"

fun comma_join :: "string list \<Rightarrow> string" where
  "comma_join [] = []"
| "comma_join [s] = s"
| "comma_join (s # ss) = s @ '', '' @ comma_join ss"

definition subscribe_done :: "client \<Rightarrow> client" where
  "subscribe_done c =
     settle_call ''subscribeToStreams'' None
       (client_log (''Total playing streams: '' @ nat_text (length (subscribedStreams c))) Success c)"

text \<open>The rest of \<open>subscribeToStreams\<close> once the streams that were dropped are unsubscribed.\<close>

definition subscribe_rest :: "string list \<Rightarrow> client \<Rightarrow> client" where
  "subscribe_rest previous c =
     (let new = filter (\<lambda>p. p \<notin> set previous) (subscribedStreams c);
          c = client_log (''New stream paths: '' @ comma_join new) Info c
      in if new = [] then subscribe_done c
         else with_pc ''getTransceivers'' subscribe_failed (\<lambda>p c.
           let free = inactive_count (directions c p);
               c = client_log (''Available transceivers: '' @ nat_text free) Info c;
               add = length new - free;
               c = (if add > 0 then client_log (''Adding '' @ nat_text add @ '' new video transceivers'') Info c else c);
               c = c\<lparr>directions := (directions c)(p := receive_on (length new) (directions c p))\<rparr>
           in await_task (SubOffer new) c) c)"

definition send_unsubscribe :: "string list \<Rightarrow> after \<Rightarrow> client \<Rightarrow> client" where
  "send_unsubscribe paths k c = await_task (UnsubOffer paths k) c"

definition subscribeToStreams :: "string list \<Rightarrow> client \<Rightarrow> client" where
  "subscribeToStreams paths c =
     (if pc c = None \<or> ws c = None then subscribe_failed ''Not connected to server'' c
      else if paths = [] then subscribe_failed ''Please select at least one stream'' c
      else
        let previous = subscribedStreams c;
            c = c\<lparr>subscribedStreams := fold set_add paths []\<rparr>;
            removed = filter (\<lambda>s. s \<notin> set (subscribedStreams c)) previous;
            c = fold remove_stream removed c
        in if removed \<noteq> [] then send_unsubscribe removed (ThenSubscribe previous) c
           else subscribe_rest previous c)"

definition forget_stream :: "string \<Rightarrow> client \<Rightarrow> client" where
  "forget_stream path c =
     (let c = c\<lparr>subscribedStreams := filter (\<lambda>s. s \<noteq> path) (subscribedStreams c)\<rparr>;
          c = emit (StreamRemoved path) c;
          c = client_log (''Removed '' @ path @ '' from subscription list'') Info c
      in settle_call ''unsubscribeFromStream'' None c)"

definition unsubscribeFromStream :: "string \<Rightarrow> client \<Rightarrow> client" where
  "unsubscribeFromStream path c =
     (if pc c = None \<or> ws c = None then unsubscribe_failed ''Not connected to server'' c
      else case streamToTransceiver c path of
             Some (Some r) \<Rightarrow>
               let c = set_direction r InactiveDir c;
                   c = client_log (''Set transceiver for '' @ path @ '' to inactive'') Info c;
                   c = c\<lparr>streamToTransceiver := (streamToTransceiver c)(path := None)\<rparr>
               in send_unsubscribe [path] (ThenForget path) c
           | _ \<Rightarrow> forget_stream path c)"

text \<open>An error in \<open>sendUnsubscribeSignal\<close> is logged there and thrown on to its caller.\<close>

definition unsub_failed :: "after \<Rightarrow> string \<Rightarrow> client \<Rightarrow> client" where
  "unsub_failed k e c =
     (let c = client_log (''Error sending unsubscribe signal: '' @ e) Error c
      in case k of ThenSubscribe _ \<Rightarrow> subscribe_failed e c | ThenForget _ \<Rightarrow> unsubscribe_failed e c)"

definition unsub_returns :: "after \<Rightarrow> client \<Rightarrow> client" where
  "unsub_returns k c = (case k of ThenSubscribe previous \<Rightarrow> subscribe_rest previous c | ThenForget path \<Rightarrow> forget_stream path c)"

subsection \<open>After an await\<close>

text \<open>
  \<open>resume t out\<close> runs the method of a task on. A fulfilled \<open>createOffer\<close> and
  \<open>setLocalDescription\<close> carry the description, a fulfilled \<open>getUserMedia\<close> the stream.
\<close>

fun resume :: "task \<Rightarrow> outcome \<Rightarrow> client \<Rightarrow> client" where
  "resume (OpenOffer w) (Fulfilled s n) c = with_pc ''setLocalDescription'' lost (\<lambda>p. await_task (OpenLocal w p)) c"
| "resume (OpenLocal w p) (Fulfilled s n) c =
     with_sdp lost (\<lambda>sdp. send_message lost (Offer sdp) (\<lambda>c. settle_connect w None (emit Connected c)))
       (c\<lparr>localSdp := (localSdp c)(p \<mapsto> s)\<rparr>)"
| "resume (PubMedia path) (Fulfilled s n) c =
     (let c = c\<lparr>localStream := Some n\<rparr>
      in case videoSenders c ''placeholder'' of
           Some (Some r) \<Rightarrow> await_task (PubReplace path r n) c
         | _ \<Rightarrow>
             let c = c\<lparr>videoSenders := (videoSenders c)(''placeholder'' := None, path \<mapsto> None)\<rparr>
             in with_pc ''createOffer'' publish_failed (\<lambda>p. await_task (PubOffer path)) c)"
| "resume (PubReplace path r n) (Fulfilled s m) c =
     (let c = c\<lparr>senderTrack := (senderTrack c)(r \<mapsto> n)\<rparr>;
          c = client_log ''Replaced placeholder video track with real track'' Success c;
          c = c\<lparr>videoSenders := (videoSenders c)(''placeholder'' := None, path \<mapsto> Some r)\<rparr>
      in with_pc ''createOffer'' publish_failed (\<lambda>p. await_task (PubOffer path)) c)"
| "resume (PubOffer path) (Fulfilled s n) c =
     with_pc ''setLocalDescription'' publish_failed (\<lambda>p. await_task (PubLocal path p)) c"
| "resume (PubLocal path p) (Fulfilled s n) c =
     wait_ice publish_failed (PubIce path) (c\<lparr>localSdp := (localSdp c)(p \<mapsto> s)\<rparr>)"
| "resume (PubIce path) out c =
     with_sdp publish_failed (\<lambda>sdp. send_message publish_failed (Publish path sdp) (\<lambda>c.
       settle_call ''startPublishing'' None (emit (PublishStarted path) (client_log (''Started publishing to '' @ path) Success c)))) c"
| "resume (StopReplace path r) (Fulfilled s n) c =
     (let c = c\<lparr>senderTrack := (senderTrack c)(r := None)\<rparr>;
          c = client_log ''Removed video track'' Info c;
          c = c\<lparr>videoSenders := (videoSenders c)(path := None, ''placeholder'' \<mapsto> Some r)\<rparr>
      in stop_rest path c)"
| "resume (StopOffer path) (Fulfilled s n) c =
     with_pc ''setLocalDescription'' stop_failed (\<lambda>p. await_task (StopLocal path p)) c"
| "resume (StopLocal path p) (Fulfilled s n) c =
     wait_ice stop_failed (StopIce path) (c\<lparr>localSdp := (localSdp c)(p \<mapsto> s)\<rparr>)"
| "resume (StopIce path) out c =
     send_message stop_failed (Unpublish path) (\<lambda>c.
       settle_call ''stopPublishing'' None (emit (PublishStopped path) (client_log (''Stopped publishing to '' @ path) Success c))) c"
| "resume (UnsubOffer paths k) (Fulfilled s n) c =
     with_pc ''setLocalDescription'' (unsub_failed k) (\<lambda>p. await_task (UnsubLocal paths k p)) c"
| "resume (UnsubLocal paths k p) (Fulfilled s n) c =
     wait_ice (unsub_failed k) (UnsubIce paths k) (c\<lparr>localSdp := (localSdp c)(p \<mapsto> s)\<rparr>)"
| "resume (UnsubIce paths k) out c =
     with_sdp (unsub_failed k) (\<lambda>sdp. send_message (unsub_failed k) (Unsubscribe paths sdp) (\<lambda>c.
       unsub_returns k (client_log (''Sent unsubscribe signal for '' @ nat_text (length paths) @ '' streams'') Info c))) c"
| "resume (SubOffer new) (Fulfilled s n) c =
     with_pc ''setLocalDescription'' subscribe_failed (\<lambda>p. await_task (SubLocal new p)) c"
| "resume (SubLocal new p) (Fulfilled s n) c =
     with_sdp subscribe_failed (\<lambda>sdp. send_message subscribe_failed (Subscribe new sdp) (\<lambda>c.
       subscribe_done (client_log (''Subscribing to '' @ nat_text (length new) @ '' new streams'') Success c)))
       (c\<lparr>localSdp := (localSdp c)(p \<mapsto> s)\<rparr>)"
| "resume AnswerSet (Fulfilled s n) c = client_log ''Remote description set'' Success c"
| "resume (OpenOffer w) (Rejected e) c = c"
| "resume (OpenLocal w p) (Rejected e) c = c"
| "resume (PubMedia path) (Rejected e) c = publish_failed e c"
| "resume (PubReplace path r n) (Rejected e) c = publish_failed e c"
| "resume (PubOffer path) (Rejected e) c = publish_failed e c"
| "resume (PubLocal path p) (Rejected e) c = publish_failed e c"
| "resume (StopReplace path r) (Rejected e) c = stop_failed e c"
| "resume (StopOffer path) (Rejected e) c = stop_failed e c"
| "resume (StopLocal path p) (Rejected e) c = stop_failed e c"
| "resume (UnsubOffer paths k) (Rejected e) c = unsub_failed k e c"
| "resume (UnsubLocal paths k p) (Rejected e) c = unsub_failed k e c"
| "resume (SubOffer new) (Rejected e) c = subscribe_failed e c"
| "resume (SubLocal new p) (Rejected e) c = subscribe_failed e c"
| "resume AnswerSet (Rejected e) c = c"

text \<open>The promise of the \<open>i\<close>th pending task settles.\<close>

definition settle_task :: "nat \<Rightarrow> outcome \<Rightarrow> client \<Rightarrow> client" where
  "settle_task i out c = resume (tasks c ! i) out (c\<lparr>tasks := take i (tasks c) @ drop (Suc i) (tasks c)\<rparr>)"

subsection \<open>Events of the connection\<close>

definition handleTrackEvent :: "string \<Rightarrow> string \<Rightarrow> tref option \<Rightarrow> string option \<Rightarrow> nat \<Rightarrow> client \<Rightarrow> client" where
  "handleTrackEvent kind track transceiver stream interval c =
     (let c = client_log (''Track received: '' @ kind @ ''/'' @ track) Success c;
          c = (if transceiver = None then client_log (''Could not find transceiver for track: '' @ track) Warning c else c);
          c = c\<lparr>intervals := insert interval (intervals c)\<rparr>
      in case stream of
           Some s \<Rightarrow>
             if kind = ''video''
             then emit (StreamAdded s) (c\<lparr>streamToTransceiver := (streamToTransceiver c)(s \<mapsto> transceiver)\<rparr>)
             else c
         | None \<Rightarrow> c)"

definition track_unmuted :: "string \<Rightarrow> string \<Rightarrow> client \<Rightarrow> client" where
  "track_unmuted kind track c = client_log (''Track unmuted: '' @ kind @ ''/'' @ track) Success c"

text \<open>A tick of the statistics: the counts it keeps are never read; \<open>err\<close> is an error of \<open>getStats\<close>.\<close>

definition stats_tick :: "nat \<Rightarrow> string option \<Rightarrow> client \<Rightarrow> client" where
  "stats_tick i err c =
     (if pc c = None \<or> pcState c (the (pc c)) \<noteq> ''connected''
      then (client_log ''Connection state changed, stopping stats collection'' Info c)\<lparr>intervals := intervals c - {i}\<rparr>
      else case err of None \<Rightarrow> c | Some e \<Rightarrow> client_log (''Error getting stats: '' @ e) Error c)"

text \<open>
  The state changes of connection \<open>p\<close>. The listeners read the client's current connection and throw
  if there is none; \<open>state\<close> of \<open>ice_state\<close> is what they read there.
\<close>

definition connection_state :: "nat \<Rightarrow> string \<Rightarrow> client \<Rightarrow> client" where
  "connection_state p state c =
     (let c = c\<lparr>pcState := (pcState c)(p := state)\<rparr>
      in case pc c of
           None \<Rightarrow> c
         | Some q \<Rightarrow>
             let c = client_log (''Connection state changed: '' @ pcState c q) Info c;
                 c = emit (ConnectionStateChange (pcState c q)) c
             in if pcState c q = ''connected'' then client_log ''PeerConnection established successfully'' Success c else c)"

definition ice_state :: "string \<Rightarrow> string \<Rightarrow> client \<Rightarrow> client" where
  "ice_state what state c =
     (case pc c of
        None \<Rightarrow> c
      | Some q \<Rightarrow>
          let c = emit (IceStateChange state) (client_log (''ICE '' @ what @ '' state: '' @ state) Info c)
          in if what = ''connection'' \<and> state = ''failed'' then client_log ''ICE connection failed'' Error c else c)"

definition ice_candidate :: "string option \<Rightarrow> client \<Rightarrow> client" where
  "ice_candidate candidate c =
     (case candidate of
        Some s \<Rightarrow> client_log (''ICE candidate: '' @ s) Info c | None \<Rightarrow> client_log ''ICE gathering complete'' Info c)"

definition reply_type :: "reply \<Rightarrow> string" where
  "reply_type r =
     (case r of Answer _ \<Rightarrow> ''answer'' | ErrorReply _ \<Rightarrow> ''error'' | StreamListReply _ \<Rightarrow> ''streamList'' | OtherReply t \<Rightarrow> t)"

definition handleWebSocketMessage :: "reply \<Rightarrow> client \<Rightarrow> client" where
  "handleWebSocketMessage r c =
     (let c = client_log (''Received message: '' @ reply_type r) Info c
      in case r of
           Answer sdp \<Rightarrow> with_pc ''setRemoteDescription'' lost (\<lambda>p. await_task AnswerSet) c
         | ErrorReply msg \<Rightarrow> emit (ErrorEvent msg) (client_log (''Error: '' @ msg) Error c)
         | StreamListReply streams \<Rightarrow>
             emit (StreamList streams)
               (client_log (''Received stream list with '' @ nat_text (length streams) @ '' streams'') Info c)
         | OtherReply t \<Rightarrow> c)"

definition getLocalStream :: "client \<Rightarrow> nat option" where
  "getLocalStream c = localStream c"

definition getSubscribedStreams :: "client \<Rightarrow> string list" where
  "getSubscribedStreams c = subscribedStreams c"

subsection \<open>What the steps leave alone\<close>

lemma emit_frame [simp]:
  "wsUrl (emit e c) = wsUrl c" "ws (emit e c) = ws c" "pc (emit e c) = pc c" "localStream (emit e c) = localStream c"
  "subscribedStreams (emit e c) = subscribedStreams c" "videoSenders (emit e c) = videoSenders c"
  "streamToTransceiver (emit e c) = streamToTransceiver c" "eventListeners (emit e c) = eventListeners c"
  "tasks (emit e c) = tasks c" "sent (emit e c) = sent c" "nextWs (emit e c) = nextWs c" "nextPc (emit e c) = nextPc c"
  "openWs (emit e c) = openWs c" "closingWs (emit e c) = closingWs c" "closedPc (emit e c) = closedPc c"
  "directions (emit e c) = directions c" "localSdp (emit e c) = localSdp c" "pcState (emit e c) = pcState c"
  "senderTrack (emit e c) = senderTrack c" "stoppedStreams (emit e c) = stoppedStreams c"
  "intervals (emit e c) = intervals c" "settled (emit e c) = settled c"
  by (simp_all add: emit_def split: option.split)

lemma client_log_frame [simp]:
  "wsUrl (client_log m l c) = wsUrl c" "ws (client_log m l c) = ws c" "pc (client_log m l c) = pc c" "localStream (client_log m l c) = localStream c"
  "subscribedStreams (client_log m l c) = subscribedStreams c" "videoSenders (client_log m l c) = videoSenders c"
  "streamToTransceiver (client_log m l c) = streamToTransceiver c" "eventListeners (client_log m l c) = eventListeners c"
  "tasks (client_log m l c) = tasks c" "sent (client_log m l c) = sent c" "nextWs (client_log m l c) = nextWs c" "nextPc (client_log m l c) = nextPc c"
  "openWs (client_log m l c) = openWs c" "closingWs (client_log m l c) = closingWs c" "closedPc (client_log m l c) = closedPc c"
  "directions (client_log m l c) = directions c" "localSdp (client_log m l c) = localSdp c" "pcState (client_log m l c) = pcState c"
  "senderTrack (client_log m l c) = senderTrack c" "stoppedStreams (client_log m l c) = stoppedStreams c"
  "intervals (client_log m l c) = intervals c" "settled (client_log m l c) = settled c"
  by (simp_all add: client_log_def)

lemma settle_frame [simp]:
  "wsUrl (settle_call a e c) = wsUrl c" "ws (settle_call a e c) = ws c" "pc (settle_call a e c) = pc c"
  "localStream (settle_call a e c) = localStream c" "subscribedStreams (settle_call a e c) = subscribedStreams c"
  "videoSenders (settle_call a e c) = videoSenders c" "streamToTransceiver (settle_call a e c) = streamToTransceiver c"
  "eventListeners (settle_call a e c) = eventListeners c" "tasks (settle_call a e c) = tasks c" "sent (settle_call a e c) = sent c"
  "nextWs (settle_call a e c) = nextWs c" "nextPc (settle_call a e c) = nextPc c" "openWs (settle_call a e c) = openWs c"
  "closingWs (settle_call a e c) = closingWs c" "closedPc (settle_call a e c) = closedPc c" "directions (settle_call a e c) = directions c"
  "localSdp (settle_call a e c) = localSdp c" "pcState (settle_call a e c) = pcState c" "senderTrack (settle_call a e c) = senderTrack c"
  "stoppedStreams (settle_call a e c) = stoppedStreams c" "intervals (settle_call a e c) = intervals c"
  "settled (settle_call a e c) = settled c @ [(a, e)]"
  by (simp_all add: settle_call_def)

lemma settle_connect_frame [simp]:
  "ws (settle_connect w e c) = ws c" "pc (settle_connect w e c) = pc c"
  "localStream (settle_connect w e c) = localStream c" "subscribedStreams (settle_connect w e c) = subscribedStreams c"
  "videoSenders (settle_connect w e c) = videoSenders c" "streamToTransceiver (settle_connect w e c) = streamToTransceiver c"
  "tasks (settle_connect w e c) = tasks c" "sent (settle_connect w e c) = sent c"
  "nextWs (settle_connect w e c) = nextWs c" "nextPc (settle_connect w e c) = nextPc c" "openWs (settle_connect w e c) = openWs c"
  "closingWs (settle_connect w e c) = closingWs c" "directions (settle_connect w e c) = directions c"
  by (simp_all add: settle_connect_def)

lemma pending_frame [simp]:
  "pendingConnect (emit e c) = pendingConnect c" "pendingConnect (client_log m l c) = pendingConnect c"
  "pendingConnect (settle_call a err c) = pendingConnect c" "pendingConnect (await_task t c) = pendingConnect c"
  by (simp_all add: emit_def client_log_def settle_call_def await_task_def split: option.split)

lemma await_frame [simp]:
  "wsUrl (await_task t c) = wsUrl c" "ws (await_task t c) = ws c" "pc (await_task t c) = pc c"
  "localStream (await_task t c) = localStream c" "subscribedStreams (await_task t c) = subscribedStreams c"
  "videoSenders (await_task t c) = videoSenders c" "streamToTransceiver (await_task t c) = streamToTransceiver c"
  "eventListeners (await_task t c) = eventListeners c" "sent (await_task t c) = sent c" "nextWs (await_task t c) = nextWs c"
  "nextPc (await_task t c) = nextPc c" "openWs (await_task t c) = openWs c" "closingWs (await_task t c) = closingWs c"
  "closedPc (await_task t c) = closedPc c" "directions (await_task t c) = directions c"
  "localSdp (await_task t c) = localSdp c" "pcState (await_task t c) = pcState c"
  "senderTrack (await_task t c) = senderTrack c" "stoppedStreams (await_task t c) = stoppedStreams c"
  "intervals (await_task t c) = intervals c" "settled (await_task t c) = settled c"
  "tasks (await_task t c) = tasks c @ [t]"
  by (simp_all add: await_task_def)

lemma publish_failed_frame [simp]:
  "ws (publish_failed e c) = ws c" "pc (publish_failed e c) = pc c" "localStream (publish_failed e c) = localStream c"
  "subscribedStreams (publish_failed e c) = subscribedStreams c" "videoSenders (publish_failed e c) = videoSenders c"
  "streamToTransceiver (publish_failed e c) = streamToTransceiver c" "tasks (publish_failed e c) = tasks c"
  "sent (publish_failed e c) = sent c" "openWs (publish_failed e c) = openWs c"
  "closingWs (publish_failed e c) = closingWs c" "directions (publish_failed e c) = directions c"
  "localSdp (publish_failed e c) = localSdp c" "senderTrack (publish_failed e c) = senderTrack c"
  "stoppedStreams (publish_failed e c) = stoppedStreams c"
  "settled (publish_failed e c) = settled c @ [(''startPublishing'', Some e)]"
  by (simp_all add: publish_failed_def)

lemma stop_failed_frame [simp]:
  "ws (stop_failed e c) = ws c" "pc (stop_failed e c) = pc c" "localStream (stop_failed e c) = localStream c"
  "subscribedStreams (stop_failed e c) = subscribedStreams c" "videoSenders (stop_failed e c) = videoSenders c"
  "streamToTransceiver (stop_failed e c) = streamToTransceiver c" "tasks (stop_failed e c) = tasks c"
  "sent (stop_failed e c) = sent c" "openWs (stop_failed e c) = openWs c" "closingWs (stop_failed e c) = closingWs c"
  "directions (stop_failed e c) = directions c" "localSdp (stop_failed e c) = localSdp c"
  "senderTrack (stop_failed e c) = senderTrack c" "stoppedStreams (stop_failed e c) = stoppedStreams c"
  "settled (stop_failed e c) = settled c @ [(''stopPublishing'', Some e)]"
  by (simp_all add: stop_failed_def)

lemma subscribe_failed_frame [simp]:
  "ws (subscribe_failed e c) = ws c" "pc (subscribe_failed e c) = pc c" "localStream (subscribe_failed e c) = localStream c"
  "subscribedStreams (subscribe_failed e c) = subscribedStreams c" "videoSenders (subscribe_failed e c) = videoSenders c"
  "streamToTransceiver (subscribe_failed e c) = streamToTransceiver c" "tasks (subscribe_failed e c) = tasks c"
  "sent (subscribe_failed e c) = sent c" "openWs (subscribe_failed e c) = openWs c"
  "closingWs (subscribe_failed e c) = closingWs c" "directions (subscribe_failed e c) = directions c"
  "localSdp (subscribe_failed e c) = localSdp c" "senderTrack (subscribe_failed e c) = senderTrack c"
  "stoppedStreams (subscribe_failed e c) = stoppedStreams c"
  "settled (subscribe_failed e c) = settled c @ [(''subscribeToStreams'', Some e)]"
  by (simp_all add: subscribe_failed_def)

lemma unsubscribe_failed_frame [simp]:
  "ws (unsubscribe_failed e c) = ws c" "pc (unsubscribe_failed e c) = pc c"
  "localStream (unsubscribe_failed e c) = localStream c" "subscribedStreams (unsubscribe_failed e c) = subscribedStreams c"
  "videoSenders (unsubscribe_failed e c) = videoSenders c"
  "streamToTransceiver (unsubscribe_failed e c) = streamToTransceiver c" "tasks (unsubscribe_failed e c) = tasks c"
  "sent (unsubscribe_failed e c) = sent c" "openWs (unsubscribe_failed e c) = openWs c"
  "closingWs (unsubscribe_failed e c) = closingWs c" "directions (unsubscribe_failed e c) = directions c"
  "localSdp (unsubscribe_failed e c) = localSdp c" "senderTrack (unsubscribe_failed e c) = senderTrack c"
  "stoppedStreams (unsubscribe_failed e c) = stoppedStreams c"
  "settled (unsubscribe_failed e c) = settled c @ [(''unsubscribeFromStream'', Some e)]"
  by (simp_all add: unsubscribe_failed_def)

lemma unsub_failed_frame [simp]:
  "ws (unsub_failed k e c) = ws c" "pc (unsub_failed k e c) = pc c" "localStream (unsub_failed k e c) = localStream c"
  "subscribedStreams (unsub_failed k e c) = subscribedStreams c" "videoSenders (unsub_failed k e c) = videoSenders c"
  "streamToTransceiver (unsub_failed k e c) = streamToTransceiver c" "tasks (unsub_failed k e c) = tasks c"
  "sent (unsub_failed k e c) = sent c" "openWs (unsub_failed k e c) = openWs c"
  "closingWs (unsub_failed k e c) = closingWs c" "directions (unsub_failed k e c) = directions c"
  "localSdp (unsub_failed k e c) = localSdp c" "senderTrack (unsub_failed k e c) = senderTrack c"
  "stoppedStreams (unsub_failed k e c) = stoppedStreams c"
  "settled (unsub_failed k e c) = settled c @ [(case k of ThenSubscribe _ \<Rightarrow> ''subscribeToStreams'' | ThenForget _ \<Rightarrow> ''unsubscribeFromStream'', Some e)]"
  by (simp_all add: unsub_failed_def Let_def split: after.split)

lemmas flow_defs = with_pc_def with_sdp_def wait_ice_def send_message_def

subsection \<open>Listeners as a table of subscriptions\<close>

definition listeners_of :: "client \<Rightarrow> event_kind \<Rightarrow> nat list" where
  "listeners_of c e = (case eventListeners c e of None \<Rightarrow> [] | Some ls \<Rightarrow> ls)"

interpretation client_table: subscription_table client_on client_off listeners_of "\<lambda>c. True"
  by unfold_locales (auto simp: listeners_of_def client_on_def client_off_def split: option.split)

lemma emit_calls: "calls (emit e c) = calls c @ map (\<lambda>l. (l, e)) (listeners_of c (kind_of e))"
  by (simp add: emit_def listeners_of_def split: option.split)

end
