(* ===== verification/Batch_Calls.thy ===== *)
theory Batch_Calls
  imports Batch_Client
begin

section \<open>Calls of the WebRTC client\<close>

text \<open>
  What a call of \<open>startPublishing\<close>, \<open>stopPublishing\<close>, \<open>subscribeToStreams\<close> or
  \<open>unsubscribeFromStream\<close> of \<open>Batch_Client\<close> does from its first statement to the settling of its
  promise, when the browser's answers come one after the other, and what goes wrong when calls or
  connections overlap.
\<close>

subsection \<open>A call on its own\<close>

text \<open>The browser settles the pending promises of a call one after the other.\<close>

fun finish :: "outcome list \<Rightarrow> client \<Rightarrow> client" where
  "finish [] c = c"
| "finish (out # outs) c = (if tasks c = [] then c else finish outs (settle_task 0 out c))"

definition connected :: "nat \<Rightarrow> nat \<Rightarrow> client \<Rightarrow> bool" where
  "connected w p c \<longleftrightarrow> ws c = Some w \<and> w \<in> openWs c \<and> pc c = Some p"

text \<open>How many awaits a call can still meet.\<close>

fun rank :: "task \<Rightarrow> nat" where
  "rank (OpenOffer w) = 2" | "rank (OpenLocal w p) = 1"
| "rank (PubMedia path) = 5" | "rank (PubReplace path r n) = 4" | "rank (PubOffer path) = 3"
| "rank (PubLocal path p) = 2" | "rank (PubIce path) = 1"
| "rank (StopReplace path r) = 4" | "rank (StopOffer path) = 3" | "rank (StopLocal path p) = 2" | "rank (StopIce path) = 1"
| "rank (UnsubOffer paths k) = 5" | "rank (UnsubLocal paths k p) = 4" | "rank (UnsubIce paths k) = 3"
| "rank (SubOffer new) = 2" | "rank (SubLocal new p) = 1"
| "rank AnswerSet = 1"

fun of_call :: "task \<Rightarrow> bool" where
  "of_call (OpenOffer w) = False" | "of_call (OpenLocal w p) = False" | "of_call AnswerSet = False" | "of_call t = True"

text \<open>One step of a call: it settles, or it waits again with fewer awaits to come.\<close>

definition advances :: "nat \<Rightarrow> client \<Rightarrow> client \<Rightarrow> bool" where
  "advances r c c' \<longleftrightarrow>
     (tasks c' = tasks c \<and> (\<exists>a e. settled c' = settled c @ [(a, e)])) \<or>
     (settled c' = settled c \<and> (\<exists>t. tasks c' = tasks c @ [t] \<and> of_call t \<and> rank t < r))"

lemma advances_failed:
  "advances r c (publish_failed e c)" "advances r c (stop_failed e c)" "advances r c (subscribe_failed e c)"
  "advances r c (unsubscribe_failed e c)" "advances r c (unsub_failed k e c)" "advances r c (subscribe_done c)"
  "advances r c (forget_stream path c)"
  by (auto simp: advances_def subscribe_done_def forget_stream_def Let_def)

lemma advances_cong:
  "tasks d = tasks c \<Longrightarrow> settled d = settled c \<Longrightarrow> advances r d c' \<longleftrightarrow> advances r c c'"
  by (simp add: advances_def)

lemma advances_await: "of_call t \<Longrightarrow> rank t < r \<Longrightarrow> advances r c (await_task t c)"
  by (simp add: advances_def)


lemma advances_rest:
  "2 < r \<Longrightarrow> advances r c (subscribe_rest previous c)" "3 < r \<Longrightarrow> advances r c (stop_rest path c)"
  "2 < r \<Longrightarrow> advances r c (unsub_returns k c)"
proof -
  show s: "2 < r \<Longrightarrow> advances r c (subscribe_rest previous c)" for r c previous
    by (auto simp: subscribe_rest_def Let_def flow_defs advances_def subscribe_done_def split: option.split)
  show "3 < r \<Longrightarrow> advances r c (stop_rest path c)"
    by (auto simp: stop_rest_def Let_def flow_defs advances_def split: option.split)
  show "2 < r \<Longrightarrow> advances r c (unsub_returns k c)"
    using s by (auto simp: unsub_returns_def advances_failed split: after.split)
qed

lemma resume_advances: "of_call t \<Longrightarrow> advances (rank t) c (resume t out c)"
proof (induction t out c rule: resume.induct)
  case (14 paths k out c)
  have u: "advances 3 c (unsub_returns k d)" if "tasks d = tasks c" "settled d = settled c" for d
    using advances_rest(3) [of 3 d k] that by (simp add: advances_def)
  show ?case
    using advances_failed(5) [of 3 c k] by (auto simp: flow_defs split: option.split intro: u)
next
  case (8 path r s n c)
  have "advances 4 c (stop_rest path d)" if "tasks d = tasks c" "settled d = settled c" for d
    using advances_rest(2) [of 4 d path] that by (simp add: advances_def)
  then show ?case by (simp add: Let_def)
qed (auto simp: flow_defs Let_def advances_def subscribe_done_def split: option.split)

lemma remove_stream_frame [simp]:
  "ws (remove_stream s c) = ws c" "pc (remove_stream s c) = pc c" "tasks (remove_stream s c) = tasks c"
  "settled (remove_stream s c) = settled c" "sent (remove_stream s c) = sent c" "openWs (remove_stream s c) = openWs c"
  "subscribedStreams (remove_stream s c) = subscribedStreams c" "localSdp (remove_stream s c) = localSdp c"
  by (simp_all add: remove_stream_def set_direction_def Let_def split: option.split)

lemma fold_remove_frame [simp]:
  "ws (fold remove_stream ss c) = ws c" "pc (fold remove_stream ss c) = pc c" "tasks (fold remove_stream ss c) = tasks c"
  "settled (fold remove_stream ss c) = settled c" "sent (fold remove_stream ss c) = sent c"
  "openWs (fold remove_stream ss c) = openWs c" "subscribedStreams (fold remove_stream ss c) = subscribedStreams c"
  "localSdp (fold remove_stream ss c) = localSdp c"
  by (induction ss arbitrary: c) simp_all

lemma calls_advance:
  "advances 6 c (startPublishing path c)" "advances 6 c (stopPublishing path c)"
  "advances 6 c (subscribeToStreams paths c)" "advances 6 c (unsubscribeFromStream path c)"
proof -
  show "advances 6 c (startPublishing path c)"
    by (simp add: startPublishing_def advances_failed advances_await)
  show "advances 6 c (stopPublishing path c)"
    using advances_rest(2) [of 6 c path] by (auto simp: stopPublishing_def advances_failed advances_await split: option.split)
  have "advances 6 c (subscribe_rest previous d)" if "tasks d = tasks c" "settled d = settled c" for d previous
    using advances_rest(1) [of 6 d previous] that by (simp add: advances_def)
  moreover have "advances 6 c (send_unsubscribe ss k d)" if "tasks d = tasks c" "settled d = settled c" for d ss k
    using that by (simp add: send_unsubscribe_def advances_def)
  ultimately show "advances 6 c (subscribeToStreams paths c)" "advances 6 c (unsubscribeFromStream path c)"
    by (auto simp: subscribeToStreams_def unsubscribeFromStream_def Let_def advances_failed set_direction_def split: option.split)
qed

lemma finish_idle: "tasks c = [] \<Longrightarrow> finish outs c = c"
  by (cases outs) simp_all

lemma finish_settles:
  "tasks c = [t] \<Longrightarrow> of_call t \<Longrightarrow> rank t \<le> length outs \<Longrightarrow>
   tasks (finish outs c) = [] \<and> (\<exists>a e. settled (finish outs c) = settled c @ [(a, e)])"
proof (induction outs arbitrary: c t)
  case Nil
  then show ?case by (cases t) simp_all
next
  case (Cons out outs)
  let ?c = "settle_task 0 out c"
  have c: "?c = resume t out (c\<lparr>tasks := []\<rparr>)" using Cons.prems(1) by (simp add: settle_task_def)
  have "advances (rank t) (c\<lparr>tasks := []\<rparr>) ?c" unfolding c by (rule resume_advances [OF Cons.prems(2)])
  then consider a e where "tasks ?c = []" "settled ?c = settled c @ [(a, e)]"
    | t' where "tasks ?c = [t']" "settled ?c = settled c" "of_call t'" "rank t' < rank t"
    by (auto simp: advances_def)
  then show ?case
  proof cases
    case 1
    then show ?thesis using Cons.prems(1) by (simp add: finish_idle)
  next
    case 2
    then show ?thesis using Cons.IH [of ?c t'] Cons.prems by simp
  qed
qed

subsection \<open>Properties\<close>

lemma calls_end_settled:
  assumes "tasks c = []" and "5 \<le> length outs"
    and "c' \<in> {startPublishing path c, stopPublishing path c, subscribeToStreams paths c, unsubscribeFromStream path c}"
  shows "tasks (finish outs c') = [] \<and> (\<exists>api err. settled (finish outs c') = settled c @ [(api, err)])"
proof -
  have "advances 6 c c'" using assms(3) calls_advance by auto
  then consider "tasks c' = []" "\<exists>a e. settled c' = settled c @ [(a, e)]"
    | t where "tasks c' = [t]" "settled c' = settled c" "of_call t" "rank t < 6"
    using assms(1) by (auto simp: advances_def)
  then show ?thesis
  proof cases
    case 1
    then show ?thesis by (simp add: finish_idle)
  next
    case (2 t)
    then show ?thesis using finish_settles [OF 2(1,3), of outs] assms(2) by simp
  qed
qed

lemma calls_end:
  "tasks c = [] \<Longrightarrow> 5 \<le> length outs \<Longrightarrow>
   c' \<in> {startPublishing path c, stopPublishing path c, subscribeToStreams paths c, unsubscribeFromStream path c} \<Longrightarrow>
   tasks (finish outs c') = []"
  by (drule (2) calls_end_settled) blast

text \<open>
  C9. Every call settles exactly once. Whatever the browser answers, fulfilled or rejected, and
  whatever the state the call finds, a call to publish, to stop publishing, to subscribe or to
  unsubscribe is over after at most five answers, and its promise has been settled once, resolved or
  rejected with an error.
\<close>

theorem every_call_settles_once:
  assumes "tasks c = []" and "5 \<le> length outs"
    and "c' \<in> {startPublishing path c, stopPublishing path c, subscribeToStreams paths c, unsubscribeFromStream path c}"
  shows "tasks (finish outs c') = [] \<and> (\<exists>api err. settled (finish outs c') = settled c @ [(api, err)])"
  by (rule calls_end_settled [OF assms])

text \<open>A client that has connected and sent its offer.\<close>

definition demo_client :: client where
  "demo_client = finish [Fulfilled ''sdp0'' 0, Fulfilled ''sdp1'' 0]
     (ws_open 0 (connect None (client_on KStreamRemoved 5 (new_BatchV2Client True ''host'' None))))"

theorem every_call_settles_once_witness:
  "tasks (finish (replicate 5 (Rejected ''busy'')) (startPublishing ''a'' demo_client)) = []"
proof -
  have "tasks demo_client = []" by code_simp
  from every_call_settles_once [OF this, of "replicate 5 (Rejected ''busy'')" "startPublishing ''a'' demo_client" "''a''"]
  show ?thesis by simp
qed

subsection \<open>What a subscription sends\<close>

lemma set_add_fold:
  "set (fold set_add xs ys) = set xs \<union> set ys" "distinct ys \<Longrightarrow> distinct (fold set_add xs ys)"
  by (induction xs arbitrary: ys) (auto simp: set_add_def)

lemma fold_set_add_distinct: "distinct (ys @ xs) \<Longrightarrow> fold set_add xs ys = ys @ xs"
  by (induction xs arbitrary: ys) (simp_all add: set_add_def)

definition receiving :: "direction list \<Rightarrow> nat" where
  "receiving ds = length (filter (\<lambda>d. d \<noteq> InactiveDir) ds)"

lemma activate_receiving: "receiving (activate k ds) = receiving ds + min k (inactive_count ds)"
  by (induction k ds rule: activate.induct) (auto simp: receiving_def inactive_count_def)

lemma receiving_append [simp]: "receiving (xs @ ys) = receiving xs + receiving ys" "receiving (rev xs) = receiving xs"
  by (simp_all add: receiving_def flip: rev_filter)

lemma inactive_rev [simp]: "inactive_count (rev xs) = inactive_count xs"
  by (simp add: inactive_count_def flip: rev_filter)

lemma receive_on_receiving: "receiving (receive_on k ds) = receiving ds + k"
proof -
  have "receiving (replicate n RecvOnly) = n" for n by (simp add: receiving_def)
  then show ?thesis by (simp add: receive_on_def activate_receiving)
qed


lemma finish_step: "tasks c = [t] \<Longrightarrow> finish (out # outs) c = finish outs (resume t out (c\<lparr>tasks := []\<rparr>))"
  by (simp add: settle_task_def)

lemma await_done: "tasks c = [] \<Longrightarrow> (await_task t c)\<lparr>tasks := []\<rparr> = c"
  by (simp add: await_task_def)

definition diff_new :: "string list \<Rightarrow> string list \<Rightarrow> string list" where
  "diff_new previous current = filter (\<lambda>p. p \<notin> set previous) current"

lemma finish_subscribe_rest:
  assumes "connected w p c" and "tasks c = []"
    and "c' = finish (Fulfilled sdp 0 # Fulfilled sdp 0 # outs) (subscribe_rest previous c)"
  shows "connected w p c' \<and> tasks c' = [] \<and> settled c' = settled c @ [(''subscribeToStreams'', None)] \<and>
    subscribedStreams c' = subscribedStreams c \<and>
    sent c' = sent c @ (if diff_new previous (subscribedStreams c) = [] then [] else [(w, Subscribe (diff_new previous (subscribedStreams c)) sdp)]) \<and>
    receiving (directions c' p) = receiving (directions c p) + length (diff_new previous (subscribedStreams c))"
proof (cases "diff_new previous (subscribedStreams c) = []")
  case True
  then have "subscribe_rest previous c = subscribe_done (client_log (''New stream paths: '' @ comma_join []) Info c)"
    by (simp add: subscribe_rest_def Let_def diff_new_def)
  then show ?thesis using assms True by (simp add: finish_idle subscribe_done_def connected_def)
next
  case False
  let ?new = "diff_new previous (subscribedStreams c)"
  obtain d where d: "subscribe_rest previous c = await_task (SubOffer ?new) d" "connected w p d" "tasks d = []" "settled d = settled c"
    "sent d = sent c" "subscribedStreams d = subscribedStreams c" "directions d p = receive_on (length ?new) (directions c p)"
    using False assms(1,2)
    by (simp add: subscribe_rest_def Let_def diff_new_def [symmetric] with_pc_def connected_def)
  have "c' = finish (Fulfilled sdp 0 # outs) (await_task (SubLocal ?new p) d)"
    unfolding assms(3) d(1) using d(2,3) by (simp add: finish_step await_done with_pc_def connected_def del: finish.simps)
  also have "\<dots> = finish outs (resume (SubLocal ?new p) (Fulfilled sdp 0) d)"
    using d(3) by (simp add: finish_step await_done del: finish.simps resume.simps)
  finally have c': "c' = finish outs (resume (SubLocal ?new p) (Fulfilled sdp 0) d)" .
  have "tasks (resume (SubLocal ?new p) (Fulfilled sdp 0) d) = []"
    using d by (simp add: flow_defs connected_def subscribe_done_def)
  then have "c' = resume (SubLocal ?new p) (Fulfilled sdp 0) d" using c' by (simp add: finish_idle)
  then show ?thesis
    using d False by (simp add: flow_defs connected_def subscribe_done_def receive_on_receiving)
qed

lemma finish_unsubscribe:
  assumes "connected w p c" and "tasks c = []"
  obtains d where "finish (Fulfilled sdp 0 # Fulfilled sdp 0 # Fulfilled sdp 0 # outs) (send_unsubscribe paths k c) = finish outs (unsub_returns k d)"
    "connected w p d" "tasks d = []" "settled d = settled c" "subscribedStreams d = subscribedStreams c"
    "sent d = sent c @ [(w, Unsubscribe paths sdp)]" "directions d = directions c" "streamToTransceiver d = streamToTransceiver c"
proof -
  let ?c = "c\<lparr>localSdp := (localSdp c)(p \<mapsto> sdp)\<rparr>"
  have "finish (Fulfilled sdp 0 # Fulfilled sdp 0 # Fulfilled sdp 0 # outs) (send_unsubscribe paths k c)
      = finish outs (resume (UnsubIce paths k) (Fulfilled sdp 0) ?c)"
    using assms by (simp add: send_unsubscribe_def finish_step await_done with_pc_def wait_ice_def connected_def del: finish.simps)
  also have "resume (UnsubIce paths k) (Fulfilled sdp 0) ?c =
      unsub_returns k (client_log (''Sent unsubscribe signal for '' @ nat_text (length paths) @ '' streams'') Info (?c\<lparr>sent := sent c @ [(w, Unsubscribe paths sdp)]\<rparr>))"
    using assms by (simp add: flow_defs connected_def)
  finally show ?thesis by (rule that) (use assms in \<open>simp_all add: connected_def\<close>)
qed

lemma subscribe_exchange:
  assumes "connected w p c" and "tasks c = []" and "paths \<noteq> []"
    and "removed = filter (\<lambda>s. s \<notin> set paths) (subscribedStreams c)"
    and "c' = finish (replicate 5 (Fulfilled sdp 0)) (subscribeToStreams paths c)"
  shows "connected w p c' \<and> tasks c' = [] \<and> settled c' = settled c @ [(''subscribeToStreams'', None)] \<and>
    distinct (subscribedStreams c') \<and> set (subscribedStreams c') = set paths \<and>
    (\<exists>new. set new = set paths - set (subscribedStreams c) \<and> distinct new \<and>
       sent c' = sent c @ (if removed = [] then [] else [(w, Unsubscribe removed sdp)]) @ (if new = [] then [] else [(w, Subscribe new sdp)]) \<and>
       receiving (directions c' p) =
         receiving (directions (fold remove_stream removed (c\<lparr>subscribedStreams := fold set_add paths []\<rparr>)) p) + length new)"
proof -
  let ?F = "Fulfilled sdp 0" and ?old = "subscribedStreams c"
  define d where "d = fold remove_stream removed (c\<lparr>subscribedStreams := fold set_add paths []\<rparr>)"
  have d: "connected w p d" "tasks d = []" "settled d = settled c" "sent d = sent c" "subscribedStreams d = fold set_add paths []"
    using assms(1,2) by (simp_all add: d_def connected_def)
  let ?new = "diff_new ?old (subscribedStreams d)"
  have new: "set ?new = set paths - set ?old" "distinct ?new"
    by (auto simp: diff_new_def d(5) set_add_fold)
  have sub: "distinct (subscribedStreams d)" "set (subscribedStreams d) = set paths" by (simp_all add: d(5) set_add_fold)
  have call: "subscribeToStreams paths c = (if removed \<noteq> [] then send_unsubscribe removed (ThenSubscribe ?old) d else subscribe_rest ?old d)"
    using assms(1,3,4) by (simp add: subscribeToStreams_def Let_def d_def connected_def set_add_fold)
  have five: "replicate 5 ?F = [?F, ?F, ?F, ?F, ?F]" by (simp add: numeral_eq_Suc)
  show ?thesis
  proof (cases "removed = []")
    case True
    have "c' = finish (?F # ?F # [?F, ?F, ?F]) (subscribe_rest ?old d)" using assms(5) call True five by simp
    from finish_subscribe_rest [OF d(1,2) this] show ?thesis
      using True d new sub d_def by (intro conjI exI [of _ ?new]) auto
  next
    case False
    obtain e where e: "finish (?F # ?F # ?F # [?F, ?F]) (send_unsubscribe removed (ThenSubscribe ?old) d) = finish [?F, ?F] (unsub_returns (ThenSubscribe ?old) e)"
      "connected w p e" "tasks e = []" "settled e = settled d" "subscribedStreams e = subscribedStreams d"
      "sent e = sent d @ [(w, Unsubscribe removed sdp)]" "directions e = directions d"
      by (rule finish_unsubscribe [OF d(1,2)])
    have "c' = finish (?F # ?F # []) (subscribe_rest ?old e)"
      using assms(5) call False five e(1) by (simp add: unsub_returns_def)
    from finish_subscribe_rest [OF e(2,3) this] show ?thesis
      using False d e new sub by (intro conjI exI [of _ ?new]) (auto simp flip: d_def)
  qed
qed

text \<open>
  C5. A subscription exchanges exactly the difference. On a connected client with nothing pending,
  when the browser fulfils everything: \<open>subscribeToStreams\<close> leaves the requested paths, each once, as
  the subscribed streams; it sends one \<open>unsubscribe\<close> for the streams no longer wanted, if there are
  any, then one \<open>subscribe\<close> for the new ones, if there are any, and nothing for streams kept; and the
  transceivers that are not inactive grow by the number of new streams.
\<close>

theorem subscription_exchanges_the_difference:
  assumes "connected w p c" and "tasks c = []" and "paths \<noteq> []"
    and "removed = filter (\<lambda>s. s \<notin> set paths) (subscribedStreams c)"
    and "c' = finish (replicate 5 (Fulfilled sdp 0)) (subscribeToStreams paths c)"
  shows "tasks c' = [] \<and> settled c' = settled c @ [(''subscribeToStreams'', None)] \<and>
    distinct (subscribedStreams c') \<and> set (subscribedStreams c') = set paths \<and>
    (\<exists>new. set new = set paths - set (subscribedStreams c) \<and> distinct new \<and>
       sent c' = sent c @ (if removed = [] then [] else [(w, Unsubscribe removed sdp)]) @ (if new = [] then [] else [(w, Subscribe new sdp)]) \<and>
       receiving (directions c' p) =
         receiving (directions (fold remove_stream removed (c\<lparr>subscribedStreams := fold set_add paths []\<rparr>)) p) + length new)"
  using subscribe_exchange [OF assms] by blast

lemma demo_client_ready: "connected 0 0 demo_client" "tasks demo_client = []"
proof -
  have "ws demo_client = Some 0" "0 \<in> openWs demo_client" "pc demo_client = Some 0" by code_simp+
  then show "connected 0 0 demo_client" by (simp add: connected_def)
  show "tasks demo_client = []" by code_simp
qed

theorem subscription_exchanges_the_difference_witness:
  "\<exists>new. set new = {''a'', ''b''} \<and> sent (finish (replicate 5 (Fulfilled ''s'' 0)) (subscribeToStreams [''b'', ''a'', ''b''] demo_client))
     = sent demo_client @ [(0, Subscribe new ''s'')]"
proof -
  have s: "subscribedStreams demo_client = []" by code_simp
  obtain new where "set new = set [''b'', ''a'', ''b'']"
    "sent (finish (replicate 5 (Fulfilled ''s'' 0)) (subscribeToStreams [''b'', ''a'', ''b''] demo_client))
     = sent demo_client @ (if new = [] then [] else [(0, Subscribe new ''s'')])"
    using subscription_exchanges_the_difference [OF demo_client_ready, of "[''b'', ''a'', ''b'']" "[]" _ "''s''", OF _ _ refl] s by auto
  then show ?thesis by (intro exI [of _ new]) (auto split: if_splits)
qed

lemma cleanup_frame [simp]:
  "ws (cleanup c) = None" "pc (cleanup c) = None" "localStream (cleanup c) = None" "subscribedStreams (cleanup c) = []"
  "videoSenders (cleanup c) = Map.empty" "streamToTransceiver (cleanup c) = Map.empty" "nextWs (cleanup c) = nextWs c"
  "closingWs (cleanup c) = closingWs c \<union> set_option (ws c)" "settled (cleanup c) = settled c" "tasks (cleanup c) = tasks c"
  by (cases "ws c"; cases "pc c"; cases "localStream c"; simp add: cleanup_def Let_def)+

lemma cleanup_pending [simp]: "pendingConnect (cleanup c) = pendingConnect c"
  by (cases "ws c"; cases "pc c"; cases "localStream c"; simp add: cleanup_def Let_def)

lemma connect_frame:
  "ws (connect None c) = Some (nextWs c)" "settled (connect None c) = settled c" "closingWs (connect None c) = closingWs c"
  "pendingConnect (connect None c) = insert (nextWs c) (pendingConnect c)"
  by (simp_all add: connect_def Let_def)

lemma ws_close_frame:
  "ws (ws_close w c) = None" "pc (ws_close w c) = None" "closingWs (ws_close w c) = insert w (closingWs c) \<union> set_option (ws c)"
  "pendingConnect (ws_close w c) = pendingConnect c - {w}"
  "settled (ws_close w c) = settled c @ (if w \<in> pendingConnect c then [(''connect'', Some ''WebSocket connection closed'')] else [])"
  by (simp_all add: ws_close_def settle_connect_def Let_def)

text \<open>
  C38. Reconnecting is undone by the old connection's end. The socket that \<open>disconnect\<close> closes reports
  its end later; if the client has called \<open>connect\<close> again by then, the old socket's listener cleans
  up the new connection: the client has no socket any more and the new one is closed, and when the
  new socket's end comes in its turn the new call of \<open>connect\<close> is rejected, although nothing failed.
\<close>

theorem reconnect_is_torn_down:
  assumes "ws c = Some old" and "old < nextWs c" and "c1 = connect None (disconnect c)" and "c2 = ws_close old c1"
  shows "ws c1 = Some (nextWs c) \<and> ws c2 = None \<and> pc c2 = None \<and> nextWs c \<in> closingWs c2 \<and> nextWs c \<in> pendingConnect c2 \<and>
    settled (ws_close (nextWs c) c2) = settled c2 @ [(''connect'', Some ''WebSocket connection closed'')]"
  using assms by (simp add: ws_close_frame connect_frame disconnect_def)

theorem reconnect_is_torn_down_witness:
  "settled (ws_close 1 (ws_close 0 (connect None (disconnect demo_client)))) =
   [(''connect'', None), (''connect'', Some ''WebSocket connection closed'')]"
proof -
  have c: "ws demo_client = Some 0" "0 < nextWs demo_client" and n: "nextWs demo_client = 1" by code_simp+
  have "settled (ws_close 0 (connect None (disconnect demo_client))) = [(''connect'', None)]" by code_simp
  with reconnect_is_torn_down [OF c refl refl] n show ?thesis by simp
qed

subsection \<open>Publishing and stopping\<close>

text \<open>The browser's answers to a call of \<open>startPublishing\<close> that all goes well.\<close>

definition publish_answers :: "string \<Rightarrow> nat \<Rightarrow> outcome list" where
  "publish_answers sdp stream = replicate 5 (Fulfilled sdp stream)"

lemma five: "replicate 5 x = [x, x, x, x, x]"
  by (simp add: numeral_eq_Suc)

lemma finish_publish_end:
  assumes "connected w p d" and "tasks d = []"
  obtains d' where "finish (Fulfilled sdp n # Fulfilled sdp n # Fulfilled sdp n # outs) (await_task (PubOffer path) d) = d'"
    "tasks d' = []" "connected w p d'" "localStream d' = localStream d" "videoSenders d' = videoSenders d" "senderTrack d' = senderTrack d"
    "stoppedStreams d' = stoppedStreams d" "sent d' = sent d @ [(w, Publish path sdp)]"
    "settled d' = settled d @ [(''startPublishing'', None)]" "eventListeners d' = eventListeners d"
proof -
  let ?c = "d\<lparr>localSdp := (localSdp d)(p \<mapsto> sdp)\<rparr>"
  have "finish (Fulfilled sdp n # Fulfilled sdp n # Fulfilled sdp n # outs) (await_task (PubOffer path) d)
      = finish outs (resume (PubIce path) (Fulfilled sdp n) ?c)"
    using assms by (simp add: finish_step await_done with_pc_def wait_ice_def connected_def del: finish.simps)
  also have "resume (PubIce path) (Fulfilled sdp n) ?c =
      settle_call ''startPublishing'' None (emit (PublishStarted path) (client_log (''Started publishing to '' @ path) Success (?c\<lparr>sent := sent d @ [(w, Publish path sdp)]\<rparr>)))"
    using assms by (simp add: flow_defs connected_def)
  also have "finish outs \<dots> = \<dots>" using assms(2) by (simp add: finish_idle)
  finally show ?thesis by (rule that) (use assms in \<open>simp_all add: connected_def\<close>)
qed

lemma startPublishing_connected:
  assumes "connected w p c" and "path \<noteq> []"
  shows "startPublishing path c = await_task (PubMedia path) c"
  using assms by (simp add: startPublishing_def connected_def)

text \<open>
  Only one stream can be published, though the second call says it succeeds. While a stream is
  being published there is no spare sender: a further \<open>startPublishing\<close>, with everything fulfilled,
  resolves and announces the second stream to the server, but no sender carries its track, and the
  camera stream of the first is forgotten without being stopped.
\<close>

theorem second_publish_sends_nothing:
  assumes "connected w p c" and "tasks c = []" and "path \<noteq> []" and "videoSenders c ''placeholder'' = None"
    and "c' = finish (publish_answers sdp stream) (startPublishing path c)"
  shows "settled c' = settled c @ [(''startPublishing'', None)] \<and> sent c' = sent c @ [(w, Publish path sdp)] \<and>
    senderTrack c' = senderTrack c \<and> videoSenders c' path = Some None \<and>
    localStream c' = Some stream \<and> stoppedStreams c' = stoppedStreams c"
proof -
  let ?F = "Fulfilled sdp stream"
  let ?d = "c\<lparr>localStream := Some stream, videoSenders := (videoSenders c)(''placeholder'' := None, path \<mapsto> None)\<rparr>"
  have "c' = finish [?F, ?F, ?F, ?F] (await_task (PubOffer path) ?d)"
    unfolding assms(5) publish_answers_def five startPublishing_connected [OF assms(1,3)]
    using assms(1,2,4) by (simp add: finish_step await_done Let_def with_pc_def connected_def del: finish.simps)
  moreover have "connected w p ?d" "tasks ?d = []" using assms(1,2) by (simp_all add: connected_def)
  ultimately obtain d' where "c' = d'" "localStream d' = localStream ?d" "videoSenders d' = videoSenders ?d"
    "senderTrack d' = senderTrack ?d" "stoppedStreams d' = stoppedStreams ?d" "sent d' = sent ?d @ [(w, Publish path sdp)]"
    "settled d' = settled ?d @ [(''startPublishing'', None)]"
    using finish_publish_end [of w p ?d sdp stream "[?F]" path] by metis
  then show ?thesis by simp
qed


definition demo_publishing :: client where
  "demo_publishing = finish (publish_answers ''p'' 7) (startPublishing ''a'' demo_client)"

theorem second_publish_sends_nothing_witness:
  "sent (finish (publish_answers ''q'' 8) (startPublishing ''b'' demo_publishing)) = sent demo_publishing @ [(0, Publish ''b'' ''q'')] \<and>
   senderTrack (finish (publish_answers ''q'' 8) (startPublishing ''b'' demo_publishing)) = senderTrack demo_publishing"
proof -
  have "ws demo_publishing = Some 0" "0 \<in> openWs demo_publishing" "pc demo_publishing = Some 0" by code_simp+
  then have c: "connected 0 0 demo_publishing" by (simp add: connected_def)
  have t: "tasks demo_publishing = []" "videoSenders demo_publishing ''placeholder'' = None" by code_simp+
  show ?thesis using second_publish_sends_nothing [OF c t(1) _ t(2) refl, of "''b''" "''q''" 8] by simp
qed

lemma finish_stop_end:
  assumes "connected w p d" and "tasks d = []"
  obtains d' where "finish (Fulfilled sdp n # Fulfilled sdp n # Fulfilled sdp n # outs) (await_task (StopOffer path) d) = d'"
    "localStream d' = localStream d" "videoSenders d' = videoSenders d" "senderTrack d' = senderTrack d"
    "stoppedStreams d' = stoppedStreams d" "sent d' = sent d @ [(w, Unpublish path)]"
    "settled d' = settled d @ [(''stopPublishing'', None)]"
proof -
  let ?c = "d\<lparr>localSdp := (localSdp d)(p \<mapsto> sdp)\<rparr>"
  have "finish (Fulfilled sdp n # Fulfilled sdp n # Fulfilled sdp n # outs) (await_task (StopOffer path) d)
      = finish outs (resume (StopIce path) (Fulfilled sdp n) ?c)"
    using assms by (simp add: finish_step await_done with_pc_def wait_ice_def connected_def del: finish.simps)
  also have "resume (StopIce path) (Fulfilled sdp n) ?c =
      settle_call ''stopPublishing'' None (emit (PublishStopped path) (client_log (''Stopped publishing to '' @ path) Success (?c\<lparr>sent := sent d @ [(w, Unpublish path)]\<rparr>)))"
    using assms by (simp add: flow_defs connected_def)
  also have "finish outs \<dots> = \<dots>" using assms(2) by (simp add: finish_idle)
  finally show ?thesis by (rule that) (use assms in \<open>simp_all add: connected_def\<close>)
qed

text \<open>
  C19. Stopping undoes publishing. Starting to publish a stream and then stopping, with everything
  fulfilled, puts the camera's track on the spare sender and announces the stream, then takes the
  track off, returns the sender as the spare one, stops the camera and announces the end; what the
  client knows of senders and tracks is what it was before.
\<close>

theorem stop_undoes_publish:
  assumes "connected w p c" and "tasks c = []" and "path \<noteq> []" and "path \<noteq> ''placeholder''"
    and "videoSenders c ''placeholder'' = Some (Some r)" and "videoSenders c path = None" and "senderTrack c r = None"
    and "c1 = finish (publish_answers sdp stream) (startPublishing path c)"
    and "c2 = finish (replicate 4 (Fulfilled sdp2 0)) (stopPublishing path c1)"
  shows "senderTrack c1 r = Some stream \<and> localStream c1 = Some stream \<and> videoSenders c1 path = Some (Some r) \<and>
    videoSenders c2 = videoSenders c \<and> senderTrack c2 = senderTrack c \<and> localStream c2 = None \<and>
    stoppedStreams c2 = stoppedStreams c @ [stream] \<and> sent c2 = sent c @ [(w, Publish path sdp), (w, Unpublish path)] \<and>
    settled c2 = settled c @ [(''startPublishing'', None), (''stopPublishing'', None)]"
proof -
  let ?F = "Fulfilled sdp stream" and ?G = "Fulfilled sdp2 0"
  let ?d = "(client_log ''Replaced placeholder video track with real track'' Success
      (c\<lparr>localStream := Some stream, senderTrack := (senderTrack c)(r \<mapsto> stream)\<rparr>))
      \<lparr>videoSenders := (videoSenders c)(''placeholder'' := None, path \<mapsto> Some r)\<rparr>"
  have p1: "c1 = finish [?F, ?F, ?F] (await_task (PubOffer path) ?d)"
    unfolding assms(8) publish_answers_def five startPublishing_connected [OF assms(1,3)]
    using assms(1,2,5) by (simp add: finish_step await_done Let_def with_pc_def connected_def del: finish.simps)
  have d: "connected w p ?d" "tasks ?d = []" using assms(1,2) by (simp_all add: connected_def)
  obtain d' where "c1 = d'" "tasks d' = []" "connected w p d'" "localStream d' = localStream ?d" "videoSenders d' = videoSenders ?d"
    "senderTrack d' = senderTrack ?d" "stoppedStreams d' = stoppedStreams ?d" "sent d' = sent ?d @ [(w, Publish path sdp)]"
    "settled d' = settled ?d @ [(''startPublishing'', None)]"
    using finish_publish_end [OF d, of sdp stream "[]" path] p1 by metis
  then have c1: "tasks c1 = []" "connected w p c1" "localStream c1 = Some stream" "videoSenders c1 = (videoSenders c)(''placeholder'' := None, path \<mapsto> Some r)"
    "senderTrack c1 = (senderTrack c)(r \<mapsto> stream)" "stoppedStreams c1 = stoppedStreams c"
    "sent c1 = sent c @ [(w, Publish path sdp)]" "settled c1 = settled c @ [(''startPublishing'', None)]" by simp_all
  let ?e = "(client_log ''Removed video track'' Info (c1\<lparr>senderTrack := (senderTrack c1)(r := None)\<rparr>))
      \<lparr>videoSenders := (videoSenders c1)(path := None, ''placeholder'' \<mapsto> Some r), stoppedStreams := stoppedStreams c1 @ [stream], localStream := None\<rparr>"
  have four: "replicate 4 ?G = [?G, ?G, ?G, ?G]" by (simp add: numeral_eq_Suc)
  have "stopPublishing path c1 = await_task (StopReplace path r) c1"
    using c1(2,4) by (simp add: stopPublishing_def connected_def)
  then have p2: "c2 = finish [?G, ?G, ?G] (await_task (StopOffer path) ?e)"
    unfolding assms(9) four
    using c1 by (simp add: finish_step await_done Let_def stop_rest_def with_pc_def connected_def del: finish.simps)
  have e: "connected w p ?e" "tasks ?e = []" using c1(1,2) by (simp_all add: connected_def)
  obtain e' where "c2 = e'" "localStream e' = localStream ?e" "videoSenders e' = videoSenders ?e" "senderTrack e' = senderTrack ?e"
    "stoppedStreams e' = stoppedStreams ?e" "sent e' = sent ?e @ [(w, Unpublish path)]"
    "settled e' = settled ?e @ [(''stopPublishing'', None)]"
    using finish_stop_end [OF e, of sdp2 0 "[]" path] p2 by metis
  moreover have "(videoSenders c1)(path := None, ''placeholder'' \<mapsto> Some r) = videoSenders c"
    using assms(4-6) by (auto simp: c1(4))
  moreover have "(senderTrack c1)(r := None) = senderTrack c" using assms(7) by (auto simp: c1(5))
  ultimately show ?thesis using c1 by simp
qed

theorem stop_undoes_publish_witness:
  "localStream (finish (replicate 4 (Fulfilled ''s'' 0)) (stopPublishing ''a'' demo_publishing)) = None \<and>
   sent (finish (replicate 4 (Fulfilled ''s'' 0)) (stopPublishing ''a'' demo_publishing)) = sent demo_client @ [(0, Publish ''a'' ''p''), (0, Unpublish ''a'')]"
proof -
  have v: "videoSenders demo_client ''placeholder'' = Some (Some (0, 0))" "videoSenders demo_client ''a'' = None"
    "senderTrack demo_client (0, 0) = None" by code_simp+
  show ?thesis
    using stop_undoes_publish [OF demo_client_ready _ _ v demo_publishing_def refl] by simp
qed

text \<open>
  Unsubscribing from a stream that has not arrived yet is not told to the server. If no track of
  the stream has been received, \<open>unsubscribeFromStream\<close> resolves, reports the stream removed and
  forgets it, but sends nothing: the server goes on preparing to send it.
\<close>

theorem early_unsubscribe_is_silent:
  assumes "connected w p c" and "streamToTransceiver c path = None" and "c' = unsubscribeFromStream path c"
  shows "sent c' = sent c \<and> tasks c' = tasks c \<and> settled c' = settled c @ [(''unsubscribeFromStream'', None)] \<and>
    path \<notin> set (subscribedStreams c') \<and> (\<forall>l \<in> set (listeners_of c KStreamRemoved). (l, StreamRemoved path) \<in> set (calls c'))"
proof -
  let ?d = "c\<lparr>subscribedStreams := filter (\<lambda>s. s \<noteq> path) (subscribedStreams c)\<rparr>"
  have c': "c' = settle_call ''unsubscribeFromStream'' None (client_log (''Removed '' @ path @ '' from subscription list'') Info (emit (StreamRemoved path) ?d))"
    using assms by (simp add: unsubscribeFromStream_def connected_def forget_stream_def Let_def)
  have l: "listeners_of ?d KStreamRemoved = listeners_of c KStreamRemoved" by (simp add: listeners_of_def)
  have "set (calls (emit (StreamRemoved path) ?d)) \<subseteq> set (calls c')" by (auto simp: c' settle_call_def client_log_def emit_calls)
  moreover have "set (map (\<lambda>l. (l, StreamRemoved path)) (listeners_of c KStreamRemoved)) \<subseteq> set (calls (emit (StreamRemoved path) ?d))"
    unfolding emit_calls using l by auto
  ultimately have "\<forall>l \<in> set (listeners_of c KStreamRemoved). (l, StreamRemoved path) \<in> set (calls c')" by auto
  then show ?thesis by (simp add: c')
qed

theorem early_unsubscribe_is_silent_witness:
  "sent (unsubscribeFromStream ''a'' demo_client) = sent demo_client \<and> (5, StreamRemoved ''a'') \<in> set (calls (unsubscribeFromStream ''a'' demo_client))"
proof -
  have "streamToTransceiver demo_client ''a'' = None" "listeners_of demo_client KStreamRemoved = [5]" by code_simp+
  then show ?thesis using early_unsubscribe_is_silent [OF demo_client_ready(1) _ refl, of "''a''"] by simp
qed

subsection \<open>Overlapping subscriptions\<close>

text \<open>Where a connected client stands: what is pending, subscribed, sent, and its local description.\<close>

definition doing :: "nat \<Rightarrow> nat \<Rightarrow> task list \<Rightarrow> string list \<Rightarrow> (nat \<times> message) list \<Rightarrow> string option \<Rightarrow> client \<Rightarrow> bool" where
  "doing w p ts ss ms sdp c \<longleftrightarrow>
     connected w p c \<and> tasks c = ts \<and> subscribedStreams c = ss \<and> sent c = ms \<and> localSdp c p = sdp"

lemma finish_doing: "doing w p (t # ts) ss ms l c \<Longrightarrow> finish (out # outs) c = finish outs (settle_task 0 out c)"
  by (simp add: doing_def)

lemma doing_step:
  "doing w p (UnsubOffer ps k # ts) ss ms l c \<Longrightarrow> doing w p (ts @ [UnsubLocal ps k p]) ss ms l (settle_task 0 (Fulfilled sdp n) c)"
  "doing w p (UnsubLocal ps k p # ts) ss ms l c \<Longrightarrow> doing w p (ts @ [UnsubIce ps k]) ss ms (Some sdp) (settle_task 0 (Fulfilled sdp n) c)"
  "doing w p (SubOffer new # ts) ss ms l c \<Longrightarrow> doing w p (ts @ [SubLocal new p]) ss ms l (settle_task 0 (Fulfilled sdp n) c)"
  "doing w p (SubLocal new p # ts) ss ms l c \<Longrightarrow>
     doing w p ts ss (ms @ [(w, Subscribe new sdp)]) (Some sdp) (settle_task 0 (Fulfilled sdp n) c)"
  by (simp_all add: doing_def settle_task_def flow_defs connected_def subscribe_done_def)

lemma doing_rest:
  assumes "doing w p ts ss ms l c" and "diff_new previous ss \<noteq> []"
  shows "doing w p (ts @ [SubOffer (diff_new previous ss)]) ss ms l (subscribe_rest previous c)"
  using assms by (simp add: doing_def subscribe_rest_def Let_def flow_defs connected_def flip: diff_new_def)

lemma doing_unsub_ice:
  assumes "doing w p (UnsubIce ps (ThenSubscribe previous) # ts) ss ms (Some sdp) c" and "diff_new previous ss \<noteq> []"
  shows "doing w p (ts @ [SubOffer (diff_new previous ss)]) ss (ms @ [(w, Unsubscribe ps sdp)]) (Some sdp)
    (settle_task 0 (Fulfilled s n) c)"
proof -
  let ?d = "client_log (''Sent unsubscribe signal for '' @ nat_text (length ps) @ '' streams'') Info (c\<lparr>tasks := ts, sent := ms @ [(w, Unsubscribe ps sdp)]\<rparr>)"
  have "settle_task 0 (Fulfilled s n) c = subscribe_rest previous ?d"
    using assms(1) by (simp add: doing_def settle_task_def flow_defs connected_def unsub_returns_def)
  moreover have "doing w p ts ss (ms @ [(w, Unsubscribe ps sdp)]) (Some sdp) ?d"
    using assms(1) by (simp add: doing_def connected_def)
  ultimately show ?thesis using doing_rest assms(2) by simp
qed

lemma doing_subscribe:
  assumes "doing w p ts ss ms l c" and "paths \<noteq> []" and "distinct paths"
  shows "filter (\<lambda>s. s \<notin> set paths) ss \<noteq> [] \<Longrightarrow>
      doing w p (ts @ [UnsubOffer (filter (\<lambda>s. s \<notin> set paths) ss) (ThenSubscribe ss)]) paths ms l (subscribeToStreams paths c)"
    and "filter (\<lambda>s. s \<notin> set paths) ss = [] \<Longrightarrow> diff_new ss paths \<noteq> [] \<Longrightarrow>
      doing w p (ts @ [SubOffer (diff_new ss paths)]) paths ms l (subscribeToStreams paths c)"
proof -
  let ?gone = "filter (\<lambda>s. s \<notin> set paths) ss"
  have p: "fold set_add paths [] = paths" by (rule fold_set_add_distinct [of "[]" paths, simplified, OF assms(3)])
  define d where "d = fold remove_stream ?gone (c\<lparr>subscribedStreams := paths\<rparr>)"
  have d: "doing w p ts paths ms l d" using assms(1) by (simp add: d_def doing_def connected_def)
  have "subscribeToStreams paths c = (if ?gone \<noteq> [] then send_unsubscribe ?gone (ThenSubscribe ss) d else subscribe_rest ss d)"
    using assms(1,2) p by (simp add: subscribeToStreams_def Let_def d_def doing_def connected_def)
  then show "?gone \<noteq> [] \<Longrightarrow> doing w p (ts @ [UnsubOffer ?gone (ThenSubscribe ss)]) paths ms l (subscribeToStreams paths c)"
    and "?gone = [] \<Longrightarrow> diff_new ss paths \<noteq> [] \<Longrightarrow> doing w p (ts @ [SubOffer (diff_new ss paths)]) paths ms l (subscribeToStreams paths c)"
    using d doing_rest [OF d] by (simp_all add: send_unsubscribe_def doing_def connected_def)
qed

text \<open>
  Two subscriptions at once subscribe a stream twice. A call that first has to unsubscribe looks
  at the subscribed streams again when that is done: if another call has added a stream meanwhile, both
  calls send a \<open>subscribe\<close> for it.
\<close>

theorem overlapping_subscriptions_repeat:
  assumes "connected w p c" and "tasks c = []" and "subscribedStreams c = [x]" and "distinct [a, b, x]"
    and "c' = finish (replicate 7 (Fulfilled sdp 0)) (subscribeToStreams [a, b] (subscribeToStreams [a] c))"
  shows "tasks c' = [] \<and> subscribedStreams c' = [a, b] \<and>
    sent c' = sent c @ [(w, Subscribe [b] sdp), (w, Unsubscribe [x] sdp), (w, Subscribe [a, b] sdp)]"
proof -
  let ?s = "settle_task 0 (Fulfilled sdp 0)" and ?k = "ThenSubscribe [x]"
  let ?c1 = "subscribeToStreams [a] c" and ?c2 = "subscribeToStreams [a, b] (subscribeToStreams [a] c)"
  have seven: "replicate 7 f = [f, f, f, f, f, f, f]" for f :: outcome by (simp add: numeral_eq_Suc)
  have ne: "x \<noteq> a" "x \<noteq> b" "a \<noteq> b" "b \<noteq> a" "a \<noteq> x" "b \<noteq> x" using assms(4) by auto
  have 0: "doing w p [] [x] (sent c) (localSdp c p) c" using assms(1-3) by (simp add: doing_def)
  have 1: "doing w p [UnsubOffer [x] ?k] [a] (sent c) (localSdp c p) ?c1"
    using doing_subscribe(1) [OF 0, of "[a]"] ne by simp
  have 2: "doing w p [UnsubOffer [x] ?k, SubOffer [b]] [a, b] (sent c) (localSdp c p) ?c2"
    using doing_subscribe(2) [OF 1, of "[a, b]"] ne by (simp add: diff_new_def)
  note 3 = doing_step(1) [OF 2, of sdp 0, simplified]
  note 4 = doing_step(3) [OF 3, of sdp 0, simplified]
  note 5 = doing_step(2) [OF 4, of sdp 0, simplified]
  note 6 = doing_step(4) [OF 5, of sdp 0, simplified]
  have 7: "doing w p [SubOffer [a, b]] [a, b] (sent c @ [(w, Subscribe [b] sdp), (w, Unsubscribe [x] sdp)]) (Some sdp) (?s (?s (?s (?s (?s ?c2)))))"
    using doing_unsub_ice [OF 6, of sdp 0] ne by (simp add: diff_new_def)
  note 8 = doing_step(3) [OF 7, of sdp 0, simplified]
  note 9 = doing_step(4) [OF 8, of sdp 0, simplified]
  have "c' = ?s (?s (?s (?s (?s (?s (?s ?c2))))))"
    unfolding assms(5) seven
    by (simp only: finish_doing [OF 2] finish_doing [OF 3] finish_doing [OF 4] finish_doing [OF 5] finish_doing [OF 6]
        finish_doing [OF 7] finish_doing [OF 8] finish.simps(1))
  then show ?thesis using 9 by (simp add: doing_def)
qed

theorem overlapping_subscriptions_repeat_witness:
  "\<exists>c ms. sent (finish (replicate 7 (Fulfilled ''s'' 0)) (subscribeToStreams [''a'', ''b''] (subscribeToStreams [''a''] c))) =
     ms @ [(0, Subscribe [''b''] ''s''), (0, Unsubscribe [''x''] ''s''), (0, Subscribe [''a'', ''b''] ''s'')]"
proof -
  define c where "c = finish (replicate 5 (Fulfilled ''q'' 0)) (subscribeToStreams [''x''] demo_client)"
  have "ws c = Some 0" "0 \<in> openWs c" "pc c = Some 0" unfolding c_def by code_simp+
  then have k: "connected 0 0 c" by (simp add: connected_def)
  have t: "tasks c = []" "subscribedStreams c = [''x'']" unfolding c_def by code_simp+
  show ?thesis using overlapping_subscriptions_repeat [OF k t _ refl, of "''a''" "''b''" "''s''"] by auto
qed

subsection \<open>Subscriptions that fail\<close>

text \<open>
  C35. A subscription that failed cannot be tried again. The client enters the streams into its list before
  it asks for them: if then the browser rejects, the call is rejected with nothing sent, but the same call
  again finds no new streams, resolves and sends nothing either, whatever the browser would answer.
\<close>

theorem failed_subscription_blocks_retry:
  assumes "connected w p c" and "tasks c = []" and "subscribedStreams c = []" and "paths \<noteq> []"
    and "c1 = finish (Rejected e # outs) (subscribeToStreams paths c)" and "c2 = finish outs2 (subscribeToStreams paths c1)"
  shows "settled c2 = settled c @ [(''subscribeToStreams'', Some e), (''subscribeToStreams'', None)] \<and>
    sent c2 = sent c \<and> tasks c2 = [] \<and> set (subscribedStreams c2) = set paths"
proof -
  let ?ss = "fold set_add paths []"
  let ?d = "c\<lparr>subscribedStreams := ?ss\<rparr>"
  have ss: "set ?ss = set paths" "?ss \<noteq> []" using set_add_fold(1) [of paths "[]"] assms(4) by (auto simp flip: set_empty)
  have "diff_new [] (subscribedStreams ?d) \<noteq> []" using ss(2) by (simp add: diff_new_def)
  from doing_rest [OF _ this, of w p "[]"] assms(1,2)
  have r: "doing w p [SubOffer ?ss] ?ss (sent c) (localSdp c p) (subscribe_rest [] ?d)"
    by (simp add: doing_def connected_def diff_new_def)
  have r2: "settled (subscribe_rest [] ?d) = settled c"
    using assms(1) ss(2) by (simp add: subscribe_rest_def Let_def flow_defs connected_def)
  have "subscribeToStreams paths c = subscribe_rest [] ?d"
    using assms(1,3,4) by (simp add: subscribeToStreams_def connected_def)
  then have c1: "c1 = subscribe_failed e ((subscribe_rest [] ?d)\<lparr>tasks := []\<rparr>)"
    using r assms(5) by (simp add: doing_def finish_step finish_idle del: finish.simps(2))
  have s: "ws c1 = Some w" "pc c1 = Some p" "subscribedStreams c1 = ?ss" "tasks c1 = []" "sent c1 = sent c"
    "settled c1 = settled c @ [(''subscribeToStreams'', Some e)]"
    using r r2 by (simp_all add: c1 doing_def connected_def)
  have "filter (\<lambda>s. s \<notin> set ?ss) ?ss = []" by (simp add: filter_empty_conv)
  then have "subscribeToStreams paths c1 = subscribe_rest ?ss (c1\<lparr>subscribedStreams := ?ss\<rparr>)"
    using s assms(4) by (simp add: subscribeToStreams_def Let_def)
  also have "\<dots> = subscribe_done (client_log (''New stream paths: '' @ comma_join []) Info (c1\<lparr>subscribedStreams := ?ss\<rparr>))"
    by (simp add: subscribe_rest_def Let_def filter_empty_conv)
  finally show ?thesis unfolding assms(6) using s ss(1) by (simp add: subscribe_done_def finish_idle)
qed

theorem failed_subscription_blocks_retry_witness:
  "sent (finish (replicate 5 (Fulfilled ''s'' 0)) (subscribeToStreams [''a''] (finish [Rejected ''busy''] (subscribeToStreams [''a''] demo_client))))
   = sent demo_client"
proof -
  have "subscribedStreams demo_client = []" by code_simp
  from failed_subscription_blocks_retry [OF demo_client_ready this _ refl refl] show ?thesis by simp
qed

end
