(* ===== verification/Batch_Steps.thy ===== *)
theory Batch_Steps
  imports Batch_Calls
begin

section \<open>The states a WebRTC client can reach\<close>

text \<open>
  Every way the state of a \<open>BatchV2Client\<close> changes, as an inductive set of reachable states: the
  calls of its user, the events of sockets and connections, and the promises that settle_call, in any
  order. The invariant proved by rule induction says that what the client remembers of senders and
  transceivers exists, that its socket and connection are live and that it is subscribed to a set.
\<close>

subsection \<open>The invariant\<close>

definition valid_ref :: "client \<Rightarrow> tref \<Rightarrow> bool" where
  "valid_ref c r \<longleftrightarrow> fst r < nextPc c \<and> snd r < length (directions c (fst r))"

fun task_refs :: "task \<Rightarrow> tref set" where
  "task_refs (PubReplace path r n) = {r}"
| "task_refs (StopReplace path r) = {r}"
| "task_refs t = {}"

definition known_refs :: "client \<Rightarrow> tref set" where
  "known_refs c =
     {r. \<exists>s. videoSenders c s = Some (Some r)} \<union> {r. \<exists>s. streamToTransceiver c s = Some (Some r)} \<union>
     (\<Union>t \<in> set (tasks c). task_refs t)"

definition live_parts :: "client \<Rightarrow> bool" where
  "live_parts c \<longleftrightarrow>
     (\<forall>w. ws c = Some w \<longrightarrow> w < nextWs c \<and> w \<notin> closingWs c) \<and> (\<forall>p. pc c = Some p \<longrightarrow> p < nextPc c \<and> p \<notin> closedPc c) \<and>
     closingWs c \<subseteq> {..<nextWs c} \<and> closedPc c \<subseteq> {..<nextPc c}"

definition client_ok :: "client \<Rightarrow> bool" where
  "client_ok c \<longleftrightarrow> (\<forall>r \<in> known_refs c. valid_ref c r) \<and> live_parts c \<and> distinct (subscribedStreams c)"

lemma client_ok_iff:
  "client_ok c \<longleftrightarrow>
     (\<forall>s r. videoSenders c s = Some (Some r) \<longrightarrow> valid_ref c r) \<and> (\<forall>s r. streamToTransceiver c s = Some (Some r) \<longrightarrow> valid_ref c r) \<and>
     (\<forall>t \<in> set (tasks c). \<forall>r \<in> task_refs t. valid_ref c r) \<and> live_parts c \<and> distinct (subscribedStreams c)"
  by (auto simp: client_ok_def known_refs_def)

lemmas ok_defs = client_ok_iff live_parts_def valid_ref_def

lemma client_ok_cong:
  assumes "videoSenders d = videoSenders c" "streamToTransceiver d = streamToTransceiver c" "tasks d = tasks c"
    "nextPc d = nextPc c" "directions d = directions c" "ws d = ws c" "pc d = pc c" "nextWs d = nextWs c"
    "closingWs d = closingWs c" "closedPc d = closedPc c" "subscribedStreams d = subscribedStreams c"
  shows "client_ok d = client_ok c"
  by (simp add: ok_defs assms)

lemma client_ok_quiet [simp]:
  "client_ok (emit e c) = client_ok c" "client_ok (client_log m l c) = client_ok c" "client_ok (settle_call a err c) = client_ok c"
  "client_ok (settle_connect w err c) = client_ok c" "client_ok (c\<lparr>localSdp := x1\<rparr>) = client_ok c"
  "client_ok (c\<lparr>localStream := x2\<rparr>) = client_ok c" "client_ok (c\<lparr>senderTrack := x3\<rparr>) = client_ok c"
  "client_ok (c\<lparr>stoppedStreams := x4\<rparr>) = client_ok c" "client_ok (c\<lparr>intervals := x5\<rparr>) = client_ok c"
  "client_ok (c\<lparr>sent := x6\<rparr>) = client_ok c" "client_ok (c\<lparr>openWs := x7\<rparr>) = client_ok c"
  "client_ok (c\<lparr>pcState := x8\<rparr>) = client_ok c" "client_ok (c\<lparr>eventListeners := x9\<rparr>) = client_ok c"
  by (rule client_ok_cong; simp add: settle_connect_def)+

lemma client_ok_failed [simp]:
  "client_ok (publish_failed e c) = client_ok c" "client_ok (stop_failed e c) = client_ok c"
  "client_ok (subscribe_failed e c) = client_ok c" "client_ok (unsubscribe_failed e c) = client_ok c"
  "client_ok (unsub_failed k e c) = client_ok c" "client_ok (lost e c) = client_ok c"
  by (simp_all add: publish_failed_def stop_failed_def subscribe_failed_def unsubscribe_failed_def unsub_failed_def lost_def
      Let_def split: after.split)

lemma client_ok_await [simp]:
  "client_ok (await_task t c) \<longleftrightarrow> client_ok c \<and> (\<forall>r \<in> task_refs t. valid_ref c r)"
  by (auto simp: ok_defs)

lemma client_ok_flow:
  "client_ok c \<Longrightarrow> (\<And>e. client_ok (fail e c)) \<Longrightarrow> (\<And>p. client_ok (go p c)) \<Longrightarrow> client_ok (with_pc m fail go c)"
  "client_ok c \<Longrightarrow> (\<And>e. client_ok (fail e c)) \<Longrightarrow> (\<And>s. client_ok (use s c)) \<Longrightarrow> client_ok (with_sdp fail use c)"
  "client_ok c \<Longrightarrow> (\<And>e. client_ok (fail e c)) \<Longrightarrow> task_refs t = {} \<Longrightarrow> client_ok (wait_ice fail t c)"
  "client_ok c \<Longrightarrow> (\<And>e. client_ok (fail e c)) \<Longrightarrow> (\<And>d. client_ok d \<Longrightarrow> client_ok (act d)) \<Longrightarrow> client_ok (send_message fail msg act c)"
  by (auto simp: flow_defs split: option.split)

text \<open>Changes of the parts the invariant speaks of.\<close>

lemma client_ok_senders:
  "client_ok c \<Longrightarrow> (\<And>s r. m s = Some (Some r) \<Longrightarrow> valid_ref c r) \<Longrightarrow> client_ok (c\<lparr>videoSenders := m\<rparr>)"
  by (auto simp: ok_defs)

lemma client_ok_transceivers:
  "client_ok c \<Longrightarrow> (\<And>s r. m s = Some (Some r) \<Longrightarrow> valid_ref c r) \<Longrightarrow> client_ok (c\<lparr>streamToTransceiver := m\<rparr>)"
  by (auto simp: ok_defs)

lemma client_ok_subscribed:
  "client_ok c \<Longrightarrow> distinct ss \<Longrightarrow> client_ok (c\<lparr>subscribedStreams := ss\<rparr>)"
  by (simp add: ok_defs)

lemma client_ok_directions:
  assumes "client_ok c" and "\<And>p. length (directions c p) \<le> length (ds p)"
  shows "client_ok (c\<lparr>directions := ds\<rparr>)"
  using assms(1) order.strict_trans2 [OF _ assms(2)] by (fastforce simp: ok_defs)

lemma client_ok_refs:
  "client_ok c \<Longrightarrow> videoSenders c s = Some (Some r) \<Longrightarrow> valid_ref c r"
  "client_ok c \<Longrightarrow> streamToTransceiver c s = Some (Some r) \<Longrightarrow> valid_ref c r"
  by (auto simp: client_ok_def known_refs_def)

lemma client_ok_subscribedD: "client_ok c \<Longrightarrow> distinct (subscribedStreams c)"
  by (simp add: client_ok_def)

lemma valid_ref_quiet [simp]:
  "valid_ref (emit e c) r = valid_ref c r" "valid_ref (client_log m l c) r = valid_ref c r"
  "valid_ref (c\<lparr>localStream := x2\<rparr>) r = valid_ref c r" "valid_ref (c\<lparr>senderTrack := x3\<rparr>) r = valid_ref c r"
  "valid_ref (c\<lparr>intervals := x5\<rparr>) r = valid_ref c r"
  by (simp_all add: valid_ref_def)

subsection \<open>Operations keep the invariant\<close>

lemma activate_length [simp]: "length (activate k ds) = length ds"
  by (induction k ds rule: activate.induct) simp_all

lemma receive_on_length: "length ds \<le> length (receive_on k ds)"
  by (simp add: receive_on_def)

lemma client_ok_set_direction: "client_ok c \<Longrightarrow> client_ok (set_direction r d c)"
  by (auto simp: set_direction_def intro!: client_ok_directions)

lemma client_ok_forget_transceiver:
  "client_ok c \<Longrightarrow> m = (streamToTransceiver c)(s := None) \<Longrightarrow> client_ok (c\<lparr>streamToTransceiver := m\<rparr>)"
  by (rule client_ok_transceivers) (auto split: if_splits dest: client_ok_refs(2))

lemma client_ok_remove_stream: "client_ok c \<Longrightarrow> client_ok (remove_stream s c)"
  by (auto simp: remove_stream_def Let_def client_ok_set_direction split: option.split intro!: client_ok_forget_transceiver)

lemma client_ok_fold_remove: "client_ok c \<Longrightarrow> client_ok (fold remove_stream ss c)"
  by (induction ss arbitrary: c) (simp_all add: client_ok_remove_stream)

lemma client_ok_done: "client_ok c \<Longrightarrow> client_ok (subscribe_done c)"
  by (simp add: subscribe_done_def)

lemma client_ok_subscribe_rest: "client_ok c \<Longrightarrow> client_ok (subscribe_rest previous c)"
  by (auto simp: subscribe_rest_def Let_def client_ok_done receive_on_length intro!: client_ok_flow(1) client_ok_directions)

lemma client_ok_subscribe: "client_ok c \<Longrightarrow> client_ok (subscribeToStreams paths c)"
  by (auto simp: subscribeToStreams_def Let_def send_unsubscribe_def
      intro!: client_ok_subscribe_rest client_ok_fold_remove client_ok_subscribed set_add_fold(2))

lemma client_ok_forget: "client_ok c \<Longrightarrow> client_ok (forget_stream path c)"
  by (auto simp: forget_stream_def Let_def intro!: client_ok_subscribed dest: client_ok_subscribedD)

lemma client_ok_unsubscribe: "client_ok c \<Longrightarrow> client_ok (unsubscribeFromStream path c)"
  by (auto simp: unsubscribeFromStream_def Let_def send_unsubscribe_def client_ok_set_direction
      split: option.split intro!: client_ok_forget client_ok_forget_transceiver)

lemma client_ok_stop_rest: "client_ok c \<Longrightarrow> client_ok (stop_rest path c)"
  by (auto simp: stop_rest_def Let_def split: option.split intro!: client_ok_flow(1))

lemma client_ok_publish: "client_ok c \<Longrightarrow> client_ok (startPublishing path c)" "client_ok c \<Longrightarrow> client_ok (stopPublishing path c)"
  by (auto simp: startPublishing_def stopPublishing_def split: option.split intro!: client_ok_stop_rest dest: client_ok_refs(1))

lemma client_ok_move_sender:
  assumes "client_ok c" and "\<And>r. x = Some r \<Longrightarrow> valid_ref c r"
  shows "client_ok (c\<lparr>videoSenders := (videoSenders c)(a := None, b \<mapsto> x)\<rparr>)"
  using assms by (auto intro!: client_ok_senders split: if_splits dest: client_ok_refs(1))

lemma client_ok_drop_tasks:
  "client_ok c \<Longrightarrow> set ts \<subseteq> set (tasks c) \<Longrightarrow> client_ok (c\<lparr>tasks := ts\<rparr>)"
  by (auto simp: ok_defs)

lemma client_ok_resume:
  "client_ok c \<Longrightarrow> (\<And>r. r \<in> task_refs t \<Longrightarrow> valid_ref c r) \<Longrightarrow> client_ok (resume t out c)"
proof (induction t out c rule: resume.induct)
  case (3 path s n c)
  then show ?case
    using client_ok_move_sender [of "c\<lparr>localStream := Some n\<rparr>" None "''placeholder''" path]
    by (auto simp: Let_def split: option.split intro!: client_ok_flow(1) dest: client_ok_refs(1))
next
  case (4 path r n s m c)
  then show ?case
    using client_ok_move_sender [of "client_log ''Replaced placeholder video track with real track'' Success (c\<lparr>senderTrack := (senderTrack c)(r \<mapsto> n)\<rparr>)" "Some r" "''placeholder''" path]
    by (auto simp: Let_def intro!: client_ok_flow(1))
next
  case (8 path r s n c)
  then show ?case
    using client_ok_move_sender [of "client_log ''Removed video track'' Info (c\<lparr>senderTrack := (senderTrack c)(r := None)\<rparr>)" "Some r" path "''placeholder''"]
    by (auto simp: Let_def intro!: client_ok_stop_rest)
qed (auto simp: unsub_returns_def split: after.split intro!: client_ok_flow client_ok_subscribe_rest client_ok_forget client_ok_done)

lemma client_ok_settle_task:
  assumes "client_ok c" and "i < length (tasks c)"
  shows "client_ok (settle_task i out c)"
proof -
  have "set (take i (tasks c) @ drop (Suc i) (tasks c)) \<subseteq> set (tasks c)" by (auto dest: in_set_takeD in_set_dropD)
  then have "client_ok (c\<lparr>tasks := take i (tasks c) @ drop (Suc i) (tasks c)\<rparr>)" by (rule client_ok_drop_tasks [OF assms(1)])
  moreover have "valid_ref c r" if "r \<in> task_refs (tasks c ! i)" for r
    using assms that nth_mem [of i "tasks c"] by (auto simp: client_ok_iff)
  ultimately show ?thesis unfolding settle_task_def by (intro client_ok_resume) (simp_all add: valid_ref_def)
qed

lemma client_ok_cleanup: "client_ok c \<Longrightarrow> client_ok (cleanup c)"
  by (cases "ws c"; cases "pc c"; cases "localStream c"; auto simp: cleanup_def Let_def ok_defs)

lemma client_ok_connect: "client_ok c \<Longrightarrow> client_ok (connect bad c)"
  by (cases bad) (auto simp: connect_def Let_def client_ok_cleanup, auto simp: ok_defs)

lemma client_ok_ws_close:
  assumes "client_ok c" and "w < nextWs c" shows "client_ok (ws_close w c)"
proof -
  have "client_ok (cleanup (client_log m l (c\<lparr>openWs := openWs c - {w}, closingWs := insert w (closingWs c)\<rparr>)))" for m l
    using assms by (cases "ws c"; cases "pc c"; cases "localStream c"; auto simp: cleanup_def Let_def ok_defs)
  then show ?thesis by (simp add: ws_close_def Let_def)
qed

lemma client_ok_ws_open:
  assumes "client_ok c" shows "client_ok (ws_open w c)"
proof -
  let ?p = "nextPc c"
  let ?d = "\<lambda>m l. (client_log m l (c\<lparr>openWs := insert w (openWs c)\<rparr>))\<lparr>pc := Some ?p, nextPc := Suc ?p, directions := (directions c)(?p := [SendRecv])\<rparr>"
  have v: "valid_ref (?d m l) r" if "valid_ref c r" for r m l
    using that by (auto simp: valid_ref_def)
  have "live_parts (?d m l)" for m l
    using assms by (auto simp: client_ok_def live_parts_def)
  then have "client_ok (?d m l)" for m l
    using assms v by (simp add: client_ok_iff)
  moreover have "valid_ref (?d m l) (?p, 0)" for m l by (simp add: valid_ref_def)
  moreover have "valid_ref (?d m l) r" if "videoSenders c s = Some (Some r)" for r s m l
    using client_ok_refs(1) [OF assms that] by (rule v)
  ultimately have "client_ok ((?d m l)\<lparr>videoSenders := (videoSenders c)(''placeholder'' \<mapsto> Some (?p, 0))\<rparr>)" for m l
    by (intro client_ok_senders) (auto split: if_splits)
  then show ?thesis by (simp add: ws_open_def Let_def)
qed

lemma client_ok_track:
  assumes "client_ok c" and "\<And>r. t = Some r \<Longrightarrow> valid_ref c r"
  shows "client_ok (handleTrackEvent kind track t stream i c)"
  using assms
  by (auto simp: handleTrackEvent_def Let_def split: option.split intro!: client_ok_transceivers dest: client_ok_refs(2) split: if_splits)

lemma client_ok_events [intro]:
  assumes "client_ok c"
  shows "client_ok (client_on e l c)" "client_ok (client_off e l c)" "client_ok (getStreamList c)"
    "client_ok (ws_error w c)" "client_ok (disconnect c)" "client_ok (track_unmuted kind track c)"
    "client_ok (stats_tick i err c)" "client_ok (connection_state p state c)" "client_ok (ice_state what state c)"
    "client_ok (ice_candidate candidate c)" "client_ok (handleWebSocketMessage m c)"
  using assms
  by (auto simp: client_on_def client_off_def getStreamList_def ws_error_def disconnect_def track_unmuted_def stats_tick_def
      connection_state_def ice_state_def ice_candidate_def handleWebSocketMessage_def Let_def client_ok_cleanup
      split: option.split reply.split intro!: client_ok_flow)

lemma client_ok_new: "client_ok (new_BatchV2Client https loc host)"
  by (simp add: new_BatchV2Client_def ok_defs)

subsection \<open>Reachable states\<close>

inductive reachable_client :: "client \<Rightarrow> bool" where
  created: "reachable_client (new_BatchV2Client https loc host)"
| listens: "reachable_client c \<Longrightarrow> reachable_client (client_on e l c)"
| ignores: "reachable_client c \<Longrightarrow> reachable_client (client_off e l c)"
| connects: "reachable_client c \<Longrightarrow> reachable_client (connect bad c)"
| disconnects: "reachable_client c \<Longrightarrow> reachable_client (disconnect c)"
| publishes: "reachable_client c \<Longrightarrow> reachable_client (startPublishing path c)"
| stops: "reachable_client c \<Longrightarrow> reachable_client (stopPublishing path c)"
| lists: "reachable_client c \<Longrightarrow> reachable_client (getStreamList c)"
| subscribes: "reachable_client c \<Longrightarrow> reachable_client (subscribeToStreams paths c)"
| unsubscribes: "reachable_client c \<Longrightarrow> reachable_client (unsubscribeFromStream path c)"
| opens: "reachable_client c \<Longrightarrow> w < nextWs c \<Longrightarrow> w \<notin> closingWs c \<Longrightarrow> reachable_client (ws_open w c)"
| closes: "reachable_client c \<Longrightarrow> w < nextWs c \<Longrightarrow> reachable_client (ws_close w c)"
| breaks: "reachable_client c \<Longrightarrow> w < nextWs c \<Longrightarrow> reachable_client (ws_error w c)"
| receives: "reachable_client c \<Longrightarrow> reachable_client (handleWebSocketMessage m c)"
| settles: "reachable_client c \<Longrightarrow> i < length (tasks c) \<Longrightarrow> reachable_client (settle_task i out c)"
| plays: "reachable_client c \<Longrightarrow> t = None \<or> valid_ref c (the t) \<Longrightarrow> reachable_client (handleTrackEvent kind track t stream i c)"
| unmutes: "reachable_client c \<Longrightarrow> reachable_client (track_unmuted kind track c)"
| ticks: "reachable_client c \<Longrightarrow> reachable_client (stats_tick i err c)"
| changes: "reachable_client c \<Longrightarrow> reachable_client (connection_state p state c)"
| ice: "reachable_client c \<Longrightarrow> reachable_client (ice_state what state c)"
| candidate: "reachable_client c \<Longrightarrow> reachable_client (ice_candidate cand c)"

text \<open>
  C8. Whatever is called and whatever happens in whatever order, the client's state stays well formed.
  In every reachable state: the senders and transceivers the client remembers, and those a pending
  call is about to change, exist on a connection that was created; the client's socket is one it
  opened and not one that is closing, so that no message is dropped on a closing socket; its
  connection is not closed; and it is subscribed to each stream at most once.
\<close>

theorem reachable_clients_are_well_formed:
  assumes "reachable_client c"
  shows "(\<forall>r \<in> known_refs c. fst r < nextPc c \<and> snd r < length (directions c (fst r))) \<and>
    (\<forall>w. ws c = Some w \<longrightarrow> w < nextWs c \<and> w \<notin> closingWs c) \<and>
    (\<forall>p. pc c = Some p \<longrightarrow> p < nextPc c \<and> p \<notin> closedPc c) \<and> distinct (subscribedStreams c)"
proof -
  have "client_ok c" using assms
  proof induction
    case (plays c t kind track stream i)
    then show ?case by (auto intro!: client_ok_track)
  qed (auto intro: client_ok_new client_ok_connect client_ok_publish client_ok_subscribe client_ok_unsubscribe
      client_ok_ws_open client_ok_ws_close client_ok_settle_task)
  then show ?thesis by (auto simp: client_ok_def live_parts_def valid_ref_def)
qed

theorem reachable_clients_are_well_formed_witness:
  "distinct (subscribedStreams (subscribeToStreams [''a'', ''b'', ''a''] (ws_open 0 (connect None (new_BatchV2Client True ''h'' None)))))"
proof -
  have "reachable_client (connect None (new_BatchV2Client True ''h'' None))" by (intro connects created)
  then have "reachable_client (ws_open 0 (connect None (new_BatchV2Client True ''h'' None)))"
    by (rule opens) (simp_all add: connect_def new_BatchV2Client_def Let_def)
  then have "reachable_client (subscribeToStreams [''a'', ''b'', ''a''] (ws_open 0 (connect None (new_BatchV2Client True ''h'' None))))"
    by (rule subscribes)
  from reachable_clients_are_well_formed [OF this] show ?thesis by blast
qed

text \<open>
  Disconnecting while the browser asks for the camera leaves the camera on. If \<open>disconnect\<close> is
  called before \<open>getUserMedia\<close> is fulfilled, the stream that then arrives becomes the client's local
  stream although there is no connection any more; the call is rejected, nothing is pending and nothing
  has stopped the stream.
\<close>

theorem camera_outlives_disconnect:
  assumes "connected w p c" and "tasks c = []" and "path \<noteq> []" and "stream \<notin> set (stoppedStreams c)" and "localStream c = None"
    and "c' = finish [Fulfilled sdp stream] (disconnect (startPublishing path c))"
  shows "pc c' = None \<and> ws c' = None \<and> tasks c' = [] \<and> localStream c' = Some stream \<and> stream \<notin> set (stoppedStreams c') \<and>
    settled c' = settled c @ [(''startPublishing'', Some (null_error ''createOffer''))]"
proof -
  let ?d = "disconnect (startPublishing path c)"
  have t: "tasks ?d = [PubMedia path]" "settled ?d = settled c" "pc ?d = None" "ws ?d = None" "videoSenders ?d = Map.empty"
    using assms(1-3) by (simp_all add: startPublishing_connected disconnect_def)
  have "stoppedStreams ?d = stoppedStreams c"
    using assms(1,3,5) by (simp add: startPublishing_connected disconnect_def cleanup_def Let_def split: option.split)
  then show ?thesis
    unfolding assms(6) using t assms(4) by (simp add: finish_step Let_def with_pc_def del: finish.simps(2))
qed

theorem camera_outlives_disconnect_witness:
  "localStream (finish [Fulfilled ''s'' 3] (disconnect (startPublishing ''a'' demo_client))) = Some 3"
proof -
  have "3 \<notin> set (stoppedStreams demo_client)" "localStream demo_client = None" by code_simp+
  from camera_outlives_disconnect [OF demo_client_ready _ this refl, of "''a''" "''s''"] show ?thesis by simp
qed

end
