(* ===== verification/Batch_Server.thy ===== *)
theory Batch_Server
  imports Batch_Client
begin

section \<open>The server's end of the batch protocol\<close>

text \<open>
  The handler \<open>WebSocketHandler\<close> of \<open>plugin/webrtc/batchv2.go\<close>, which answers the messages of
  \<open>BatchV2Client\<close>, with the part of \<open>pkg/connection.go\<close> that keeps its subscribers. The peer
  connection (package pion) and the media server around the handler are parameters. A subscriber runs
  as a task: asking it to stop and its end are two events, and it is in the collection until the second.
  An error while writing to the socket is ignored, as the code does. Left out are the upgrade to a WebSocket,
  the callbacks of the connection's state, the release of the connection at the end and the log.
\<close>

subsection \<open>Messages\<close>

record signal =
  sigType :: string
  sigList :: "string list"
  sigOffer :: string
  sigAnswer :: string
  sigPath :: string

definition bare_signal :: "string \<Rightarrow> signal" where
  "bare_signal ty = \<lparr>sigType = ty, sigList = [], sigOffer = [], sigAnswer = [], sigPath = []\<rparr>"

text \<open>What the JSON text of a client's message decodes to; fields that are missing are empty.\<close>

fun signal_of :: "message \<Rightarrow> signal" where
  "signal_of (Offer sdp) = bare_signal ''offer''"
| "signal_of (Publish path sdp) = (bare_signal ''publish'')\<lparr>sigPath := path, sigOffer := sdp\<rparr>"
| "signal_of (Unpublish path) = (bare_signal ''unpublish'')\<lparr>sigPath := path\<rparr>"
| "signal_of (Subscribe paths sdp) = (bare_signal ''subscribe'')\<lparr>sigList := paths, sigOffer := sdp\<rparr>"
| "signal_of (Unsubscribe paths sdp) = (bare_signal ''unsubscribe'')\<lparr>sigList := paths, sigOffer := sdp\<rparr>"
| "signal_of GetStreamList = bare_signal ''getStreamList''"

subsection \<open>What the handler uses\<close>

text \<open>
  The operations of a peer connection. Each may fail with an error; \<open>getAnswer\<close> creates an answer and
  makes it the local description.
\<close>

record 'pc peer_ops =
  createPC :: "string \<Rightarrow> string + 'pc"
  setRemoteOffer :: "string \<Rightarrow> 'pc \<Rightarrow> string + 'pc"
  setRemoteAnswer :: "string \<Rightarrow> 'pc \<Rightarrow> string + 'pc"
  getAnswer :: "'pc \<Rightarrow> string + (string \<times> 'pc)"
  addTrack :: "string \<Rightarrow> 'pc \<Rightarrow> 'pc option"
  removeTrack :: "string \<Rightarrow> 'pc \<Rightarrow> 'pc"

datatype codec = H264 | H265 | OtherCodec

record published =
  pubPath :: string
  pubVideo :: bool
  pubCodec :: "codec option"
  pubWidth :: nat
  pubHeight :: nat
  pubFps :: nat

text \<open>The media server: whom it refuses to publish or subscribe, and what is published.\<close>

record host =
  publishError :: "string \<Rightarrow> string option"
  subscribeError :: "string \<Rightarrow> string option"
  serverStreams :: "published list"

record 'pc ws_handler =
  hpc :: "'pc option"
  supportsH265 :: bool
  publisher :: "string option"
  subscribers :: "string list"
  stopping :: "string list"
  replies :: "reply list"

definition new_handler :: "'pc ws_handler" where
  "new_handler = \<lparr>hpc = None, supportsH265 = False, publisher = None, subscribers = [], stopping = [], replies = []\<rparr>"

subsection \<open>Replies\<close>

definition sendJSON :: "reply \<Rightarrow> 'pc ws_handler \<Rightarrow> 'pc ws_handler" where
  "sendJSON r h = h\<lparr>replies := replies h @ [r]\<rparr>"

definition sendAnswer :: "string \<Rightarrow> 'pc ws_handler \<Rightarrow> 'pc ws_handler" where
  "sendAnswer sdp h = sendJSON (Answer sdp) h"

definition sendError :: "string \<Rightarrow> 'pc ws_handler \<Rightarrow> 'pc ws_handler" where
  "sendError message h = sendJSON (ErrorReply message) h"

text \<open>\<open>strings.Contains\<close>\<close>

fun str_contains :: "string \<Rightarrow> string \<Rightarrow> bool" where
  "str_contains [] sub \<longleftrightarrow> sub = []"
| "str_contains (c # s) sub \<longleftrightarrow> take (length sub) (c # s) = sub \<or> str_contains s sub"

definition validateSDP :: "string \<Rightarrow> bool" where
  "validateSDP sdp \<longleftrightarrow> sdp \<noteq> [] \<and> (str_contains sdp ''a=ice-ufrag:'' \<or> str_contains sdp ''a=ice-pwd:'')"

definition ascii_lower :: "char \<Rightarrow> char" where
  "ascii_lower c = (let n = of_char c :: nat in if 65 \<le> n \<and> n \<le> 90 then char_of (n + 32) else c)"

text \<open>
  Create an answer and send it, or send the error behind \<open>prefix\<close>. The connection is not nil here: the
  loop runs only after it has been created.
\<close>

definition answer_client :: "'pc peer_ops \<Rightarrow> string \<Rightarrow> 'pc ws_handler \<Rightarrow> 'pc ws_handler" where
  "answer_client ops prefix h =
     (case getAnswer ops (the (hpc h)) of
        Inl e \<Rightarrow> sendError (prefix @ e) h
      | Inr (sdp, q) \<Rightarrow> sendAnswer sdp (h\<lparr>hpc := Some q\<rparr>))"

text \<open>Check an offer and make it the remote description; \<open>go\<close> is the rest of the handler.\<close>

definition with_offer :: "'pc peer_ops \<Rightarrow> string \<Rightarrow> ('pc ws_handler \<Rightarrow> 'pc ws_handler) \<Rightarrow> 'pc ws_handler \<Rightarrow> 'pc ws_handler" where
  "with_offer ops offer go h =
     (if \<not> validateSDP offer then sendError ''Invalid SDP: missing ICE credentials'' h
      else case setRemoteOffer ops offer (the (hpc h)) of
             Inl e \<Rightarrow> sendError (''Failed to set remote description: '' @ e) h
           | Inr q \<Rightarrow> go (h\<lparr>hpc := Some q\<rparr>))"

subsection \<open>Handlers\<close>

definition handlePublish :: "'pc peer_ops \<Rightarrow> host \<Rightarrow> signal \<Rightarrow> 'pc ws_handler \<Rightarrow> 'pc ws_handler" where
  "handlePublish ops env sig h =
     (case publishError env (sigPath sig) of
        Some e \<Rightarrow> sendError e h
      | None \<Rightarrow> answer_client ops [] (h\<lparr>publisher := Some (sigPath sig)\<rparr>))"

text \<open>
  \<open>AddSubscriber\<close> starts a task that adds a track. If that fails the task is gone again, without an
  error to the caller.
\<close>

definition AddSubscriber :: "'pc peer_ops \<Rightarrow> string \<Rightarrow> 'pc ws_handler \<Rightarrow> 'pc ws_handler" where
  "AddSubscriber ops path h =
     (case addTrack ops path (the (hpc h)) of
        None \<Rightarrow> h
      | Some q \<Rightarrow> h\<lparr>hpc := Some q, subscribers := subscribers h @ [path]\<rparr>)"

definition RemoveSubscriber :: "'pc peer_ops \<Rightarrow> string \<Rightarrow> 'pc ws_handler \<Rightarrow> 'pc ws_handler" where
  "RemoveSubscriber ops path h =
     h\<lparr>hpc := Some (removeTrack ops path (the (hpc h))), stopping := (if path \<in> set (stopping h) then stopping h else stopping h @ [path])\<rparr>"

definition HasSubscriber :: "string \<Rightarrow> 'pc ws_handler \<Rightarrow> bool" where
  "HasSubscriber path h \<longleftrightarrow> path \<in> set (subscribers h)"

definition subscribe_one :: "'pc peer_ops \<Rightarrow> host \<Rightarrow> string \<Rightarrow> 'pc ws_handler \<Rightarrow> 'pc ws_handler" where
  "subscribe_one ops env path h =
     (if HasSubscriber path h then h
      else case subscribeError env path of
             Some e \<Rightarrow> sendError e h
           | None \<Rightarrow> AddSubscriber ops path h)"

definition handleSubscribe :: "'pc peer_ops \<Rightarrow> host \<Rightarrow> signal \<Rightarrow> 'pc ws_handler \<Rightarrow> 'pc ws_handler" where
  "handleSubscribe ops env sig h =
     with_offer ops (sigOffer sig)
       (\<lambda>h. answer_client ops ''Failed to create answer: '' (fold (subscribe_one ops env) (sigList sig) h)) h"

definition unsubscribe_one :: "'pc peer_ops \<Rightarrow> string \<Rightarrow> 'pc ws_handler \<Rightarrow> 'pc ws_handler" where
  "unsubscribe_one ops path h = (if HasSubscriber path h then RemoveSubscriber ops path h else h)"

definition handleUnsubscribe :: "'pc peer_ops \<Rightarrow> signal \<Rightarrow> 'pc ws_handler \<Rightarrow> 'pc ws_handler" where
  "handleUnsubscribe ops sig h =
     with_offer ops (sigOffer sig)
       (\<lambda>h. answer_client ops ''Failed to create answer: '' (fold (unsubscribe_one ops) (sigList sig) h)) h"

definition handleUnpublish :: "'pc peer_ops \<Rightarrow> signal \<Rightarrow> 'pc ws_handler \<Rightarrow> 'pc ws_handler" where
  "handleUnpublish ops sig h =
     (if publisher h = Some (sigPath sig) then answer_client ops [] (h\<lparr>publisher := None\<rparr>)
      else sendError ''Not publishing this stream'' h)"

definition handleAnswer :: "'pc peer_ops \<Rightarrow> signal \<Rightarrow> 'pc ws_handler \<Rightarrow> 'pc ws_handler" where
  "handleAnswer ops sig h =
     (if \<not> validateSDP (sigAnswer sig) then sendError ''Invalid SDP: missing ICE credentials'' h
      else case setRemoteAnswer ops (sigAnswer sig) (the (hpc h)) of
             Inl e \<Rightarrow> sendError (''Failed to set remote description: '' @ e) h
           | Inr q \<Rightarrow> h\<lparr>hpc := Some q\<rparr>)"

definition handlePing :: "signal \<Rightarrow> 'pc ws_handler \<Rightarrow> 'pc ws_handler" where
  "handlePing sig h =
     (if sigType sig = ''ping'' then sendJSON (OtherReply ''pong'') h
      else sendError (''Invalid signal type for ping: '' @ sigType sig) h)"

definition listed :: "bool \<Rightarrow> published \<Rightarrow> stream_info option" where
  "listed h265 p =
     (if \<not> pubVideo p then None
      else let info = (\<lambda>name. \<lparr>siPath = pubPath p, siCodec = name, siWidth = pubWidth p, siHeight = pubHeight p, siFps = pubFps p\<rparr>)
           in case pubCodec p of
                Some H264 \<Rightarrow> Some (info ''H264'')
              | Some H265 \<Rightarrow> if h265 then Some (info ''H265'') else None
              | _ \<Rightarrow> None)"

definition handleGetStreamList :: "host \<Rightarrow> 'pc ws_handler \<Rightarrow> 'pc ws_handler" where
  "handleGetStreamList env h = sendJSON (StreamListReply (List.map_filter (listed (supportsH265 h)) (serverStreams env))) h"

subsection \<open>The loop of the handler\<close>

text \<open>The first message. The result says whether the handler goes on.\<close>

definition first_message :: "'pc peer_ops \<Rightarrow> message \<Rightarrow> 'pc ws_handler \<Rightarrow> 'pc ws_handler \<times> bool" where
  "first_message ops msg h =
     (case msg of
        Offer sdp \<Rightarrow>
          if \<not> validateSDP sdp then (sendError ''Invalid SDP: missing ICE credentials'' h, False)
          else
            let h = (if str_contains (map ascii_lower sdp) ''h265'' then h\<lparr>supportsH265 := True\<rparr> else h)
            in case createPC ops sdp of
                 Inl e \<Rightarrow> (h, False)
               | Inr q \<Rightarrow>
                   (case getAnswer ops q of
                      Inl e \<Rightarrow> (h\<lparr>hpc := Some q\<rparr>, False)
                    | Inr (answer, q) \<Rightarrow> (sendAnswer answer (h\<lparr>hpc := Some q\<rparr>), True))
      | _ \<Rightarrow> (sendError ''Initial message must be an SDP offer'' h, False))"

text \<open>A later message; Inl is the error for a text that does not decode.\<close>

definition handle_signal :: "'pc peer_ops \<Rightarrow> host \<Rightarrow> string + signal \<Rightarrow> 'pc ws_handler \<Rightarrow> 'pc ws_handler" where
  "handle_signal ops env msg h =
     (case msg of
        Inl e \<Rightarrow> sendError (''Invalid signal format: '' @ e) h
      | Inr sig \<Rightarrow>
          if sigType sig = ''publish'' then handlePublish ops env sig h
          else if sigType sig = ''subscribe'' then handleSubscribe ops env sig h
          else if sigType sig = ''unsubscribe'' then handleUnsubscribe ops sig h
          else if sigType sig = ''unpublish'' then handleUnpublish ops sig h
          else if sigType sig = ''answer'' then handleAnswer ops sig h
          else if sigType sig = ''getStreamList'' then handleGetStreamList env h
          else if sigType sig = ''ping'' then handlePing sig h
          else sendError (''Unknown signal type: '' @ sigType sig) h)"

text \<open>A subscriber's task has ended: it was asked to stop, or its stream is over.\<close>

definition task_ends :: "string \<Rightarrow> 'pc ws_handler \<Rightarrow> 'pc ws_handler" where
  "task_ends path h =
     h\<lparr>subscribers := filter (\<lambda>s. s \<noteq> path) (subscribers h), stopping := filter (\<lambda>s. s \<noteq> path) (stopping h)\<rparr>"

end
