(* ===== verification/Batch_Session.thy ===== *)
theory Batch_Session
  imports Batch_Steps Batch_Server
begin

section \<open>Client and server of the batch protocol together\<close>

text \<open>
  A session: a connected \<open>BatchV2Client\<close>, the server's \<open>WebSocketHandler\<close> and the messages under way
  between them. Calls of the client come one after the other, messages and replies at any time. The
  abstract specification is a set of streams that each message changes; the handler implements it, the
  client's calls send the messages that lead to the set the client remembers, and so the two agree up to
  what is still under way.
\<close>

subsection \<open>What a message asks for\<close>

fun wants :: "message \<Rightarrow> string set \<Rightarrow> string set" where
  "wants (Subscribe paths sdp) S = S \<union> set paths"
| "wants (Unsubscribe paths sdp) S = S - set paths"
| "wants _ S = S"

fun offer_ok :: "message \<Rightarrow> bool" where
  "offer_ok (Subscribe paths sdp) \<longleftrightarrow> validateSDP sdp"
| "offer_ok (Unsubscribe paths sdp) \<longleftrightarrow> validateSDP sdp"
| "offer_ok _ \<longleftrightarrow> True"

definition live :: "'pc ws_handler \<Rightarrow> string set" where
  "live h = set (subscribers h) - set (stopping h)"

definition handler_ok :: "('pc \<Rightarrow> bool) \<Rightarrow> 'pc ws_handler \<Rightarrow> bool" where
  "handler_ok pending h \<longleftrightarrow> distinct (subscribers h) \<and> set (stopping h) \<subseteq> set (subscribers h) \<and> (\<exists>q. hpc h = Some q \<and> \<not> pending q)"

text \<open>
  A peer connection as WebRTC documents it: \<open>pending\<close> holds between an offer and its answer; an
  answer can be created then and only then. The offers are accepted, and nobody is refused.
\<close>

definition cooperative :: "'pc peer_ops \<Rightarrow> host \<Rightarrow> ('pc \<Rightarrow> bool) \<Rightarrow> bool" where
  "cooperative ops env pending \<longleftrightarrow>
     (\<forall>s q. \<exists>q'. setRemoteOffer ops s q = Inr q' \<and> pending q') \<and>
     (\<forall>s q. pending q \<longrightarrow> (\<exists>q'. addTrack ops s q = Some q' \<and> pending q') \<and> pending (removeTrack ops s q)) \<and>
     (\<forall>q. pending q \<longrightarrow> (\<exists>s q'. getAnswer ops q = Inr (s, q') \<and> \<not> pending q')) \<and>
     (\<forall>q. \<not> pending q \<longrightarrow> (\<exists>e. getAnswer ops q = Inl e)) \<and>
     (\<forall>s. subscribeError env s = None)"

lemma cooperativeD:
  assumes "cooperative ops env pending"
  shows "\<exists>q'. setRemoteOffer ops s q = Inr q' \<and> pending q'"
    and "pending q \<Longrightarrow> \<exists>q'. addTrack ops s q = Some q' \<and> pending q'"
    and "pending q \<Longrightarrow> pending (removeTrack ops s q)"
    and "pending q \<Longrightarrow> \<exists>a q'. getAnswer ops q = Inr (a, q') \<and> \<not> pending q'"
    and "\<not> pending q \<Longrightarrow> \<exists>e. getAnswer ops q = Inl e"
    and "subscribeError env s = None"
  using assms by (simp_all add: cooperative_def)

subsection \<open>The handler implements the specification\<close>

lemma send_frame [simp]:
  "hpc (sendJSON r h) = hpc h" "subscribers (sendJSON r h) = subscribers h" "stopping (sendJSON r h) = stopping h"
  "publisher (sendJSON r h) = publisher h" "replies (sendJSON r h) = replies h @ [r]"
  by (simp_all add: sendJSON_def)

definition busy :: "('pc \<Rightarrow> bool) \<Rightarrow> 'pc ws_handler \<Rightarrow> bool" where
  "busy pending h \<longleftrightarrow> distinct (subscribers h) \<and> set (stopping h) \<subseteq> set (subscribers h) \<and> (\<exists>q. hpc h = Some q \<and> pending q)"

lemma subscribe_fold:
  assumes "cooperative ops env pending" and "busy pending h"
  shows "busy pending (fold (subscribe_one ops env) ps h) \<and> stopping (fold (subscribe_one ops env) ps h) = stopping h \<and>
    set (subscribers (fold (subscribe_one ops env) ps h)) = set (subscribers h) \<union> set ps \<and>
    replies (fold (subscribe_one ops env) ps h) = replies h"
  using assms(2)
proof (induction ps arbitrary: h)
  case (Cons path ps)
  obtain q where q: "hpc h = Some q" "pending q" using Cons.prems by (auto simp: busy_def)
  obtain q' where q': "addTrack ops path q = Some q'" "pending q'" using cooperativeD(2) [OF assms(1) q(2)] by blast
  have "busy pending (subscribe_one ops env path h) \<and> stopping (subscribe_one ops env path h) = stopping h \<and>
    set (subscribers (subscribe_one ops env path h)) = insert path (set (subscribers h)) \<and>
    replies (subscribe_one ops env path h) = replies h"
    using Cons.prems q q' cooperativeD(6) [OF assms(1)]
    by (auto simp: subscribe_one_def HasSubscriber_def AddSubscriber_def busy_def)
  then show ?case using Cons.IH [of "subscribe_one ops env path h"] by auto
qed simp

lemma unsubscribe_fold:
  assumes "cooperative ops env pending" and "busy pending h"
  shows "busy pending (fold (unsubscribe_one ops) ps h) \<and> subscribers (fold (unsubscribe_one ops) ps h) = subscribers h \<and>
    set (stopping (fold (unsubscribe_one ops) ps h)) = set (stopping h) \<union> (set ps \<inter> set (subscribers h)) \<and>
    replies (fold (unsubscribe_one ops) ps h) = replies h"
  using assms(2)
proof (induction ps arbitrary: h)
  case (Cons path ps)
  obtain q where q: "hpc h = Some q" "pending q" using Cons.prems by (auto simp: busy_def)
  have "busy pending (unsubscribe_one ops path h) \<and> subscribers (unsubscribe_one ops path h) = subscribers h \<and>
    set (stopping (unsubscribe_one ops path h)) = set (stopping h) \<union> ({path} \<inter> set (subscribers h)) \<and>
    replies (unsubscribe_one ops path h) = replies h"
    using Cons.prems q cooperativeD(3) [OF assms(1) q(2)]
    by (auto simp: unsubscribe_one_def HasSubscriber_def RemoveSubscriber_def busy_def)
  then show ?case using Cons.IH [of "unsubscribe_one ops path h"] by auto
qed simp

lemma answer_busy:
  assumes "cooperative ops env pending" and "busy pending h"
  shows "handler_ok pending (answer_client ops pre h) \<and> subscribers (answer_client ops pre h) = subscribers h \<and>
    stopping (answer_client ops pre h) = stopping h \<and> (\<exists>a. replies (answer_client ops pre h) = replies h @ [Answer a])"
proof -
  obtain q where q: "hpc h = Some q" "pending q" using assms(2) by (auto simp: busy_def)
  obtain a q' where "getAnswer ops q = Inr (a, q')" "\<not> pending q'" using cooperativeD(4) [OF assms(1) q(2)] by blast
  then show ?thesis using q assms(2) by (simp add: answer_client_def sendAnswer_def busy_def handler_ok_def)
qed

lemma answer_stable:
  assumes "cooperative ops env pending" and "handler_ok pending h"
  obtains e where "answer_client ops pre h = sendError (pre @ e) h"
proof -
  obtain q where q: "hpc h = Some q" "\<not> pending q" using assms(2) by (auto simp: handler_ok_def)
  obtain e where "getAnswer ops q = Inl e" using cooperativeD(5) [OF assms(1) q(2)] by blast
  then show ?thesis using q that by (simp add: answer_client_def)
qed

lemma offer_busy:
  assumes "cooperative ops env pending" and "handler_ok pending h" and "validateSDP sdp"
  obtains q where "with_offer ops sdp go h = go (h\<lparr>hpc := Some q\<rparr>)" "busy pending (h\<lparr>hpc := Some q\<rparr>)"
proof -
  obtain q where q: "hpc h = Some q" using assms(2) by (auto simp: handler_ok_def)
  obtain q' where "setRemoteOffer ops sdp q = Inr q'" "pending q'" using cooperativeD(1) [OF assms(1)] by blast
  then show ?thesis using that [of q'] q assms(2,3) by (simp add: with_offer_def handler_ok_def busy_def)
qed

lemma handler_ok_error [simp]: "handler_ok pending (sendError e h) = handler_ok pending h"
  by (simp add: sendError_def handler_ok_def)

abbreviation handle_message :: "'pc peer_ops \<Rightarrow> host \<Rightarrow> message \<Rightarrow> 'pc ws_handler \<Rightarrow> 'pc ws_handler" where
  "handle_message ops env msg \<equiv> handle_signal ops env (Inr (signal_of msg))"

lemma handle_subscribe:
  assumes co: "cooperative ops env pending" and ok: "handler_ok pending h" and st: "stopping h = []" and v: "validateSDP sdp"
  shows "handler_ok pending (handle_message ops env (Subscribe paths sdp) h) \<and>
    live (handle_message ops env (Subscribe paths sdp) h) = live h \<union> set paths \<and>
    (\<exists>a. replies (handle_message ops env (Subscribe paths sdp) h) = replies h @ [Answer a])"
proof -
  let ?pre = "''Failed to create answer: ''"
  obtain q where q: "handle_message ops env (Subscribe paths sdp) h = answer_client ops ?pre (fold (subscribe_one ops env) paths (h\<lparr>hpc := Some q\<rparr>))"
    "busy pending (h\<lparr>hpc := Some q\<rparr>)"
    using offer_busy [OF co ok v, of "\<lambda>h. answer_client ops ?pre (fold (subscribe_one ops env) paths h)"]
    by (auto simp: handle_signal_def handleSubscribe_def bare_signal_def)
  show ?thesis
    using subscribe_fold [OF co q(2), of paths] answer_busy [OF co, of "fold (subscribe_one ops env) paths (h\<lparr>hpc := Some q\<rparr>)" ?pre] st
    unfolding q(1) by (auto simp: live_def)
qed

lemma handle_unsubscribe:
  assumes co: "cooperative ops env pending" and ok: "handler_ok pending h" and v: "validateSDP sdp"
  shows "handler_ok pending (handle_message ops env (Unsubscribe paths sdp) h) \<and>
    live (handle_message ops env (Unsubscribe paths sdp) h) = live h - set paths \<and>
    (\<exists>a. replies (handle_message ops env (Unsubscribe paths sdp) h) = replies h @ [Answer a])"
proof -
  let ?pre = "''Failed to create answer: ''"
  obtain q where q: "handle_message ops env (Unsubscribe paths sdp) h = answer_client ops ?pre (fold (unsubscribe_one ops) paths (h\<lparr>hpc := Some q\<rparr>))"
    "busy pending (h\<lparr>hpc := Some q\<rparr>)"
    using offer_busy [OF co ok v, of "\<lambda>h. answer_client ops ?pre (fold (unsubscribe_one ops) paths h)"]
    by (auto simp: handle_signal_def handleUnsubscribe_def bare_signal_def)
  show ?thesis
    using unsubscribe_fold [OF co q(2), of paths] answer_busy [OF co, of "fold (unsubscribe_one ops) paths (h\<lparr>hpc := Some q\<rparr>)" ?pre]
    unfolding q(1) by (auto simp: live_def)
qed

lemma handle_publish:
  assumes co: "cooperative ops env pending" and ok: "handler_ok pending h"
  shows "\<exists>e. handle_message ops env (Publish path sdp) h =
    sendError e (if publishError env path = None then h\<lparr>publisher := Some path\<rparr> else h)"
proof (cases "publishError env path")
  case None
  have "handler_ok pending (h\<lparr>publisher := Some path\<rparr>)" using ok by (simp add: handler_ok_def)
  from answer_stable [OF co this] obtain e where "answer_client ops [] (h\<lparr>publisher := Some path\<rparr>) = sendError ([] @ e) (h\<lparr>publisher := Some path\<rparr>)" .
  then show ?thesis using None by (auto simp: handle_signal_def handlePublish_def bare_signal_def)
qed (auto simp: handle_signal_def handlePublish_def bare_signal_def)

lemma handle_unpublish:
  assumes co: "cooperative ops env pending" and ok: "handler_ok pending h"
  shows "\<exists>e. handle_message ops env (Unpublish path) h = sendError e (if publisher h = Some path then h\<lparr>publisher := None\<rparr> else h)"
proof (cases "publisher h = Some path")
  case True
  have "handler_ok pending (h\<lparr>publisher := None\<rparr>)" using ok by (simp add: handler_ok_def)
  from answer_stable [OF co this] obtain e where "answer_client ops [] (h\<lparr>publisher := None\<rparr>) = sendError ([] @ e) (h\<lparr>publisher := None\<rparr>)" .
  then show ?thesis using True by (auto simp: handle_signal_def handleUnpublish_def bare_signal_def)
qed (auto simp: handle_signal_def handleUnpublish_def bare_signal_def)

lemma handle_message_spec:
  assumes "cooperative ops env pending" and "handler_ok pending h" and "stopping h = []" and "offer_ok msg"
  shows "handler_ok pending (handle_message ops env msg h) \<and> live (handle_message ops env msg h) = wants msg (live h)"
proof (cases msg)
  case (Subscribe paths sdp)
  then show ?thesis using handle_subscribe [OF assms(1-3)] assms(4) by simp
next
  case (Unsubscribe paths sdp)
  then show ?thesis using handle_unsubscribe [OF assms(1,2)] assms(4) by simp
next
  case (Publish path sdp)
  obtain e where "handle_message ops env msg h = sendError e (if publishError env path = None then h\<lparr>publisher := Some path\<rparr> else h)"
    using handle_publish [OF assms(1,2)] Publish by blast
  then show ?thesis using assms(2) Publish by (auto simp: handler_ok_def live_def sendError_def)
next
  case (Unpublish path)
  obtain e where "handle_message ops env msg h = sendError e (if publisher h = Some path then h\<lparr>publisher := None\<rparr> else h)"
    using handle_unpublish [OF assms(1,2)] Unpublish by blast
  then show ?thesis using assms(2) Unpublish by (auto simp: handler_ok_def live_def sendError_def)
qed (use assms(2) in \<open>auto simp: handle_signal_def bare_signal_def handleGetStreamList_def handler_ok_def live_def sendError_def\<close>)

lemma first_message_spec:
  assumes "cooperative ops env pending" and "first_message ops (Offer sdp) new_handler = (h, True)"
  shows "subscribers h = [] \<and> stopping h = [] \<and> handler_ok pending h"
proof -
  obtain q a q' where q: "createPC ops sdp = Inr q" "getAnswer ops q = Inr (a, q')"
    and h: "hpc h = Some q'" "subscribers h = []" "stopping h = []"
    using assms(2) by (auto simp: first_message_def new_handler_def sendAnswer_def Let_def split: if_splits sum.splits prod.splits)
  have "pending q" using cooperativeD(5) [OF assms(1), of q] q(2) by auto
  then have "\<not> pending q'" using cooperativeD(4) [OF assms(1)] q(2) by fastforce
  then show ?thesis using h by (simp add: handler_ok_def)
qed

lemma task_ends_spec:
  assumes "handler_ok pending h" and "path \<in> set (stopping h)"
  shows "handler_ok pending (task_ends path h) \<and> live (task_ends path h) = live h"
  using assms by (auto simp: task_ends_def handler_ok_def live_def)

subsection \<open>The client's calls ask for what the client remembers\<close>

text \<open>A step of the client between \<open>c\<close> and \<open>c'\<close> that leaves it at rest on the same connection.\<close>

definition client_moves :: "nat \<Rightarrow> nat \<Rightarrow> client \<Rightarrow> client \<Rightarrow> bool" where
  "client_moves w p c c' \<longleftrightarrow> connected w p c' \<and> tasks c' = [] \<and>
     (\<exists>ms. sent c' = sent c @ map (Pair w) ms \<and> list_all offer_ok ms \<and>
       fold wants ms (set (subscribedStreams c)) = set (subscribedStreams c'))"

lemma client_movesI:
  assumes "connected w p c'" "tasks c' = []" "sent c' = sent c @ map (Pair w) ms" "list_all offer_ok ms"
    "fold wants ms (set (subscribedStreams c)) = set (subscribedStreams c')"
  shows "client_moves w p c c'"
  using assms by (auto simp: client_moves_def)

lemma client_rests:
  assumes "connected w p c" "tasks c' = []" "ws c' = ws c" "pc c' = pc c" "openWs c' = openWs c" "sent c' = sent c"
    "subscribedStreams c' = subscribedStreams c"
  shows "client_moves w p c c'"
  using assms by (intro client_movesI [of _ _ _ _ "[]"]) (simp_all add: connected_def)

lemma subscribe_moves:
  assumes "connected w p c" and "tasks c = []" and "paths \<noteq> []" and "validateSDP sdp"
  shows "client_moves w p c (finish (replicate 5 (Fulfilled sdp 0)) (subscribeToStreams paths c))"
proof -
  let ?old = "subscribedStreams c" and ?c' = "finish (replicate 5 (Fulfilled sdp 0)) (subscribeToStreams paths c)"
  let ?removed = "filter (\<lambda>s. s \<notin> set paths) ?old"
  obtain new where n: "connected w p ?c'" "tasks ?c' = []" "set (subscribedStreams ?c') = set paths" "set new = set paths - set ?old"
    "sent ?c' = sent c @ (if ?removed = [] then [] else [(w, Unsubscribe ?removed sdp)]) @ (if new = [] then [] else [(w, Subscribe new sdp)])"
    using subscribe_exchange [OF assms(1-3) refl refl, of sdp] by blast
  let ?ms = "(if ?removed = [] then [] else [Unsubscribe ?removed sdp]) @ (if new = [] then [] else [Subscribe new sdp])"
  have "set ?old - set ?removed = set ?old \<inter> set paths" by auto
  then have "fold wants ?ms (set ?old) = set paths"
    using n(4) by (cases "?removed = []"; cases "new = []") (auto simp: filter_empty_conv)
  then show ?thesis using n assms(4) by (intro client_movesI [of _ _ _ _ ?ms]) simp_all
qed

lemma unsubscribe_moves:
  assumes "connected w p c" and "tasks c = []" and "streamToTransceiver c path = Some (Some r)" and "validateSDP sdp"
  shows "client_moves w p c (finish (replicate 5 (Fulfilled sdp 0)) (unsubscribeFromStream path c))"
proof -
  let ?F = "Fulfilled sdp 0"
  obtain d where d: "unsubscribeFromStream path c = send_unsubscribe [path] (ThenForget path) d" "connected w p d" "tasks d = []"
    "sent d = sent c" "subscribedStreams d = subscribedStreams c"
    using assms(1-3) by (simp add: unsubscribeFromStream_def connected_def Let_def set_direction_def)
  obtain e where e: "finish (?F # ?F # ?F # [?F, ?F]) (send_unsubscribe [path] (ThenForget path) d) = finish [?F, ?F] (unsub_returns (ThenForget path) e)"
    "connected w p e" "tasks e = []" "subscribedStreams e = subscribedStreams d" "sent e = sent d @ [(w, Unsubscribe [path] sdp)]"
    by (rule finish_unsubscribe [OF d(2,3)])
  have "finish (replicate 5 ?F) (unsubscribeFromStream path c) = forget_stream path e"
    using e d(1) by (simp add: five unsub_returns_def finish_idle forget_stream_def Let_def del: finish.simps)
  then show ?thesis
    using d e assms(4) by (intro client_movesI [of _ _ _ _ "[Unsubscribe [path] sdp]"]) (auto simp: forget_stream_def Let_def connected_def)
qed

text \<open>Publishing and stopping, whatever the browser answers: they send nothing about subscriptions.\<close>

fun publishing :: "task \<Rightarrow> bool" where
  "publishing (PubMedia path) = True" | "publishing (PubReplace path r n) = True" | "publishing (PubOffer path) = True"
| "publishing (PubLocal path p) = True" | "publishing (PubIce path) = True" | "publishing (StopReplace path r) = True"
| "publishing (StopOffer path) = True" | "publishing (StopLocal path p) = True" | "publishing (StopIce path) = True"
| "publishing t = False"

definition publish_step :: "nat \<Rightarrow> nat \<Rightarrow> client \<Rightarrow> client \<Rightarrow> bool" where
  "publish_step w p c c' \<longleftrightarrow> connected w p c' \<and> subscribedStreams c' = subscribedStreams c \<and>
     (\<exists>ms. sent c' = sent c @ map (Pair w) ms \<and> list_all offer_ok ms \<and> (\<forall>S. fold wants ms S = S)) \<and>
     (tasks c' = tasks c \<or> (\<exists>t. publishing t \<and> tasks c' = tasks c @ [t]))"

lemma publish_stepI:
  assumes "connected w p c" "ws c' = ws c" "pc c' = pc c" "openWs c' = openWs c" "subscribedStreams c' = subscribedStreams c"
    "sent c' = sent c @ map (Pair w) ms" "list_all offer_ok ms" "\<And>S. fold wants ms S = S"
    "tasks c' = tasks c \<or> (\<exists>t. publishing t \<and> tasks c' = tasks c @ [t])"
  shows "publish_step w p c c'"
  using assms by (auto simp: publish_step_def connected_def)

lemma resume_publishing:
  "connected w p c \<Longrightarrow> publishing t \<Longrightarrow> publish_step w p c (resume t out c)"
proof (induction t out c rule: resume.induct)
  case (7 path out c)
  then show ?case
    by (cases "localSdp c p") (auto simp: flow_defs connected_def intro: publish_stepI [of _ _ _ _ "[]"] publish_stepI [of _ _ _ _ "[Publish path _]"])
next
  case (11 path out c)
  then show ?case
    by (auto simp: flow_defs connected_def intro: publish_stepI [of _ _ _ _ "[]"] publish_stepI [of _ _ _ _ "[Unpublish path]"])
qed (auto simp: flow_defs Let_def stop_rest_def connected_def split: option.split intro!: publish_stepI [of _ _ _ _ "[]"])

lemma finish_publishing:
  assumes "connected w p c" and "tasks c = [] \<or> (\<exists>t. publishing t \<and> tasks c = [t])"
  shows "connected w p (finish outs c) \<and> subscribedStreams (finish outs c) = subscribedStreams c \<and>
    (\<exists>ms. sent (finish outs c) = sent c @ map (Pair w) ms \<and> list_all offer_ok ms \<and> (\<forall>S. fold wants ms S = S))"
  using assms
proof (induction outs arbitrary: c)
  case Nil
  then show ?case by (auto intro: exI [of _ "[]"])
next
  case (Cons out outs)
  show ?case
  proof (cases "tasks c = []")
    case True
    then show ?thesis using Cons.prems(1) by (auto intro: exI [of _ "[]"])
  next
    case False
    then obtain t where t: "publishing t" "tasks c = [t]" using Cons.prems(2) by blast
    let ?c = "settle_task 0 out c"
    have "publish_step w p (c\<lparr>tasks := []\<rparr>) ?c"
      using resume_publishing [OF _ t(1), of w p "c\<lparr>tasks := []\<rparr>" out] Cons.prems(1) t(2) by (simp add: settle_task_def connected_def)
    then obtain ms where c: "connected w p ?c" "subscribedStreams ?c = subscribedStreams c" "tasks ?c = [] \<or> (\<exists>t. publishing t \<and> tasks ?c = [t])"
      and ms: "sent ?c = sent c @ map (Pair w) ms" "list_all offer_ok ms" "\<forall>S. fold wants ms S = S"
      by (auto simp: publish_step_def)
    obtain ms' where "connected w p (finish outs ?c)" "subscribedStreams (finish outs ?c) = subscribedStreams ?c"
      "sent (finish outs ?c) = sent ?c @ map (Pair w) ms'" "list_all offer_ok ms'" "\<forall>S. fold wants ms' S = S"
      using Cons.IH [OF c(1,3)] by blast
    then show ?thesis using False c(2) ms by (auto intro: exI [of _ "ms @ ms'"])
  qed
qed

lemma publish_moves:
  assumes "connected w p c" and "tasks c = []" and "5 \<le> length outs" and "d \<in> {startPublishing path c, stopPublishing path c}"
  shows "client_moves w p c (finish outs d)"
proof -
  have "publish_step w p c (startPublishing path c)" "publish_step w p c (stopPublishing path c)"
    using assms(1,2)
    by (auto simp: startPublishing_def stopPublishing_def stop_rest_def flow_defs Let_def connected_def split: option.split
        intro!: publish_stepI [of _ _ _ _ "[]"])
  then have "publish_step w p c d" using assms(4) by auto
  then obtain ms where d: "connected w p d" "subscribedStreams d = subscribedStreams c" "tasks d = [] \<or> (\<exists>t. publishing t \<and> tasks d = [t])"
    and ms: "sent d = sent c @ map (Pair w) ms" "list_all offer_ok ms" "\<forall>S. fold wants ms S = S"
    using assms(2) by (auto simp: publish_step_def)
  have "tasks (finish outs d) = []"
    using calls_end [OF assms(2,3), of d] assms(4) by blast
  then show ?thesis
    using finish_publishing [OF d(1,3), of outs] d(2) ms
    by (auto simp: client_moves_def) (metis append_assoc fold_append comp_apply list_all_append map_append)
qed

lemma reply_moves:
  assumes "connected w p c" and "tasks c = []"
  shows "client_moves w p c (finish [out] (handleWebSocketMessage r c))"
proof (cases r)
  case (Answer a)
  then show ?thesis
    using assms by (cases out) (auto simp: handleWebSocketMessage_def Let_def flow_defs connected_def finish_step await_done
      intro!: client_rests simp del: finish.simps(2))
qed (use assms in \<open>auto simp: handleWebSocketMessage_def Let_def intro!: client_rests\<close>)

lemma quiet_moves:
  assumes "connected w p c" and "tasks c = []"
  shows "client_moves w p c (handleTrackEvent kind track t stream i c)" "client_moves w p c (stats_tick i err c)"
    "client_moves w p c (connection_state q state c)" "client_moves w p c (ice_state what state c)"
    "client_moves w p c (client_on e l c)" "client_moves w p c (client_off e l c)"
  using assms
  by (auto simp: handleTrackEvent_def stats_tick_def connection_state_def ice_state_def client_on_def client_off_def Let_def
      connected_def split: option.split intro!: client_rests)

lemma list_moves:
  assumes "connected w p c" and "tasks c = []"
  shows "client_moves w p c (getStreamList c)"
  using assms by (intro client_movesI [of _ _ _ _ "[GetStreamList]"]) (auto simp: getStreamList_def flow_defs connected_def)

subsection \<open>Sessions\<close>

text \<open>
  The state of a session on socket \<open>w\<close> and connection \<open>p\<close>: the client, the handler, and how many of the
  messages the handler and how many of the replies the client has taken. Promises of subscriptions are
  fulfilled, publishing may also fail. The handler takes a message when the tasks it stopped have ended.
\<close>

inductive session :: "'pc peer_ops \<Rightarrow> host \<Rightarrow> nat \<Rightarrow> nat \<Rightarrow> client \<Rightarrow> 'pc ws_handler \<Rightarrow> nat \<Rightarrow> nat \<Rightarrow> bool" for ops env w p where
  begins: "connected w p c \<Longrightarrow> tasks c = [] \<Longrightarrow> subscribedStreams c = [] \<Longrightarrow> sent c = [(w, Offer sdp)] \<Longrightarrow>
    first_message ops (Offer sdp) new_handler = (h, True) \<Longrightarrow> session ops env w p c h 1 0"
| subscribing: "session ops env w p c h got heard \<Longrightarrow> paths \<noteq> [] \<Longrightarrow> validateSDP sdp \<Longrightarrow>
    session ops env w p (finish (replicate 5 (Fulfilled sdp 0)) (subscribeToStreams paths c)) h got heard"
| unsubscribing: "session ops env w p c h got heard \<Longrightarrow> streamToTransceiver c path = Some (Some r) \<Longrightarrow> validateSDP sdp \<Longrightarrow>
    session ops env w p (finish (replicate 5 (Fulfilled sdp 0)) (unsubscribeFromStream path c)) h got heard"
| publishing: "session ops env w p c h got heard \<Longrightarrow> 5 \<le> length outs \<Longrightarrow>
    session ops env w p (finish outs (startPublishing path c)) h got heard"
| stopping: "session ops env w p c h got heard \<Longrightarrow> 5 \<le> length outs \<Longrightarrow>
    session ops env w p (finish outs (stopPublishing path c)) h got heard"
| listing: "session ops env w p c h got heard \<Longrightarrow> session ops env w p (getStreamList c) h got heard"
| playing: "session ops env w p c h got heard \<Longrightarrow> session ops env w p (handleTrackEvent kind track t stream i c) h got heard"
| ticking: "session ops env w p c h got heard \<Longrightarrow> session ops env w p (stats_tick i err c) h got heard"
| changing: "session ops env w p c h got heard \<Longrightarrow> session ops env w p (connection_state q state c) h got heard"
| gathering: "session ops env w p c h got heard \<Longrightarrow> session ops env w p (ice_state what state c) h got heard"
| listening: "session ops env w p c h got heard \<Longrightarrow> session ops env w p (client_on e l c) h got heard"
| ignoring: "session ops env w p c h got heard \<Longrightarrow> session ops env w p (client_off e l c) h got heard"
| delivering: "session ops env w p c h got heard \<Longrightarrow> got < length (sent c) \<Longrightarrow> Batch_Server.stopping h = [] \<Longrightarrow>
    session ops env w p c (handle_signal ops env (Inr (signal_of (snd (sent c ! got)))) h) (Suc got) heard"
| ending: "session ops env w p c h got heard \<Longrightarrow> path \<in> set (Batch_Server.stopping h) \<Longrightarrow> session ops env w p c (task_ends path h) got heard"
| hearing: "session ops env w p c h got heard \<Longrightarrow> heard < length (replies h) \<Longrightarrow>
    session ops env w p (finish [out] (handleWebSocketMessage (replies h ! heard) c)) h got (Suc heard)"

definition in_step :: "('pc \<Rightarrow> bool) \<Rightarrow> nat \<Rightarrow> nat \<Rightarrow> client \<Rightarrow> 'pc ws_handler \<Rightarrow> nat \<Rightarrow> bool" where
  "in_step pending w p c h got \<longleftrightarrow> connected w p c \<and> tasks c = [] \<and> handler_ok pending h \<and> got \<le> length (sent c) \<and>
     list_all (offer_ok \<circ> snd) (drop got (sent c)) \<and>
     set (subscribedStreams c) = fold wants (map snd (drop got (sent c))) (live h)"

lemma in_stepD: "in_step pending w p c h got \<Longrightarrow> connected w p c" "in_step pending w p c h got \<Longrightarrow> tasks c = []"
  by (simp_all add: in_step_def)

lemma in_step_moves:
  assumes "in_step pending w p c h got" and "client_moves w p c c'"
  shows "in_step pending w p c' h got"
proof -
  obtain ms where ms: "connected w p c'" "tasks c' = []" "sent c' = sent c @ map (Pair w) ms" "list_all offer_ok ms"
    "fold wants ms (set (subscribedStreams c)) = set (subscribedStreams c')"
    using assms(2) by (auto simp: client_moves_def)
  have "list_all (offer_ok \<circ> snd) (map (Pair w) ms)" using ms(4) by (simp add: list_all_iff)
  then show ?thesis using assms(1) ms by (simp add: in_step_def comp_def)
qed

lemma session_in_step:
  assumes "cooperative ops env pending"
  shows "session ops env w p c h got heard \<Longrightarrow> in_step pending w p c h got"
proof (induction rule: session.induct)
  case (begins c sdp h)
  then show ?case using first_message_spec [OF assms begins(5)] by (simp add: in_step_def live_def)
next
  case (delivering c h got heard)
  let ?m = "sent c ! got"
  have d: "drop got (sent c) = ?m # drop (Suc got) (sent c)" using delivering.hyps(2) by (rule Cons_nth_drop_Suc [symmetric])
  have "offer_ok (snd ?m)" using delivering.IH d by (simp add: in_step_def)
  from handle_message_spec [OF assms _ delivering.hyps(3) this] show ?case
    using delivering.IH delivering.hyps(2) d by (simp add: in_step_def)
next
  case (ending c h got heard path)
  then show ?case using task_ends_spec [of pending h path] by (simp add: in_step_def)
next
  case (subscribing c h got heard paths sdp)
  then show ?case using in_step_moves [OF _ subscribe_moves] in_stepD by blast
next
  case (unsubscribing c h got heard path r sdp)
  show ?case by (rule in_step_moves [OF unsubscribing.IH unsubscribe_moves [OF in_stepD [OF unsubscribing.IH] unsubscribing.hyps(2,3)]])
next
  case (publishing c h got heard outs path)
  show ?case by (rule in_step_moves [OF publishing.IH publish_moves [OF in_stepD [OF publishing.IH] publishing.hyps(2)]], rule insertI1)
next
  case (stopping c h got heard outs path)
  show ?case by (rule in_step_moves [OF stopping.IH publish_moves [OF in_stepD [OF stopping.IH] stopping.hyps(2)]], rule insertI2, rule insertI1)
next
  case (hearing c h got heard out)
  then show ?case using in_step_moves [OF _ reply_moves] in_stepD by blast
next
  case (listing c h got heard)
  then show ?case using in_step_moves [OF _ list_moves] in_stepD by blast
qed (auto intro: in_step_moves [OF _ quiet_moves(1)] in_step_moves [OF _ quiet_moves(2)] in_step_moves [OF _ quiet_moves(3)]
    in_step_moves [OF _ quiet_moves(4)] in_step_moves [OF _ quiet_moves(5)] in_step_moves [OF _ quiet_moves(6)] dest: in_stepD)

subsection \<open>Properties\<close>


text \<open>
  A peer connection that only knows whether an offer waits for its answer, and a server that refuses
  nobody.
\<close>

definition demo_ops :: "bool peer_ops" where
  "demo_ops = \<lparr>createPC = (\<lambda>s. Inr True), setRemoteOffer = (\<lambda>s q. Inr True), setRemoteAnswer = (\<lambda>s q. Inr False),
     getAnswer = (\<lambda>q. if q then Inr (''answer'', False) else Inl ''InvalidStateError''), addTrack = (\<lambda>s q. Some q), removeTrack = (\<lambda>s q. q)\<rparr>"

definition demo_host :: host where
  "demo_host = \<lparr>publishError = (\<lambda>_. None), subscribeError = (\<lambda>_. None), serverStreams = []\<rparr>"

definition demo_offer :: string where "demo_offer = ''a=ice-ufrag:x''"

definition demo_peer_client :: client where
  "demo_peer_client = finish [Fulfilled demo_offer 0, Fulfilled demo_offer 0]
     (ws_open 0 (connect None (client_on KError 7 (new_BatchV2Client True ''host'' None))))"

definition demo_handler :: "bool ws_handler" where
  "demo_handler = fst (first_message demo_ops (Offer demo_offer) new_handler)"

lemma demo_cooperative: "cooperative demo_ops demo_host (\<lambda>q. q)"
  by (auto simp: cooperative_def demo_ops_def demo_host_def)

lemma demo_session: "session demo_ops demo_host 0 0 demo_peer_client demo_handler 1 0"
proof (rule begins)
  have "ws demo_peer_client = Some 0" "0 \<in> openWs demo_peer_client" "pc demo_peer_client = Some 0" by code_simp+
  then show "connected 0 0 demo_peer_client" by (simp add: connected_def)
  show "tasks demo_peer_client = []" "subscribedStreams demo_peer_client = []"
    "sent demo_peer_client = [(0, Offer demo_offer)]" by code_simp+
  show "first_message demo_ops (Offer demo_offer) new_handler = (demo_handler, True)" by code_simp
qed

definition demo_subscribed :: client where
  "demo_subscribed = finish (replicate 5 (Fulfilled demo_offer 0)) (subscribeToStreams [''a'', ''b''] demo_peer_client)"

definition demo_serving :: "bool ws_handler" where
  "demo_serving = handle_signal demo_ops demo_host (Inr (signal_of (snd (sent demo_subscribed ! 1)))) demo_handler"

lemma demo_session_subscribed: "session demo_ops demo_host 0 0 demo_subscribed demo_serving 2 0"
proof -
  have v: "validateSDP demo_offer" by code_simp
  have "session demo_ops demo_host 0 0 demo_subscribed demo_handler 1 0"
    unfolding demo_subscribed_def by (rule subscribing [OF demo_session _ v]) simp
  then have "session demo_ops demo_host 0 0 demo_subscribed demo_serving (Suc 1) 0"
    unfolding demo_serving_def by (rule delivering) code_simp+
  then show ?thesis by (simp add: numeral_2_eq_2)
qed


text \<open>
  C33. Unsubscribing from a stream that has not arrived yet leaves the server sending it. If no track of a
  subscribed stream has been received, \<open>unsubscribeFromStream\<close> resolves and forgets the stream, but sends
  nothing, and the handler keeps its subscriber; client and server disagree with nothing under way.
\<close>

theorem early_unsubscribe_keeps_the_server_sending:
  assumes "cooperative ops env pending" and "session ops env w p c h got heard" and "got = length (sent c)"
    and "path \<in> set (subscribedStreams c)" and "streamToTransceiver c path = None" and "c' = unsubscribeFromStream path c"
  shows "sent c' = sent c \<and> tasks c' = [] \<and> settled c' = settled c @ [(''unsubscribeFromStream'', None)] \<and>
    path \<notin> set (subscribedStreams c') \<and> path \<in> set (subscribers h) - set (Batch_Server.stopping h)"
proof -
  have i: "in_step pending w p c h got" by (rule session_in_step [OF assms(1,2)])
  have "c' = forget_stream path c"
    using assms(5,6) in_stepD(1) [OF i] by (simp add: unsubscribeFromStream_def connected_def)
  then show ?thesis using i assms(3,4) by (simp add: in_step_def live_def forget_stream_def Let_def)
qed

theorem early_unsubscribe_keeps_the_server_sending_witness:
  "''a'' \<in> set (subscribers demo_serving) \<and> ''a'' \<notin> set (subscribedStreams (unsubscribeFromStream ''a'' demo_subscribed))"
proof -
  have "2 = length (sent demo_subscribed)" "''a'' \<in> set (subscribedStreams demo_subscribed)" "streamToTransceiver demo_subscribed ''a'' = None"
    by code_simp+
  from early_unsubscribe_keeps_the_server_sending [OF demo_cooperative demo_session_subscribed this refl] show ?thesis by blast
qed

text \<open>
  C34. A publication is answered with an error. The handler takes a \<open>publish\<close> message, publishes the
  stream, but does not make the message's offer its remote description; with no offer to answer, creating
  the answer fails, and the reply is an error although the stream is published. The client that hears it
  reports an error to its listeners.
\<close>

theorem publish_is_answered_with_an_error:
  assumes "cooperative ops env pending" and "session ops env w p c h got heard"
    and "publishError env path = None" and "h' = handle_signal ops env (Inr (signal_of (Publish path sdp))) h"
  shows "publisher h' = Some path \<and> hpc h' = hpc h \<and>
    (\<exists>e. replies h' = replies h @ [ErrorReply e] \<and>
       (\<forall>l \<in> set (listeners_of c KError). (l, ErrorEvent e) \<in> set (calls (handleWebSocketMessage (ErrorReply e) c))))"
proof -
  have "handler_ok pending h" using session_in_step [OF assms(1,2)] by (simp add: in_step_def)
  then obtain e where e: "h' = sendError e (h\<lparr>publisher := Some path\<rparr>)"
    using handle_publish [OF assms(1), of h path sdp] assms(3,4) by auto
  let ?c = "client_log (''Error: '' @ e) Error (client_log (''Received message: '' @ ''error'') Info c)"
  have "listeners_of ?c KError = listeners_of c KError" by (simp add: listeners_of_def)
  then have "\<forall>l \<in> set (listeners_of c KError). (l, ErrorEvent e) \<in> set (calls (handleWebSocketMessage (ErrorReply e) c))"
    by (simp add: handleWebSocketMessage_def Let_def emit_calls reply_type_def)
  then show ?thesis unfolding e by (auto simp: sendError_def)
qed

theorem publish_is_answered_with_an_error_witness:
  "\<exists>e. replies (handle_signal demo_ops demo_host (Inr (signal_of (Publish ''x'' demo_offer))) demo_serving) = replies demo_serving @ [ErrorReply e] \<and>
     (7, ErrorEvent e) \<in> set (calls (handleWebSocketMessage (ErrorReply e) demo_subscribed))"
proof -
  have "listeners_of demo_subscribed KError = [7]" by code_simp
  moreover have "publishError demo_host ''x'' = None" by (simp add: demo_host_def)
  ultimately show ?thesis
    using publish_is_answered_with_an_error [OF demo_cooperative demo_session_subscribed _ refl, of "''x''" demo_offer] by auto
qed

text \<open>
  A stream that is subscribed again while the server still stops it is lost. Until the task of a
  subscriber that was asked to stop has ended, \<open>handleSubscribe\<close> takes the stream for subscribed and
  skips it; it answers as usual, and when the task ends the stream has no subscriber.
\<close>

theorem resubscription_while_stopping_is_lost:
  assumes "cooperative ops env pending" and "handler_ok pending h" and "path \<in> set (subscribers h)"
    and "validateSDP s1" and "validateSDP s2"
    and "h1 = handle_signal ops env (Inr (signal_of (Unsubscribe [path] s1))) h"
    and "h2 = handle_signal ops env (Inr (signal_of (Subscribe [path] s2))) h1"
  shows "(\<exists>a b. replies h2 = replies h @ [Answer a, Answer b]) \<and> path \<notin> set (subscribers h2) - set (Batch_Server.stopping h2)"
proof -
  let ?pre = "''Failed to create answer: ''"
  note u = handle_unsubscribe [OF assms(1,2,4), of "[path]"]
  obtain a where a: "handler_ok pending h1" "path \<notin> live h1" "replies h1 = replies h @ [Answer a]" using u assms(6) by auto
  have "path \<in> set (subscribers h1)"
  proof -
    obtain q where q: "h1 = answer_client ops ?pre (fold (unsubscribe_one ops) [path] (h\<lparr>hpc := Some q\<rparr>))" "busy pending (h\<lparr>hpc := Some q\<rparr>)"
      using offer_busy [OF assms(1,2,4), of "\<lambda>h. answer_client ops ?pre (fold (unsubscribe_one ops) [path] h)"] assms(6)
      by (auto simp: handle_signal_def handleUnsubscribe_def bare_signal_def)
    show ?thesis
      using unsubscribe_fold [OF assms(1) q(2), of "[path]"] answer_busy [OF assms(1), of _ ?pre] assms(3) unfolding q(1) by auto
  qed
  moreover obtain q where q: "h2 = answer_client ops ?pre (fold (subscribe_one ops env) [path] (h1\<lparr>hpc := Some q\<rparr>))" "busy pending (h1\<lparr>hpc := Some q\<rparr>)"
    using offer_busy [OF assms(1) a(1) assms(5), of "\<lambda>h. answer_client ops ?pre (fold (subscribe_one ops env) [path] h)"] assms(7)
    by (auto simp: handle_signal_def handleSubscribe_def bare_signal_def)
  ultimately have h2: "h2 = answer_client ops ?pre (h1\<lparr>hpc := Some q\<rparr>)" by (simp add: subscribe_one_def HasSubscriber_def)
  then show ?thesis using answer_busy [OF assms(1) q(2), of ?pre] a by (auto simp: live_def)
qed

theorem resubscription_while_stopping_is_lost_witness:
  "\<exists>h2. h2 = handle_signal demo_ops demo_host (Inr (signal_of (Subscribe [''a''] demo_offer)))
      (handle_signal demo_ops demo_host (Inr (signal_of (Unsubscribe [''a''] demo_offer))) demo_serving) \<and>
    length (replies h2) = length (replies demo_serving) + 2 \<and> ''a'' \<notin> set (subscribers h2) - set (Batch_Server.stopping h2)"
proof -
  have ok: "handler_ok (\<lambda>q. q) demo_serving"
    using session_in_step [OF demo_cooperative demo_session_subscribed] by (simp add: in_step_def)
  have "''a'' \<in> set (subscribers demo_serving)" and v: "validateSDP demo_offer" by code_simp+
  from resubscription_while_stopping_is_lost [OF demo_cooperative ok this(1) v v refl refl] show ?thesis
    by (auto simp del: Un_iff Diff_iff)
qed

end
