(* ===== verification/Recording_Page.thy ===== *)
theory Recording_Page
  imports Flv_Muxer
begin

section \<open>The recording page and its worker\<close>

text \<open>
  The page \<open>plugin/webtransport/web/example.js\<close> and the worker \<open>worker.js\<close> it talks to. The worker
  connects to the server, makes a muxer that writes to the connection, and then lets messages of the
  page call the muxer; a message that arrives before it listens is lost. The page posts messages, lets
  the tracks of the captured screen post theirs, and saves what the worker posted to it. Messages are
  delivered in order. A promise that the browser settles resumes the function that awaits it. Errors
  of an asynchronous function nobody awaits are lost.
\<close>

subsection \<open>The worker\<close>

datatype worker_message = DATA_VIDEO frame | DATA_AUDIO frame | START | PAUSE | RESUME | STOP

datatype worker = AwaitReady | AwaitStream | Listening sys | Dead

definition worker_video :: video_config where
  "worker_video = \<lparr>width = JNumber (f64_of_rat 2560), height = JNumber (f64_of_rat 1440), framerate = JNumber (f64_of_rat 30)\<rparr>"

definition worker_audio :: audio_config where
  "worker_audio = \<lparr>bitrate = None, numberOfChannels = 2, sampleRate = JNumber (f64_of_rat 44100)\<rparr>"

text \<open>\<open>configure\<close> is the error of the browser's encoder for a configuration it does not support.\<close>

definition worker_setup :: "(encoder_config \<Rightarrow> js_error option) \<Rightarrow> worker" where
  "worker_setup configure =
     (case new_FlvMuxer True \<lparr>audioOption = None, videoOption = None\<rparr> of
        Inl e \<Rightarrow> Dead
      | Inr m \<Rightarrow>
          (case configureVideo configure (Some worker_video) (Some 90) m of
             (m, Some e) \<Rightarrow> Dead
           | (m, None) \<Rightarrow>
               (case configureAudio configure (Some worker_audio) m of
                  (m, Some e) \<Rightarrow> Dead
                | (m, None) \<Rightarrow> Listening m)))"

text \<open>The connection is ready, and then its stream; or the promise is rejected and the worker ends.\<close>

definition worker_resume :: "bool \<Rightarrow> (encoder_config \<Rightarrow> js_error option) \<Rightarrow> worker \<Rightarrow> worker" where
  "worker_resume ok configure w =
     (case w of
        AwaitReady \<Rightarrow> if ok then AwaitStream else Dead
      | AwaitStream \<Rightarrow> if ok then worker_setup configure else Dead
      | _ \<Rightarrow> w)"

definition worker_call :: "worker_message \<Rightarrow> js_error option \<Rightarrow> mux_event" where
  "worker_call msg refused =
     (case msg of
        DATA_VIDEO f \<Rightarrow> RawChunk VideoTrack refused f
      | DATA_AUDIO f \<Rightarrow> RawChunk AudioTrack refused f
      | START \<Rightarrow> StartCall | PAUSE \<Rightarrow> PauseCall | RESUME \<Rightarrow> ResumeCall | STOP \<Rightarrow> StopCall)"

definition worker_onmessage :: "worker_message \<Rightarrow> js_error option \<Rightarrow> worker \<Rightarrow> worker" where
  "worker_onmessage msg refused w =
     (case w of Listening m \<Rightarrow> Listening (mux_do (worker_call msg refused) m) | _ \<Rightarrow> w)"

subsection \<open>The page\<close>

text \<open>A captured stream has a number and may have a video and an audio track.\<close>

type_synonym captured = "nat \<times> track_kind list"

datatype page_task = AwaitDisplay | AwaitPicker | AwaitWritable | AwaitWrite bytes | AwaitClose bytes

record rec_page =
  captured :: "captured option"
  recordingChunks :: "bytes list"
  hearsWorker :: bool
  toWorker :: "worker_message list"
  fromWorker :: "bytes list"
  capturing :: "(nat \<times> track_kind) list"
  stoppedCaptures :: "nat set"
  pageTasks :: "page_task list"
  savedFiles :: "bytes list"
  loggedErrors :: "string list"

definition new_rec_page :: rec_page where
  "new_rec_page =
     \<lparr>captured = None, recordingChunks = [], hearsWorker = False, toWorker = [], fromWorker = [], capturing = [],
      stoppedCaptures = {}, pageTasks = [], savedFiles = [], loggedErrors = []\<rparr>"

definition post :: "worker_message \<Rightarrow> rec_page \<Rightarrow> rec_page" where
  "post msg p = p\<lparr>toWorker := toWorker p @ [msg]\<rparr>"

definition page_await :: "page_task \<Rightarrow> rec_page \<Rightarrow> rec_page" where
  "page_await t p = p\<lparr>pageTasks := pageTasks p @ [t]\<rparr>"

definition startRecording :: "rec_page \<Rightarrow> rec_page" where
  "startRecording p = page_await AwaitDisplay (post START (p\<lparr>hearsWorker := True\<rparr>))"

definition pauseRecording :: "rec_page \<Rightarrow> rec_page" where
  "pauseRecording p = post PAUSE p"

definition resumeRecording :: "rec_page \<Rightarrow> rec_page" where
  "resumeRecording p = post RESUME p"

definition save_failed :: "string \<Rightarrow> rec_page \<Rightarrow> rec_page" where
  "save_failed e p = p\<lparr>loggedErrors := loggedErrors p @ [''Error stopping recording: '' @ e]\<rparr>"

definition stopRecording :: "rec_page \<Rightarrow> rec_page" where
  "stopRecording p =
     (let p = post STOP p
      in case captured p of
           None \<Rightarrow> save_failed ''Cannot read properties of undefined (reading getTracks)'' p
         | Some (s, tracks) \<Rightarrow> page_await AwaitPicker (p\<lparr>stoppedCaptures := insert s (stoppedCaptures p)\<rparr>))"

datatype page_outcome = Captured captured | Done | Refused string

text \<open>The function behind a task runs on when its promise settles.\<close>

fun page_resume :: "page_task \<Rightarrow> page_outcome \<Rightarrow> rec_page \<Rightarrow> rec_page" where
  "page_resume AwaitDisplay (Captured (s, tracks)) p =
     p\<lparr>captured := Some (s, tracks),
       capturing := capturing p @ map (Pair s) (filter (\<lambda>k. k \<in> set tracks) [VideoTrack, AudioTrack])\<rparr>"
| "page_resume AwaitDisplay _ p = p"
| "page_resume AwaitPicker Done p = page_await AwaitWritable p"
| "page_resume AwaitWritable Done p = page_await (AwaitWrite (concat (recordingChunks p))) p"
| "page_resume (AwaitWrite file) Done p = page_await (AwaitClose file) p"
| "page_resume (AwaitClose file) Done p = p\<lparr>savedFiles := savedFiles p @ [file], recordingChunks := []\<rparr>"
| "page_resume t (Refused e) p = save_failed e p"
| "page_resume t _ p = p"

definition page_settles :: "nat \<Rightarrow> page_outcome \<Rightarrow> rec_page \<Rightarrow> rec_page" where
  "page_settles i out p = page_resume (pageTasks p ! i) out (p\<lparr>pageTasks := remove_nth i (pageTasks p)\<rparr>)"

text \<open>A frame of a track that is captured and has not been stopped.\<close>

definition page_frame :: "nat \<Rightarrow> track_kind \<Rightarrow> frame \<Rightarrow> rec_page \<Rightarrow> rec_page" where
  "page_frame s k f p =
     (if (s, k) \<in> set (capturing p) \<and> s \<notin> stoppedCaptures p
      then post (case k of VideoTrack \<Rightarrow> DATA_VIDEO f | AudioTrack \<Rightarrow> DATA_AUDIO f) p else p)"

definition page_onmessage :: "rec_page \<Rightarrow> rec_page" where
  "page_onmessage p =
     (case fromWorker p of
        [] \<Rightarrow> p
      | b # bs \<Rightarrow>
          let p = p\<lparr>fromWorker := bs\<rparr>
          in if hearsWorker p then p\<lparr>recordingChunks := recordingChunks p @ [b]\<rparr> else p)"

subsection \<open>Page and worker together\<close>

record rec_app =
  page_of :: rec_page
  worker_of :: worker

definition new_rec_app :: rec_app where
  "new_rec_app = \<lparr>page_of = new_rec_page, worker_of = AwaitReady\<rparr>"

definition deliver :: "js_error option \<Rightarrow> rec_app \<Rightarrow> rec_app" where
  "deliver refused a =
     (case toWorker (page_of a) of
        [] \<Rightarrow> a
      | msg # msgs \<Rightarrow>
          a\<lparr>page_of := (page_of a)\<lparr>toWorker := msgs\<rparr>, worker_of := worker_onmessage msg refused (worker_of a)\<rparr>)"

text \<open>The encoders, the pipe and the pending promises of the worker's muxer move on by themselves.\<close>

definition muxer_moves :: "mux_event \<Rightarrow> rec_app \<Rightarrow> rec_app" where
  "muxer_moves ev a = (case worker_of a of Listening m \<Rightarrow> a\<lparr>worker_of := Listening (mux_do ev m)\<rparr> | _ \<Rightarrow> a)"

inductive app_reach :: "rec_app \<Rightarrow> bool" where
  app_new: "app_reach new_rec_app"
| app_start: "app_reach a \<Longrightarrow> app_reach (a\<lparr>page_of := startRecording (page_of a)\<rparr>)"
| app_pause: "app_reach a \<Longrightarrow> app_reach (a\<lparr>page_of := pauseRecording (page_of a)\<rparr>)"
| app_resume: "app_reach a \<Longrightarrow> app_reach (a\<lparr>page_of := resumeRecording (page_of a)\<rparr>)"
| app_stop: "app_reach a \<Longrightarrow> app_reach (a\<lparr>page_of := stopRecording (page_of a)\<rparr>)"
| app_settles: "app_reach a \<Longrightarrow> i < length (pageTasks (page_of a)) \<Longrightarrow> app_reach (a\<lparr>page_of := page_settles i out (page_of a)\<rparr>)"
| app_frame: "app_reach a \<Longrightarrow> app_reach (a\<lparr>page_of := page_frame s k f (page_of a)\<rparr>)"
| app_hears: "app_reach a \<Longrightarrow> app_reach (a\<lparr>page_of := page_onmessage (page_of a)\<rparr>)"
| app_worker: "app_reach a \<Longrightarrow> app_reach (a\<lparr>worker_of := worker_resume ok configure (worker_of a)\<rparr>)"
| app_deliver: "app_reach a \<Longrightarrow> app_reach (deliver refused a)"
| app_encoder: "app_reach a \<Longrightarrow> app_reach (muxer_moves (Recording_event ev) a)"
| app_promise: "app_reach a \<Longrightarrow> app_reach (muxer_moves (PromiseSettled i ok) a)"

subsection \<open>What the server receives\<close>

lemma setup_listening:
  assumes "worker_setup configure = Listening m"
  obtains n where "new_FlvMuxer True \<lparr>audioOption = None, videoOption = None\<rparr> = Inr n"
    "m = mux_do (ConfigureAudio configure (Some worker_audio)) (mux_do (ConfigureVideo configure (Some worker_video) (Some 90)) n)"
proof (cases "new_FlvMuxer True \<lparr>audioOption = None, videoOption = None\<rparr>")
  case (Inr n)
  obtain m1 e1 where v: "configureVideo configure (Some worker_video) (Some 90) n = (m1, e1)" by fastforce
  obtain m2 e2 where u: "configureAudio configure (Some worker_audio) m1 = (m2, e2)" by fastforce
  have "m = m2" using assms Inr v u by (simp add: worker_setup_def split: option.splits)
  then show ?thesis using that [OF Inr] v u by simp
qed (use assms in \<open>simp add: worker_setup_def\<close>)

lemma setup_succeeds: "\<exists>m. worker_setup (\<lambda>_. None) = Listening m"
  by (simp add: worker_setup_def new_FlvMuxer_def configureVideo_def configureAudio_def new_VideoEncoderTrack_def
      new_AudioEncoderTrack_def new_BaseEncoderTrack_def initEncoder_def)

lemma setup_reachable: "worker_setup configure = Listening m \<Longrightarrow> reachable m"
  by (metis setup_listening reach_step reach_new)

lemma app_muxer_reachable: "app_reach a \<Longrightarrow> worker_of a = Listening m \<Longrightarrow> reachable m"
proof (induction arbitrary: m rule: app_reach.induct)
  case (app_worker a ok configure)
  then show ?case
    by (auto simp: worker_resume_def setup_reachable split: worker.splits if_splits)
next
  case (app_deliver a refused)
  then show ?case
    by (auto simp: deliver_def worker_onmessage_def intro!: reach_step split: list.splits worker.splits)
qed (auto simp: new_rec_app_def muxer_moves_def simp del: mux_do.simps intro!: reach_step split: worker.splits)

text \<open>
  C17. Whatever the page posts and however its messages, the encoders, the pipe and the promises
  interleave, the server only ever receives whole FLV headers and whole FLV tags.
\<close>

theorem server_receives_whole_tags:
  assumes "app_reach a" and "worker_of a = Listening m"
  shows "\<forall>x \<in> set (written_out m). (\<exists>v au. x = Some (flv_header_bytes v au)) \<or> (\<exists>ty ts body. x = Some (flv_tag_bytes ty ts body))"
  using reachable_ok [OF app_muxer_reachable [OF assms]] by (simp add: sys_ok_def whole_item_def)

theorem server_receives_whole_tags_witness:
  "\<exists>m. worker_of (deliver None (muxer_moves (PromiseSettled 0 True)
      \<lparr>page_of = startRecording new_rec_page, worker_of = worker_setup (\<lambda>_. None)\<rparr>)) = Listening m \<and> None \<notin> set (written_out m)"
proof -
  let ?a0 = "new_rec_app\<lparr>page_of := startRecording (page_of new_rec_app)\<rparr>"
  let ?a1 = "?a0\<lparr>worker_of := worker_resume True (\<lambda>_. None) (worker_of ?a0)\<rparr>"
  let ?a2 = "?a1\<lparr>worker_of := worker_resume True (\<lambda>_. None) (worker_of ?a1)\<rparr>"
  let ?a = "deliver None (muxer_moves (PromiseSettled 0 True) ?a2)"
  have a: "app_reach ?a" by (intro app_new app_start app_worker app_promise app_deliver)
  have eq: "?a2 = \<lparr>page_of = startRecording new_rec_page, worker_of = worker_setup (\<lambda>_. None)\<rparr>"
    by (simp add: worker_resume_def new_rec_app_def)
  obtain m where "worker_setup (\<lambda>_. None) = Listening m" using setup_succeeds by blast
  then obtain m' where m': "worker_of ?a = Listening m'"
    unfolding eq by (simp add: deliver_def muxer_moves_def startRecording_def post_def page_await_def new_rec_page_def worker_onmessage_def)
  show ?thesis
    using server_receives_whole_tags [OF a m'] m' unfolding eq by blast
qed

subsection \<open>What the page saves\<close>

definition silent_page :: "rec_page \<Rightarrow> bool" where
  "silent_page p \<longleftrightarrow> recordingChunks p = [] \<and> fromWorker p = [] \<and> (\<forall>f \<in> set (savedFiles p). f = []) \<and>
     (\<forall>t \<in> set (pageTasks p). t \<noteq> AwaitDisplay \<longrightarrow> t \<in> {AwaitPicker, AwaitWritable, AwaitWrite [], AwaitClose []})"

lemmas page_ops_defs = new_rec_page_def startRecording_def pauseRecording_def resumeRecording_def stopRecording_def
  page_frame_def page_onmessage_def save_failed_def post_def page_await_def Let_def

lemma silent_resume:
  "silent_page p \<Longrightarrow> t \<in> {AwaitDisplay, AwaitPicker, AwaitWritable, AwaitWrite [], AwaitClose []} \<Longrightarrow> silent_page (page_resume t out p)"
  by (induction t out p rule: page_resume.induct) (auto simp: silent_page_def page_await_def save_failed_def)

lemma silent_settles:
  assumes "silent_page p" and "i < length (pageTasks p)"
  shows "silent_page (page_settles i out p)"
proof -
  have "pageTasks p ! i \<in> {AwaitDisplay, AwaitPicker, AwaitWritable, AwaitWrite [], AwaitClose []}"
    using assms nth_mem [OF assms(2)] by (auto simp: silent_page_def)
  moreover have "silent_page (p\<lparr>pageTasks := remove_nth i (pageTasks p)\<rparr>)"
    using assms(1) by (auto simp: silent_page_def remove_nth_def dest: in_set_takeD in_set_dropD)
  ultimately show ?thesis unfolding page_settles_def by (intro silent_resume)
qed

text \<open>
  The page saves empty files. The worker sends what the muxer writes to the server and posts nothing
  to the page, so that \<open>recordingChunks\<close> stays empty and every file \<open>stopRecording\<close> has saved, in
  whatever run, has no bytes.
\<close>

theorem saved_files_are_empty:
  assumes "app_reach a"
  shows "recordingChunks (page_of a) = [] \<and> (\<forall>f \<in> set (savedFiles (page_of a)). f = [])"
proof -
  have "silent_page (page_of a)" using assms
  proof induction
    case (app_deliver a refused)
    then show ?case by (auto simp: deliver_def silent_page_def split: list.split)
  next
    case (app_settles a i out)
    then show ?case by (simp add: silent_settles)
  next
    case (app_encoder a ev)
    then show ?case by (simp add: muxer_moves_def split: worker.split)
  next
    case (app_promise a i ok)
    then show ?case by (simp add: muxer_moves_def split: worker.split)
  qed (auto simp: new_rec_app_def silent_page_def page_ops_defs split: option.split list.split)
  then show ?thesis by (simp add: silent_page_def)
qed

theorem saved_files_are_empty_witness:
  "savedFiles (page_settles 0 Done (page_settles 0 Done (page_settles 0 Done (page_settles 0 Done
     (stopRecording (page_settles 0 (Captured (4, [VideoTrack])) (startRecording new_rec_page))))))) = [[]]"
proof -
  let ?s = "\<lambda>out a. a\<lparr>page_of := page_settles 0 out (page_of a)\<rparr>"
  let ?a = "(?s (Captured (4, [VideoTrack])) (new_rec_app\<lparr>page_of := startRecording (page_of new_rec_app)\<rparr>))"
  let ?b = "?s Done (?s Done (?s Done (?s Done (?a\<lparr>page_of := stopRecording (page_of ?a)\<rparr>))))"
  note defs = page_ops_defs page_settles_def remove_nth_def new_rec_app_def
  have "app_reach ?a" by (rule app_settles [OF app_start [OF app_new]]) (simp add: defs)
  then have 1: "app_reach (?s Done (?a\<lparr>page_of := stopRecording (page_of ?a)\<rparr>))"
    by (rule app_settles [OF app_stop]) (simp add: defs)
  have 2: "app_reach (?s Done (?s Done (?a\<lparr>page_of := stopRecording (page_of ?a)\<rparr>)))"
    by (rule app_settles [OF 1]) (simp add: defs)
  have 3: "app_reach (?s Done (?s Done (?s Done (?a\<lparr>page_of := stopRecording (page_of ?a)\<rparr>))))"
    by (rule app_settles [OF 2]) (simp add: defs)
  have "app_reach ?b" by (rule app_settles [OF 3]) (simp add: defs)
  from saved_files_are_empty [OF this] have "\<forall>f \<in> set (savedFiles (page_of ?b)). f = []" by blast
  moreover have "length (savedFiles (page_of ?b)) = 1" by (simp add: defs)
  ultimately show ?thesis by (auto simp: new_rec_app_def length_Suc_conv)
qed

subsection \<open>Messages that come too early\<close>

lemma setup_inactive:
  assumes "worker_setup configure = Listening m"
  shows "procState (proc m) = Inactive" "written_out m = []" "closedFrames m = []"
proof -
  obtain n where n: "new_FlvMuxer True \<lparr>audioOption = None, videoOption = None\<rparr> = Inr n"
    and m: "m = mux_do (ConfigureAudio configure (Some worker_audio)) (mux_do (ConfigureVideo configure (Some worker_video) (Some 90)) n)"
    using setup_listening [OF assms] by blast
  have k: "procState (proc (mux_do ev w)) = procState (proc w) \<and> written_out (mux_do ev w) = written_out w \<and> closedFrames (mux_do ev w) = closedFrames w"
    if "ev = ConfigureAudio f c \<or> ev = ConfigureVideo f d i" for ev w f c d i
    using that by (auto simp: configureAudio_def configureVideo_def addAudioTrack_def addVideoTrack_def Let_def split: option.split sum.split)
  have "procState (proc n) = Inactive \<and> written_out n = [] \<and> closedFrames n = []"
    using n by (auto simp: new_FlvMuxer_def new_StreamProcessor_def)
  then show "procState (proc m) = Inactive" "written_out m = []" "closedFrames m = []" unfolding m using k by metis+
qed

lemma idle_frames:
  assumes "procState (proc m) \<noteq> Recording" and "\<forall>msg \<in> set msgs. \<exists>f. msg = DATA_VIDEO f \<or> msg = DATA_AUDIO f"
  shows "\<exists>m'. fold (\<lambda>msg. worker_onmessage msg None) msgs (Listening m) = Listening m' \<and> proc m' = proc m \<and>
    written_out m' = written_out m \<and> length (closedFrames m') = length (closedFrames m) + length msgs"
  using assms
proof (induction msgs arbitrary: m)
  case (Cons msg msgs)
  obtain m1 where m1: "worker_onmessage msg None (Listening m) = Listening m1" "proc m1 = proc m" "written_out m1 = written_out m"
    "length (closedFrames m1) = Suc (length (closedFrames m))"
    using Cons.prems by (auto simp: worker_onmessage_def worker_call_def mux_addRawChunk_def processor_addTrackChunk_def)
  obtain m' where "fold (\<lambda>msg. worker_onmessage msg None) msgs (Listening m1) = Listening m'" "proc m' = proc m1"
    "written_out m' = written_out m1" "length (closedFrames m') = length (closedFrames m1) + length msgs"
    using Cons.IH [of m1] Cons.prems m1(2) by auto
  then show ?case using m1 by (intro exI [of _ m']) simp
qed simp

text \<open>
  A recording that is started before the connection is ready is lost. The worker listens to messages
  only after the connection and its stream are there: a \<open>START\<close> before that has no effect, and the
  frames that follow once it listens are all closed and dropped, with nothing sent and no error.
\<close>

theorem early_start_is_lost:
  assumes "w = AwaitReady \<or> w = AwaitStream" and "worker_setup configure = Listening m"
    and "\<forall>msg \<in> set msgs. \<exists>f. msg = DATA_VIDEO f \<or> msg = DATA_AUDIO f"
  shows "worker_onmessage START None w = w \<and>
    (\<exists>m'. fold (\<lambda>msg. worker_onmessage msg None) msgs (Listening m) = Listening m' \<and> procState (proc m') = Inactive \<and>
       written_out m' = [] \<and> length (closedFrames m') = length msgs)"
proof -
  have "worker_onmessage START None w = w" using assms(1) by (auto simp: worker_onmessage_def)
  moreover have "procState (proc m) \<noteq> Recording" using setup_inactive(1) [OF assms(2)] by simp
  ultimately show ?thesis using idle_frames [OF _ assms(3), of m] setup_inactive [OF assms(2)] by auto
qed

theorem early_start_is_lost_witness:
  "\<exists>m m'. worker_setup (\<lambda>_. None) = Listening m \<and>
     worker_onmessage (DATA_AUDIO 2) None (worker_onmessage (DATA_VIDEO 1) None (Listening m)) = Listening m' \<and> length (closedFrames m') = 2"
proof -
  obtain m where m: "worker_setup (\<lambda>_. None) = Listening m" using setup_succeeds by blast
  show ?thesis using early_start_is_lost [of AwaitReady, OF _ m, of "[DATA_VIDEO 1, DATA_AUDIO 2]"] m by auto
qed

end
