(* ===== verification/Spec2Isabelle.thy ===== *)
theory Spec2Isabelle
  imports Recording_Server Node_Selection Pan_Zoom Page_Menus Batch_Session Recording_Page
begin

text \<open>
  The web clients of Monibuca, a streaming server.

  \<^bold>\<open>The program.\<close> The repository's own JavaScript is four programs that run in a browser:
  \<^item> the FLV recorder of \<open>plugin/webtransport/web\<close>: \<open>flv-muxer.iife.js\<close> encodes camera or screen
    into an FLV stream; \<open>worker.js\<close> runs it against a connection to the server and \<open>example.js\<close> is the
    page that captures the screen and talks to the worker;
  \<^item> the WebRTC client \<open>BatchV2Client\<close> of \<open>plugin/webrtc/web\<close> (\<open>BatchV2Client.js\<close>, compiled from
    \<open>BatchV2Client.ts\<close>), which publishes and subscribes to streams over one peer connection; the handler
    of the Go server that answers it (\<open>plugin/webrtc/batchv2.go\<close>) is modelled too, as its counterpart, and
    so is the Go code that reads what the recorder sends (\<open>plugin/flv/pkg\<close>, \<open>plugin/rtmp/pkg/amf.go\<close>);
  \<^item> the flame graph of the profiler in \<open>plugin/debug/pkg/internal/driver/html/stacks.js\<close>;
  \<^item> the page it lives in, \<open>common.js\<close> beside it: node selection, links, pan and zoom, menus, dialogs.

  \<^bold>\<open>The recorder.\<close> Bytes flow through the theories in the order of the code.
  \<open>Js_Number\<close> and \<open>Js_String\<close> hold what the sources use of the language: numbers with IEEE rounding
  where bytes depend on it (\<open>f64\<close>), \<open>ToInt32\<close>-like conversions, UTF-16 strings and \<open>TextEncoder\<close>.
  \<open>Binary_Writer\<close> is the class \<open>BinaryWriter\<close> with its growing buffer and its position;
  \<open>writer_refines_byte_list\<close> shows that it implements a list of bytes, \<open>writer_capacity_bound\<close> how far
  it grows. \<open>Script_Encoder\<close> is \<open>ScriptEncoder\<close> (AMF0) with a reader as the inverse
  (\<open>amf_roundtrip\<close>). \<open>Flv_Encoder\<close> is \<open>FlvEncoder\<close>: header, audio, video and script tags, read back
  by \<open>read_flv\<close>, with the wrap-around of the 24-bit fields. \<open>Event_Bus\<close> is \<open>Logger\<close> and \<open>EventBus\<close>;
  its locale \<open>subscription_table\<close> is the contract of \<open>on\<close> and \<open>off\<close>, which the listeners of
  \<open>BatchV2Client\<close> satisfy as well. \<open>Encoder_Track\<close> is \<open>TrackState\<close> and the encoder tracks,
  \<open>Stream_Processor\<close> the interleaving of the two tracks and the asynchronous state machine of
  recording, \<open>Quiet_Control\<close> what pausing and feeding leave alone (a simulation by the locale
  \<open>track_simulation\<close>), \<open>Flv_Muxer\<close> the muxer with its streams and the bus between its parts, \<open>Recording_Calls\<close> a
  recording from its start to the end of the file after its stop. \<open>Recording_Page\<close>
  composes page, worker and muxer.
  \<open>Amf_Reader\<close> and \<open>Flv_Server\<close> are the other end: the server's AMF0 decoder, its FLV writer, which
  writes the same bytes as the client's, and \<open>Puller.Run\<close>, which reads the recorder's stream. Both readers are
  shown to end on every input. \<open>Recording_Server\<close> lets the server read a recording. The theorems below put the
  whole path together: what is written is an FLV file whose tags are in order and are what the encoders
  delivered, also when the recording is paused, and the server publishes just that.

  \<^bold>\<open>The WebRTC client.\<close> \<open>Batch_Client\<close> has the fields of the class and every method, cut at each
  \<open>await\<close>: a pending \<open>await\<close> is a task, \<open>resume\<close> runs the method on when the browser settles the promise.
  \<open>Batch_Calls\<close> follows a call from its start to its end: each call settles exactly once after at most five
  answers, a subscription exchanges exactly the difference with the server, stopping undoes publishing;
  and what overlapping calls do. \<open>Batch_Steps\<close> is the set of reachable states, with every call, event and
  settled promise in any order, and its invariant. \<open>Batch_Server\<close> is the server's handler, one definition
  per message. \<open>Batch_Session\<close> composes the two: an abstract set of streams that each message changes, the
  handler as its implementation, and the agreement of client and server up to the messages under way.

  \<^bold>\<open>The profiler's pages.\<close> \<open>Flame_Graph\<close> is the layout of \<open>stacks.js\<close>: totals, grouping, the recursion
  of \<open>renderStacks\<close> and \<open>renderGroup\<close>, display, texts that fit. Boxes never overlap and stay in their parents,
  and the recursion ends with the longest stack. \<open>Profile_Text\<close> is the texts of values and
  \<open>Page_Url\<close> URL parameters and \<open>pprofQuoteMeta\<close>. \<open>Stack_Viewer\<close> is the page state of \<open>stacks.js\<close> with its
  listeners. \<open>Node_Selection\<close> is the function \<open>viewer\<close> of \<open>common.js\<close>; what it needs of a page is the
  locale \<open>page_contract\<close>, interpreted by the graph and table pages (\<open>dom_page\<close>) and by the flame graph
  (\<open>flame_page\<close>). \<open>Pan_Zoom\<close> is \<open>initPanAndZoom\<close> and \<open>Page_Menus\<close> is \<open>initMenus\<close> and \<open>initConfigManager\<close>.

  \<^bold>\<open>Conventions.\<close> Objects are records, exceptions are values, an operation returns the new state. An
  asynchronous function is a step up to its \<open>await\<close> and further steps from there; properties about any
  order of events are inductions over a step relation or an inductive set of reachable states
  (\<open>reachable\<close>, \<open>sequential_run\<close>, \<open>reachable_client\<close>, \<open>session\<close>, \<open>app_reach\<close>, \<open>sel_reach\<close>, \<open>view_reach\<close>, \<open>pz_reach\<close>).
  Recursions end by measures, not by fuel, with a few exceptions: handlers on the bus run with a call depth
  of 2, which is enough because the inner event's handler emits nothing, and \<open>finish\<close> takes a list of the
  browser's answers, of which five are proved to be enough. The server's decoder takes \<open>2 n + 1\<close> units for \<open>n\<close> bytes,
  with a proof that it never runs out; the number of tags that \<open>pull\<close> is given is when its task is stopped. The prelude collects what all theories share.

  \<^bold>\<open>Assumptions.\<close> There is one muxer, each kind of track is configured once, and Web Streams are FIFO
  lists. WebCodecs encoders, sockets, peer connections, file pickers and timers are the environment: what
  they do are arguments or events. Regular expressions, text widths and the transformation of screen to
  SVG coordinates are parameters. Pixels and time stamps are exact numbers, and counters stay below
  \<open>2 ^ 53\<close>. Where a number would be \<open>NaN\<close> (a total of 0, a scale by 0) the model has no result.
  Listeners of \<open>BatchV2Client\<close> neither throw nor call the client. On the server the peer connection and the
  media server are parameters, and a subscriber's task ends in an event of its own. A session assumes what
  WebRTC documents of an answer (\<open>cooperative\<close>), calls one after the other, and a handler that takes a
  message when the tasks it stopped have ended; without the last, subscriptions are lost
  (\<open>resubscription_while_stopping_is_lost\<close>).

  \<^bold>\<open>Not modelled.\<close> \<open>svgpan.js\<close> and the preview player's bundles are third-party or generated; the
  AES samples only call a library; the scripts under \<open>test\<close> are tests; the server is written in Go; only the handler
  of the batch protocol is modelled, without its callbacks and the sending of packets, and the reading of what
  the recorder sends, without what the publisher makes of a frame.
  Console output, focus and styling other than the classes that show the selection are left out.
\<close>

section \<open>Properties that span components\<close>

lemma js_trunc_mono: "x \<le> y \<Longrightarrow> js_trunc x \<le> js_trunc y"
proof -
  assume le: "x \<le> y"
  have "\<lceil>x\<rceil> \<le> \<lfloor>y\<rfloor>" if "x < 0" "0 \<le> y"
  proof -
    have "\<lceil>x\<rceil> \<le> 0" "0 \<le> \<lfloor>y\<rfloor>" using that by simp_all
    then show ?thesis by linarith
  qed
  then show ?thesis using le by (auto simp: js_trunc_def floor_mono ceiling_mono)
qed

lemma js_trunc_nonneg: "0 \<le> x \<Longrightarrow> 0 \<le> js_trunc x"
  by (simp add: js_trunc_def)

lemma chunk_tag_time:
  assumes "0 \<le> timestamp c" "timestamp c < 2 ^ 32"
  shows "tagTime (chunk_tag c) = nat (js_trunc (chunk_time c))"
proof -
  have "0 \<le> chunk_time c" "chunk_time c < 2 ^ 32"
    using assms by (simp_all add: chunk_time_def split: chunk_type.split)
  then have "0 \<le> js_trunc (chunk_time c)" "js_trunc (chunk_time c) < 2 ^ 32"
    by (simp_all add: js_trunc_def floor_less_iff)
  then show ?thesis by (simp add: chunk_tag_def)
qed

text \<open>Configuration chunks are stamped 0 when they are made, so every tag carries its chunk's time.\<close>

lemma chunk_time_stamped: "stamped c \<Longrightarrow> chunk_time c = timestamp c"
  by (auto simp: stamped_def chunk_time_def split: chunk_type.splits)

definition all_stamped :: "'cfg processor \<times> chunk list \<Rightarrow> bool" where
  "all_stamped w \<longleftrightarrow> (\<forall>c \<in> set (queued (fst w)) \<union> set (snd w). stamped c)"

lemma handle_stamped:
  assumes "\<forall>c \<in> set (queued p). stamped c" "stamped d"
  shows "\<forall>c \<in> set (queued (fst (handleTrackChunk d p))) \<union> set (snd (handleTrackChunk d p)). stamped c"
proof -
  have "set (snd (handleTrackChunk d p)) \<union> set (queued (fst (handleTrackChunk d p))) = insert d (set (queued p))"
    using handleTrackChunk_mset [of d p] by (metis set_mset_mset set_mset_union set_mset_add_mset_insert)
  then show ?thesis using assms by auto
qed

lemma queued_upd_track: "(\<And>t. queue (f t) = queue t) \<Longrightarrow> queued (upd_track k f p) = queued p"
  by (cases k; cases "audioEncoderTrack p"; cases "videoEncoderTrack p")
    (simp_all add: queued_def upd_track_def)

lemma queued_shared: "queued (p\<lparr>sharedState := s\<rparr>) = queued p"
  by (simp add: queued_def)

lemma output_stamped: "all_stamped w \<Longrightarrow> all_stamped (handleOutput (direct_env k) ec desc w)"
proof (rule handleOutput_keeps [of all_stamped])
  show "all_stamped v \<Longrightarrow> stamped c \<Longrightarrow> all_stamped (emitTrackChunk (direct_env k) c v)" for c v
    using handle_stamped [of "fst v" c] by (cases v) (auto simp: all_stamped_def)
qed (auto simp: all_stamped_def split_paired_all queued_upd_track queued_shared)

lemma run_stamped:
  assumes "queued p = []" and "run_outputs xs p = (q, pub)"
  shows "\<forall>c \<in> set pub. stamped c"
proof -
  have "all_stamped (run_outputs xs p)"
  proof (induction xs rule: rev_induct)
    case Nil
    then show ?case using assms(1) by (simp add: run_outputs_def all_stamped_def)
  next
    case (snoc x xs)
    obtain k ec desc where x: "x = (k, ec, desc)" by (metis prod_cases3)
    obtain p' pub' where r: "run_outputs xs p = (p', pub')" by fastforce
    have "all_stamped (p', [])" using snoc r by (simp add: all_stamped_def)
    then have "all_stamped (processor_output k ec desc p')"
      by (simp add: processor_output_def output_stamped split: option.split)
    then show ?case using snoc r by (auto simp: x run_outputs_snoc all_stamped_def split_beta)
  qed
  then show ?thesis using assms(2) by (simp add: all_stamped_def)
qed

lemma sorted_tags:
  assumes "sorted (map timestamp pub)" and "\<forall>c \<in> set pub. stamped c \<and> 0 \<le> timestamp c \<and> timestamp c < 2 ^ 32"
  shows "sorted (map (tagTime \<circ> chunk_tag) pub)"
proof -
  have eq: "map (tagTime \<circ> chunk_tag) pub = map (\<lambda>c. nat (js_trunc (timestamp c))) pub"
    using assms(2) by (simp add: chunk_tag_time chunk_time_stamped)
  have "sorted_wrt (\<lambda>c d. timestamp c \<le> timestamp d) pub" using assms(1) by (simp add: sorted_map)
  then have "sorted_wrt (\<lambda>c d. nat (js_trunc (timestamp c)) \<le> nat (js_trunc (timestamp d))) pub"
    by (rule sorted_wrt_mono_rel [rotated]) (simp add: js_trunc_mono nat_mono)
  then show ?thesis unfolding eq by (simp add: sorted_map)
qed

lemma stream_times:
  assumes "fresh_track AudioTrack (proc w)" and "fresh_track VideoTrack (proc w)"
    and "ordered_lane AudioTrack xs" and "ordered_lane VideoTrack xs"
    and r: "run_outputs xs (start_processor (proc w)) = (q, pub)"
    and "\<forall>c \<in> set pub. timestamp c < 2 ^ 32"
  shows "\<forall>c \<in> set pub. chunk_time c = timestamp c" "sorted (map (js_trunc \<circ> timestamp) pub)" "\<forall>c \<in> set pub. 0 \<le> timestamp c"
proof -
  let ?p = "start_processor (proc w)"
  have fresh: "fresh_track k ?p = fresh_track k (proc w)" for k
    by (cases k; simp add: start_processor_def fresh_track_def ready_of_def track_of_def)
  have "queued ?p = []" using fresh [of AudioTrack] fresh [of VideoTrack] assms(1,2) by (auto simp: fresh_track_def track_of_def queued_def)
  then show "\<forall>c \<in> set pub. chunk_time c = timestamp c" using run_stamped [OF _ r] chunk_time_stamped by blast
  have o: "ordered_lane k xs" for k using assms(3,4) by (cases k) auto
  have "recording_inv AudioTrack q pub (received xs (sharedState ?p))"
    using run_outputs_inv [of ?p xs AudioTrack] fresh assms(1,2) o r by simp
  then have n: "sorted (map timestamp pub)" "\<forall>c \<in> set pub. 0 \<le> timestamp c"
    by (auto simp: recording_inv_def published_ok_def Let_def)
  show "\<forall>c \<in> set pub. 0 \<le> timestamp c" by (rule n(2))
  have "sorted_wrt (\<lambda>c d. timestamp c \<le> timestamp d) pub" using n(1) by (simp add: sorted_map)
  then have "sorted_wrt (\<lambda>c d. js_trunc (timestamp c) \<le> js_trunc (timestamp d)) pub"
    by (rule sorted_wrt_mono_rel [rotated]) (simp add: js_trunc_mono)
  then show "sorted (map (js_trunc \<circ> timestamp) pub)" by (simp add: sorted_map)
qed

lemma stream_plays_in_order:
  assumes "fresh_track AudioTrack (proc w)" and "fresh_track VideoTrack (proc w)"
    and "ordered_lane AudioTrack xs" and "ordered_lane VideoTrack xs"
    and r: "run_outputs xs (start_processor (proc w)) = (q, pub)"
    and "\<forall>c \<in> set pub. timestamp c < 2 ^ 32"
  shows "sorted (map (tagTime \<circ> chunk_tag) pub)"
    and "\<exists>held. of_type (media_type k) pub @ held = of_type (media_type k) (received xs (sharedState (proc w)))"
proof -
  let ?p = "start_processor (proc w)"
  have p: "fresh_track k ?p = fresh_track k (proc w)" "sharedState ?p = sharedState (proc w)" for k
    by (cases k; simp add: start_processor_def fresh_track_def ready_of_def track_of_def)+
  have fresh: "fresh_track AudioTrack ?p" "fresh_track VideoTrack ?p" using assms(1,2) p(1) by simp_all
  have o: "ordered_lane k xs" for k using assms(3,4) by (cases k) auto
  have inv: "recording_inv k q pub (received xs (sharedState ?p))" for k
    using run_outputs_inv [OF fresh o, of k] r by simp
  have nonneg: "sorted (map timestamp pub)" "\<forall>c \<in> set pub. 0 \<le> timestamp c"
    using inv [of AudioTrack] by (auto simp: recording_inv_def published_ok_def Let_def)
  have "queued ?p = []"
    using fresh by (auto simp: fresh_track_def track_of_def queued_def)
  then show "sorted (map (tagTime \<circ> chunk_tag) pub)"
    using sorted_tags [OF nonneg(1)] run_stamped [OF _ r] nonneg(2) assms(6) by simp
  show "\<exists>held. of_type (media_type k) pub @ held = of_type (media_type k) (received xs (sharedState (proc w)))"
    using inv [of k] p(2) unfolding recording_inv_def Let_def by metis
qed

text \<open>
  The file of a recording plays in order. For a new recording with an audio and a video
  track whose encoders deliver in order, in whatever interleaving and with whatever progress of
  the pipe, the FLV stream that is written reads back as header, metadata and a list of tags
  whose times never decrease, and the audio tags and the video tags among them are, up to the
  chunks still held back at the end, exactly what the encoders delivered, in their order (for
  recordings shorter than \<open>2 ^ 32\<close> ms with chunks below 16 MiB).
\<close>

theorem recorded_file_plays_in_order:
  assumes "idle w" and "fresh_track AudioTrack (proc w)" and "fresh_track VideoTrack (proc w)"
    and "mux_start w = (w1, None)" and "metadata_fits (options w)"
    and "ordered_lane AudioTrack (outputs_of evs)" and "ordered_lane VideoTrack (outputs_of evs)"
    and "run_outputs (outputs_of evs) (start_processor (proc w)) = (q, pub)"
    and "\<forall>c \<in> set pub. length (chunkData c) + 5 < 2 ^ 24 \<and> timestamp c < 2 ^ 32"
  shows "\<exists>n flags t. read_flv (concat (map the (drop (length (written_out w))
        (written_out ((pump ^^ n) (fold record_step evs w1)))))) = Some (flags, t # map chunk_tag pub)
    \<and> sorted (map (tagTime \<circ> chunk_tag) pub)
    \<and> (\<forall>k. \<exists>held. of_type (media_type k) pub @ held
          = of_type (media_type k) (received (outputs_of evs) (sharedState (proc w))))"
proof -
  have s: "\<forall>c \<in> set pub. timestamp c < 2 ^ 32" "\<forall>c \<in> set pub. length (chunkData c) + 5 < 2 ^ 24" using assms(9) by blast+
  show ?thesis
    using read_back_lemma [OF assms(1,4,8) refl order_refl assms(5) s(2)] stream_plays_in_order [OF assms(2,3,6,7,8) s(1)] by blast
qed

text \<open>
  C2. The file of a recording plays in order, also when it is paused. For a new recording with an audio and a video
  track whose encoders deliver in order, in whatever interleaving, with whatever progress of
  the pipe, and with pauses, resumptions, raw frames and settled promises in between in any order: the FLV stream
  that is written reads back as header, metadata and a list of tags
  whose times never decrease, and the audio tags and the video tags among them are, up to the
  chunks still held back at the end, exactly what the encoders delivered, in their order (for
  recordings shorter than \<open>2 ^ 32\<close> ms with chunks below 16 MiB).
\<close>

theorem paused_recording_plays_in_order:
  assumes "idle w" and "fresh_track AudioTrack (proc w)" and "fresh_track VideoTrack (proc w)" and "only_pauses (proc w)"
    and "mux_start w = (w1, None)" and "metadata_fits (options w)" and "list_all recording_call evs"
    and "ordered_lane AudioTrack (delivered evs)" and "ordered_lane VideoTrack (delivered evs)"
    and "run_outputs (delivered evs) (start_processor (proc w)) = (q, pub)"
    and "\<forall>c \<in> set pub. length (chunkData c) + 5 < 2 ^ 24 \<and> timestamp c < 2 ^ 32"
  shows "\<exists>n flags t. read_flv (concat (map the (drop (length (written_out w))
        (written_out ((pump ^^ n) (fold mux_do evs w1)))))) = Some (flags, t # map chunk_tag pub)
    \<and> sorted (map (tagTime \<circ> chunk_tag) pub)
    \<and> (\<forall>k. \<exists>held. of_type (media_type k) pub @ held
          = of_type (media_type k) (received (delivered evs) (sharedState (proc w))))"
proof -
  have s: "\<forall>c \<in> set pub. timestamp c < 2 ^ 32" "\<forall>c \<in> set pub. length (chunkData c) + 5 < 2 ^ 24" using assms(11) by blast+
  note run = recording_calls_run [OF start_recording [OF assms(1,5)] start_only_pauses [OF assms(5,4)] assms(7), unfolded append_Nil]
  show ?thesis
    using read_back_stream [OF run assms(10) refl order_refl assms(6) s(2)] stream_plays_in_order [OF assms(2,3,8-10) s(1)] by blast
qed

definition demo_video :: video_config where
  "demo_video = \<lparr>width = JNumber 0, height = JNumber 0, framerate = JUndefined\<rparr>"

definition demo_av :: sys where
  "demo_av = fst (configureVideo (\<lambda>_. None) (Some demo_video) (Some 60) demo_sys)"

definition demo_av_events :: "recording_event list" where
  "demo_av_events =
     [Output VideoTrack \<lparr>ecTimestamp = 1000, ecKey = True, ecCopy = Inr [1]\<rparr> (Some [7]), Pump,
      Output AudioTrack \<lparr>ecTimestamp = 1000, ecKey = True, ecCopy = Inr [3]\<rparr> (Some [8])]"

lemma demo_av_eq: "demo_av = demo_sys\<lparr>options := \<lparr>audioOption = Some demo_audio, videoOption = Some demo_video\<rparr>,
    proc := (proc demo_sys)\<lparr>videoEncoderTrack := Some \<lparr>kind = VideoTrack, config = VideoConfig demo_video,
      queue = [], encoder = Some [Configure (VideoConfig demo_video)], lastTimestamp = 0,
      decoderConfig = None, frameCount = 0, keyframeInterval = Some 60\<rparr>\<rparr>\<rparr>"
  by (simp add: demo_av_def demo_sys_eq configureVideo_def new_VideoEncoderTrack_def
      new_BaseEncoderTrack_def initEncoder_def addVideoTrack_def)

lemma demo_av_ready:
  "idle demo_av" "fresh_track AudioTrack (proc demo_av)" "fresh_track VideoTrack (proc demo_av)"
  "\<exists>w1. mux_start demo_av = (w1, None)"
  "ordered_lane AudioTrack (outputs_of demo_av_events)" "ordered_lane VideoTrack (outputs_of demo_av_events)"
proof -
  show "idle demo_av" using idle_demo by (simp add: demo_av_eq idle_def)
  show "fresh_track AudioTrack (proc demo_av)" "fresh_track VideoTrack (proc demo_av)"
    by (simp_all add: demo_av_eq demo_sys_eq fresh_track_def lane_accessors new_StreamProcessor_def)
  show "\<exists>w1. mux_start demo_av = (w1, None)"
    by (simp add: mux_start_def initSourceStream_def initMuxStream_def demo_av_eq demo_sys_eq Let_def split_beta)
  show "ordered_lane AudioTrack (outputs_of demo_av_events)" "ordered_lane VideoTrack (outputs_of demo_av_events)"
    by (simp_all add: ordered_lane_def demo_av_events_def outputs_of_def raw_times_def)
qed

lemma metadata_av: "metadata_fits (options demo_av)"
proof -
  have t: "length (text_encode (js_of_ascii s)) \<le> 3 * length s" for s
    using length_text_encode [of "js_of_ascii s"] by simp
  have "short_text (js_of_ascii s)" if "length s < 1000" for s
    using t [of s] that by (simp add: short_text_def)
  moreover have "length (amf_text (js_of_ascii s)) \<le> 2 + 3 * length s" for s
    using t [of s] by (simp add: amf_text_def)
  note this [of "''duration''"] this [of "''encoder''"] this [of "''flv-muxer.js''"]
    this [of "''audiocodecid''"] this [of "''audiodatarate''"] this [of "''stereo''"]
    this [of "''audiosamplerate''"] this [of "''videocodecid''"] this [of "''width''"] this [of "''height''"]
    this [of "''framerate''"]
  ultimately show ?thesis
    by (simp add: metadata_fits_def metadata_of_def demo_av_eq demo_audio_def demo_video_def)
qed

lemma demo_av_published:
  "snd (run_outputs (outputs_of demo_av_events) (start_processor (proc demo_av))) =
     [se_chunk VideoTrack [7], se_chunk AudioTrack [8],
      \<lparr>chunkType = AVC_NALU, chunkData = [1], timestamp = 0, isKey = True\<rparr>,
      \<lparr>chunkType = AAC_RAW, chunkData = [3], timestamp = 0, isKey = True\<rparr>]"
  by (simp add: demo_av_events_def outputs_of_def run_outputs_def step_output_def processor_output_def
      demo_sys_eq demo_av_eq track_of_def handleOutput_def set_decoderConfig_def start_processor_def
      new_StreamProcessor_def upd_track_def handleTrackChunk_def publishChunk_def calculateTimestamp_eq
      new_TrackState_def media_type_def Let_def se_chunk_def setAudioConfigReady_def setVideoConfigReady_def
      processVideoChunk_def processAudioChunk_def enqueue_def drain_eq)

theorem recorded_file_plays_in_order_witness:
  "\<exists>w1 n flags t tags. mux_start demo_av = (w1, None) \<and> length tags = 4 \<and> sorted (map tagTime tags) \<and>
     read_flv (concat (map the (written_out ((pump ^^ n) (fold record_step demo_av_events w1)))))
       = Some (flags, t # tags)"
proof -
  obtain w1 where w1: "mux_start demo_av = (w1, None)" using demo_av_ready(4) by blast
  let ?r = "run_outputs (outputs_of demo_av_events) (start_processor (proc demo_av))"
  have r: "?r = (fst ?r, snd ?r)" by simp
  have s: "\<forall>c \<in> set (snd ?r). length (chunkData c) + 5 < 2 ^ 24 \<and> timestamp c < 2 ^ 32"
    unfolding demo_av_published by (simp add: se_chunk_def)
  have "length (snd ?r) = 4" unfolding demo_av_published by simp
  moreover have "written_out demo_av = []" by (simp add: demo_av_eq demo_sys_eq)
  ultimately show ?thesis
    using recorded_file_plays_in_order [OF demo_av_ready(1-3) w1 metadata_av demo_av_ready(5,6) r s] w1
    by (metis drop0 length_map list.size(3) map_map)
qed

definition demo_paused_events :: "mux_event list" where
  "demo_paused_events =
     [Recording_event (Output VideoTrack \<lparr>ecTimestamp = 1000, ecKey = True, ecCopy = Inr [1]\<rparr> (Some [7])), PauseCall,
      PromiseSettled 0 True, Recording_event Pump, ResumeCall,
      Recording_event (Output AudioTrack \<lparr>ecTimestamp = 1000, ecKey = True, ecCopy = Inr [3]\<rparr> (Some [8]))]"

lemma demo_paused_ready:
  "list_all recording_call demo_paused_events" "delivered demo_paused_events = outputs_of demo_av_events" "only_pauses (proc demo_av)"
  by (simp_all add: demo_paused_events_def demo_av_events_def outputs_of_def map_filter_def only_pauses_def demo_av_eq demo_sys_eq new_StreamProcessor_def)

theorem paused_recording_plays_in_order_witness:
  "\<exists>w1 n flags t tags. mux_start demo_av = (w1, None) \<and> length tags = 4 \<and> sorted (map tagTime tags) \<and>
     read_flv (concat (map the (written_out ((pump ^^ n) (fold mux_do demo_paused_events w1)))))
       = Some (flags, t # tags)"
proof -
  obtain w1 where w1: "mux_start demo_av = (w1, None)" using demo_av_ready(4) by blast
  let ?r = "run_outputs (outputs_of demo_av_events) (start_processor (proc demo_av))"
  have r: "?r = (fst ?r, snd ?r)" by simp
  have s: "\<forall>c \<in> set (snd ?r). length (chunkData c) + 5 < 2 ^ 24 \<and> timestamp c < 2 ^ 32"
    unfolding demo_av_published by (simp add: se_chunk_def)
  have "length (snd ?r) = 4" unfolding demo_av_published by simp
  moreover have "written_out demo_av = []" by (simp add: demo_av_eq demo_sys_eq)
  ultimately show ?thesis
    using paused_recording_plays_in_order [OF demo_av_ready(1-3) demo_paused_ready(3) w1 metadata_av demo_paused_ready(1),
        unfolded demo_paused_ready(2), OF demo_av_ready(5,6) r s] w1
    by (metis drop0 length_map list.size(3) map_map)
qed

text \<open>
  C1. The server publishes what the encoders delivered. A new recording with ordered encoders, any calls, raw
  frames, progress of the pipe and late deliveries in any order, is stopped; the server's
  \<open>Puller\<close> reads what was written. It decodes the metadata, reads to the end of the stream without an error, and hands
  the publisher one frame per published chunk, of the kinds that are configured and wanted, with the body of the chunk's tag, at
  the chunk's time less the first time that is not 0; the times never decrease. The chunks of each kind are those the encoders delivered,
  in their order, up to those still held back at the stop.
\<close>

theorem server_publishes_the_recording:
  assumes "idle w" and "fresh_track AudioTrack (proc w)" and "fresh_track VideoTrack (proc w)" and "only_pauses (proc w)"
    and "mux_start w = (w1, None)" and "metadata_fits (options w)" and "clear_ends (JObject (metadata_of (options w)))"
    and "list_all recording_call evs" and "list_all recording_call late"
    and "ordered_lane AudioTrack (delivered evs)" and "ordered_lane VideoTrack (delivered evs)"
    and "run_outputs (delivered evs) (start_processor (proc w)) = (q, pub)" and "length pub < pumps late"
    and "\<forall>c \<in> set pub. length (chunkData c) + 5 < 2 ^ 24 \<and> timestamp c < 2 ^ 32"
    and "w3 = fold mux_do (StopCall # late) (fold mux_do evs w1)"
    and "\<And>f. sink f = None" and "length pub + 1 < n"
    and "frames = frames_from (wantAudio \<and> audioOption (options w) \<noteq> None) (wantVideo \<and> videoOption (options w) \<noteq> None)
      (start_time (map (js_trunc \<circ> timestamp) pub)) (map chunk_fields pub)"
  shows "pull sink same wantAudio wantVideo n (concat (map the (drop (length (written_out w)) (written_out w3)))) = (frames, EndOfStream) \<and>
    sorted (map (\<lambda>f. unat (avTime f)) frames) \<and>
    (\<forall>k. \<exists>held. of_type (media_type k) pub @ held = of_type (media_type k) (received (delivered evs) (sharedState (proc w))))"
proof -
  have s: "\<forall>c \<in> set pub. timestamp c < 2 ^ 32" "\<forall>c \<in> set pub. length (chunkData c) + 5 < 2 ^ 24" using assms(14) by blast+
  note plays = stream_plays_in_order [OF assms(2,3,10-12) s(1)] and t = stream_times [OF assms(2,3,10-12) s(1)]
  have e: "map (js_trunc \<circ> chunk_time) pub = map (js_trunc \<circ> timestamp) pub" using t(1) by simp
  note written = stopped_writes(3) [OF assms(1,4,5,8,9,12,13) refl assms(15)]
  have b: "\<forall>c \<in> set pub. 0 \<le> js_trunc (chunk_time c) \<and> js_trunc (chunk_time c) < 2 ^ 32"
    using t(1,3) s(1) js_trunc_nonneg by (auto simp: js_trunc_def floor_less_iff)
  have "sorted (map (js_trunc \<circ> chunk_time) pub)" using t(2) unfolding e .
  from server_pulls [OF written assms(6,7) s(2) assms(16,17) this b]
  have "pull sink same wantAudio wantVideo n (concat (map the (drop (length (written_out w)) (written_out w3)))) = (frames, EndOfStream)"
    unfolding e assms(18) .
  moreover have "sorted (map (\<lambda>f. unat (avTime f)) frames)"
    unfolding assms(18)
  proof (rule frames_in_order)
    have f: "times (map chunk_fields pub) = map (js_trunc \<circ> chunk_time) pub" by (simp add: times_def chunk_fields_def comp_def)
    show "sorted (times (map chunk_fields pub))" using t(2) unfolding f e .
    show "\<forall>t \<in> set (times (map chunk_fields pub)). t < 2 ^ 32" unfolding f using b by simp
    show "0 \<le> start_time (map (js_trunc \<circ> timestamp) pub)"
      using t(3) js_trunc_nonneg by (intro start_time_nonneg) auto
  qed
  ultimately show ?thesis using plays(2) by blast
qed

lemma clear_av: "clear_ends (JObject (metadata_of (options demo_av)))"
proof -
  have k: "text_encode (js_of_ascii s) \<noteq> []" if "list_all (\<lambda>c. of_char c < (128 :: nat)) s" "s \<noteq> []" for s
    using that by (subst text_encode_ascii) (auto simp: js_of_ascii_def list_all_iff word_less_nat_alt unat_of_nat)
  show ?thesis by (simp add: metadata_of_def demo_av_eq demo_audio_def demo_video_def k)
qed

theorem server_publishes_the_recording_witness:
  "\<exists>w1 w3. mux_start demo_av = (w1, None) \<and> w3 = fold mux_do (StopCall # replicate 5 (Recording_event Pump)) (fold mux_do demo_paused_events w1) \<and>
     (\<exists>frames. pull (\<lambda>_. None) True True True 6 (concat (map the (written_out w3))) = (frames, EndOfStream) \<and>
        map avKind frames = [VideoFrame, AudioFrame, VideoFrame, AudioFrame] \<and> map (drop 5 \<circ> avData) frames = [[7], [], [1], []])"
proof -
  obtain w1 where w1: "mux_start demo_av = (w1, None)" using demo_av_ready(4) by blast
  let ?r = "run_outputs (outputs_of demo_av_events) (start_processor (proc demo_av))"
  have r: "?r = (fst ?r, snd ?r)" by simp
  have s: "\<forall>c \<in> set (snd ?r). length (chunkData c) + 5 < 2 ^ 24 \<and> timestamp c < 2 ^ 32"
    unfolding demo_av_published by (simp add: se_chunk_def)
  have l: "list_all recording_call (replicate 5 (Recording_event Pump))" "pumps (replicate 5 (Recording_event Pump)) = 5" "length (snd ?r) = 4"
    unfolding demo_av_published by (simp_all add: list_all_iff pumps_def)
  have z: "start_time (map (js_trunc \<circ> timestamp) (snd ?r)) = 0"
    unfolding demo_av_published by (simp add: start_time_def se_chunk_def js_trunc_def)
  have f: "map avKind (frames_from True True 0 (map chunk_fields (snd ?r))) = [VideoFrame, AudioFrame, VideoFrame, AudioFrame]"
    "map (drop 5 \<circ> avData) (frames_from True True 0 (map chunk_fields (snd ?r))) = [[7], [], [1], []]"
    unfolding demo_av_published
    by (simp_all add: frames_from_def chunk_fields_def chunk_tag_type_def se_chunk_def chunk_body_def audio_header_bytes_def
        video_header_bytes_def numeral_3_eq_3)
  have o: "audioOption (options demo_av) \<noteq> None" "videoOption (options demo_av) \<noteq> None" "written_out demo_av = []"
    by (simp_all add: demo_av_eq demo_sys_eq)
  have "pull (\<lambda>_. None) True True True 6 (concat (map the (drop 0 (written_out (fold mux_do (StopCall # replicate 5 (Recording_event Pump)) (fold mux_do demo_paused_events w1))))))
    = (frames_from True True 0 (map chunk_fields (snd ?r)), EndOfStream)"
    using server_publishes_the_recording [OF demo_av_ready(1-3) demo_paused_ready(3) w1 metadata_av clear_av demo_paused_ready(1) l(1),
        unfolded demo_paused_ready(2) l(2), OF demo_av_ready(5,6) r _ s refl, of "\<lambda>_. None" 6 _ True True True] o z l(3)
    by simp
  then show ?thesis using w1 f by auto
qed

end
